(* ===== verification/Prelude.thy ===== *)
theory Prelude
  imports Main
    "HOL-Library.Word"
    "HOL-Library.Multiset"
    "HOL-Library.AList"
    "HOL-Library.Sublist"
    "HOL-Library.Char_ord"
    "HOL-Library.List_Lexorder"
begin

text \<open>
  Generic material shared by every component: fact collections, lemmas on lists, byte
  strings and folds.  Nothing here mentions the program; the program's own operations
  start in the theory of the C++ standard library.
\<close>

section \<open>Fact collections\<close>

named_theorems cpp_string \<open>facts on std::string operations\<close>
named_theorems handler_simps \<open>defining equations of request handlers\<close>
named_theorems zip_simps \<open>byte layout of the archive writer\<close>

section \<open>Lists\<close>

lemma filter_mset_set_eq:
  "mset (filter P xs) = filter_mset P (mset xs)"
  by simp

lemma takeWhile_append_stop:
  "(\<And>x. x \<in> set xs \<Longrightarrow> P x) \<Longrightarrow> ys = [] \<or> \<not> P (hd ys) \<Longrightarrow> takeWhile P (xs @ ys) = xs"
  by (cases ys) (auto simp: takeWhile_append)

lemma dropWhile_append_stop:
  "(\<And>x. x \<in> set xs \<Longrightarrow> P x) \<Longrightarrow> ys = [] \<or> \<not> P (hd ys) \<Longrightarrow> dropWhile P (xs @ ys) = ys"
  by (cases ys) (auto simp: dropWhile_append)

lemma set_dropWhile_subset: "set (dropWhile P xs) \<subseteq> set xs"
  by (auto dest: set_dropWhileD)

lemma map_of_filter_distinct:
  "distinct (map fst m) \<Longrightarrow> map_of (filter P m) k =
     (case map_of m k of None \<Rightarrow> None | Some v \<Rightarrow> if P (k, v) then Some v else None)"
proof (induction m)
  case Nil
  then show ?case by simp
next
  case (Cons p m)
  obtain a b where p: "p = (a, b)" by (cases p)
  from Cons.prems p have "map_of m a = None"
    by (auto simp: map_of_eq_None_iff)
  with Cons p show ?case by (auto split: option.splits)
qed

lemma mset_eq_map_of:
  assumes "mset m = mset m'" and "distinct (map fst m)"
  shows "map_of m = map_of m'"
proof
  fix k
  from assms(1) have "set m = set m'" by (metis set_mset_mset)
  moreover from assms(1) have "mset (map fst m) = mset (map fst m')" by simp
  then have "distinct (map fst m')" using assms(2) by (metis mset_eq_imp_distinct_iff)
  ultimately show "map_of m k = map_of m' k"
    using assms(2) by (metis map_of_eq_Some_iff not_None_eq)
qed

lemma fold_invariant_step:
  assumes "\<And>x s. x \<in> set xs \<Longrightarrow> I s \<Longrightarrow> I (f x s)" and "I s"
  shows "I (fold f xs s)"
  using assms by (induction xs arbitrary: s) auto

lemma size_list_pair_mem [termination_simp]:
  "(k, v) \<in> set xs \<Longrightarrow> f v < Suc (size_list (size_prod g f) xs)"
  by (induction xs) auto

lemma size_list_mem [termination_simp]:
  "x \<in> set xs \<Longrightarrow> f x < Suc (size_list f xs)"
  by (induction xs) auto

text \<open>Pieces joined by a separator, as the loops with a \<open>first\<close> flag write them.\<close>

fun join_with :: "'a list \<Rightarrow> 'a list list \<Rightarrow> 'a list" where
  "join_with sep [] = []"
| "join_with sep [x] = x"
| "join_with sep (x # y # ys) = x @ sep @ join_with sep (y # ys)"

lemma length_join_mem: "x \<in> set xs \<Longrightarrow> length x \<le> length (join_with sep xs)"
  by (induction sep xs rule: join_with.induct) auto

lemma length_join_count: "length xs \<le> Suc (length (join_with [c] xs))"
proof (induction xs)
  case (Cons x xs)
  then show ?case by (cases xs) auto
qed simp

lemma fold_max_mem: "(x :: nat) \<in> set xs \<Longrightarrow> x \<le> fold max xs a"
proof -
  have le: "b \<le> fold max xs b" for b :: nat and xs
    by (induction xs arbitrary: b) (auto intro: max.coboundedI1 order_trans[OF max.cobounded2] order_trans[OF max.cobounded1])
  show "x \<in> set xs \<Longrightarrow> x \<le> fold max xs a"
  proof (induction xs arbitrary: a)
    case (Cons y ys)
    have "y \<le> fold max ys (max y a)"
      by (rule order_trans[OF _ le]) simp
    with Cons show ?case by auto
  qed simp
qed

lemma fold_max_least: "(\<And>x. x \<in> set xs \<Longrightarrow> x \<le> b) \<Longrightarrow> a \<le> b \<Longrightarrow> fold max xs (a :: nat) \<le> b"
  by (induction xs arbitrary: a) auto

section \<open>Lexicographic order on byte strings\<close>

text \<open>
  \<open>std::string\<close> compares as \<open>memcmp\<close> does: bytes as unsigned values, a proper prefix
  before its extensions.  This is the library's lexicographic order on lists over the order
  of \<open>char\<close> by code.
\<close>

lemma string_trichotomy: "(a :: string) < b \<or> a = b \<or> b < a"
  by auto

lemma string_less_Cons:
  "(c # s :: string) < d # t \<longleftrightarrow> c < d \<or> c = d \<and> s < t"
  by simp

end
