(* ===== verification/CppStd.thy ===== *)
theory CppStd
  imports Prelude
begin

text \<open>
  The parts of the C++ standard library the sources use, as the standard (and, where the
  standard leaves it to the implementation, the C locale) defines them: \<open>std::string\<close>
  searching and case mapping, \<open>std::stoi\<close> and \<open>std::to_string\<close>, \<open>std::getline\<close>,
  \<open>std::sort\<close> over a comparator, and \<open>std::unordered_map\<close>.  The comparator contract and the
  map contract are locales; the theories that define a comparator or a table interpret them.
\<close>

section \<open>Characters\<close>

definition char_code :: "char \<Rightarrow> nat" where
  "char_code c = of_char c"

definition isdigit :: "char \<Rightarrow> bool" where
  "isdigit c \<longleftrightarrow> 48 \<le> char_code c \<and> char_code c \<le> 57"

definition isspace :: "char \<Rightarrow> bool" where
  "isspace c \<longleftrightarrow> char_code c = 32 \<or> 9 \<le> char_code c \<and> char_code c \<le> 13"

text \<open>\<open>::tolower\<close> and \<open>::toupper\<close> in the C locale: only the ASCII letters change.\<close>

definition tolower :: "char \<Rightarrow> char" where
  "tolower c = (if 65 \<le> char_code c \<and> char_code c \<le> 90 then char_of (char_code c + 32) else c)"

definition toupper :: "char \<Rightarrow> char" where
  "toupper c = (if 97 \<le> char_code c \<and> char_code c \<le> 122 then char_of (char_code c - 32) else c)"

lemma char_code_char_of: "n < 256 \<Longrightarrow> char_code (char_of n) = n"
  by (simp add: char_code_def)

lemma char_code_char_of_mod: "char_code (char_of (n :: nat)) = n mod 256"
  by (simp add: char_code_def)

lemma char_code_less [simp]: "char_code c < 256"
  by (simp add: char_code_def)

lemma char_code_inject: "char_code c = char_code d \<longleftrightarrow> c = d"
  by (simp add: char_code_def)

lemma char_of_char_code [simp]: "char_of (char_code c) = c"
  by (simp add: char_code_def)

lemma tolower_idem [cpp_string]: "tolower (tolower c) = tolower c"
  by (auto simp: tolower_def char_code_char_of)

lemma toupper_idem [cpp_string]: "toupper (toupper c) = toupper c"
  by (auto simp: toupper_def char_code_char_of)

text \<open>\<open>*p\<close> for a pointer into a zero-terminated text: the end reads as the zero byte.\<close>

definition peek :: "string \<Rightarrow> char" where
  "peek s = (case s of [] \<Rightarrow> CHR 0x00 | c # _ \<Rightarrow> c)"

abbreviation lower_string :: "string \<Rightarrow> string" where
  "lower_string \<equiv> map tolower"

abbreviation upper_string :: "string \<Rightarrow> string" where
  "upper_string \<equiv> map toupper"

section \<open>std::string::find\<close>

text \<open>\<open>s.find(t)\<close>: the least index at which \<open>t\<close> occurs, \<open>None\<close> for \<open>npos\<close>.\<close>

fun str_find :: "string \<Rightarrow> string \<Rightarrow> nat option" where
  "str_find t [] = (if t = [] then Some 0 else None)"
| "str_find t (c # s) = (if prefix t (c # s) then Some 0 else map_option Suc (str_find t s))"

definition str_contains :: "string \<Rightarrow> string \<Rightarrow> bool" where
  "str_contains s t \<longleftrightarrow> str_find t s \<noteq> None"

lemma prefix_take_length: "prefix t s \<Longrightarrow> length t \<le> length s \<and> take (length t) s = t"
  by (auto simp: prefix_def)

lemma str_find_Some: "str_find t s = Some i \<Longrightarrow> i + length t \<le> length s \<and> take (length t) (drop i s) = t"
proof (induction t s arbitrary: i rule: str_find.induct)
  case (2 t c s)
  then show ?case
    using prefix_take_length[of t "c # s"] by (cases "prefix t (c # s)") auto
qed (auto split: if_splits)

lemma str_contains_iff [cpp_string]: "str_contains s t \<longleftrightarrow> sublist t s"
proof (induction s)
  case Nil
  then show ?case by (simp add: str_contains_def)
next
  case (Cons c s)
  then show ?case
    by (auto simp: str_contains_def sublist_Cons_right)
qed

lemma str_find_None_iff [cpp_string]: "str_find t s = None \<longleftrightarrow> \<not> sublist t s"
  using str_contains_iff[of s t] by (auto simp: str_contains_def)

lemma str_find_ex_iff [cpp_string]: "(\<exists>i. str_find t s = Some i) \<longleftrightarrow> sublist t s"
  using str_contains_iff[of s t] by (auto simp: str_contains_def)

lemma str_contains_refl [simp]: "str_contains s s"
  by (simp add: str_contains_iff)

lemma str_contains_Nil [simp]: "str_contains s []"
  by (simp add: str_contains_iff)

section \<open>Numbers in text\<close>

fun digits_val :: "nat \<Rightarrow> string \<Rightarrow> nat" where
  "digits_val acc [] = acc"
| "digits_val acc (c # cs) = digits_val (acc * 10 + (char_code c - 48)) cs"

definition int_min :: int where "int_min = - 2147483648"
definition int_max :: int where "int_max = 2147483647"

definition in_int32 :: "int \<Rightarrow> bool" where
  "in_int32 v \<longleftrightarrow> int_min \<le> v \<and> v \<le> int_max"

text \<open>
  \<open>std::stoi(s)\<close>: \<open>strtol\<close> in base 10 (leading white space, an optional sign, the longest run
  of digits), then the range check.  \<open>None\<close> stands for the exceptions \<open>std::invalid_argument\<close>
  (no digit) and \<open>std::out_of_range\<close>.
\<close>

definition stoi :: "string \<Rightarrow> int option" where
  "stoi s =
     (let s1 = dropWhile isspace s;
          neg = (s1 \<noteq> [] \<and> hd s1 = CHR ''-'');
          s2 = (if s1 \<noteq> [] \<and> (hd s1 = CHR ''-'' \<or> hd s1 = CHR ''+'') then tl s1 else s1);
          ds = takeWhile isdigit s2;
          v = (if neg then - int (digits_val 0 ds) else int (digits_val 0 ds))
      in if ds = [] then None else if in_int32 v then Some v else None)"

text \<open>\<open>std::to_string\<close> and the decimal output of integers through a stream.\<close>

definition digit_char :: "nat \<Rightarrow> char" where
  "digit_char d = char_of (48 + d)"

fun show_nat :: "nat \<Rightarrow> string" where
  "show_nat n = (if n < 10 then [digit_char n] else show_nat (n div 10) @ [digit_char (n mod 10)])"

declare show_nat.simps [simp del]

definition show_int :: "int \<Rightarrow> string" where
  "show_int v = (if v < 0 then CHR ''-'' # show_nat (nat (- v)) else show_nat (nat v))"

lemma digit_char_isdigit: "d < 10 \<Longrightarrow> isdigit (digit_char d)"
  by (simp add: digit_char_def isdigit_def char_code_char_of)

lemma char_code_digit_char: "d < 10 \<Longrightarrow> char_code (digit_char d) = 48 + d"
  by (simp add: digit_char_def char_code_char_of)

lemma show_nat_digits: "c \<in> set (show_nat n) \<Longrightarrow> isdigit c"
proof (induction n arbitrary: c rule: show_nat.induct)
  case (1 n)
  show ?case
    using 1 by (cases "n < 10") (auto simp: show_nat.simps[of n] digit_char_isdigit)
qed

lemma show_nat_not_Nil [simp]: "show_nat n \<noteq> []"
  by (subst show_nat.simps) simp

lemma set_show_int: "c \<in> set (show_int v) \<Longrightarrow> isdigit c \<or> c = CHR ''-''"
  by (auto simp: show_int_def dest: show_nat_digits split: if_splits)

lemma show_int_no_newline [simp]: "CHR 0x0A \<notin> set (show_int v)"
  using set_show_int[of "CHR 0x0A" v] by (auto simp: isdigit_def char_code_def)

lemma digits_val_append: "digits_val a (xs @ ys) = digits_val (digits_val a xs) ys"
  by (induction a xs rule: digits_val.induct) auto

lemma digits_val_show_nat: "digits_val 0 (show_nat n) = n"
proof (induction n rule: show_nat.induct)
  case (1 n)
  show ?case
    using 1 by (cases "n < 10")
      (auto simp: show_nat.simps[of n] digits_val_append char_code_digit_char)
qed

lemma isdigit_not_space: "isdigit c \<Longrightarrow> \<not> isspace c"
  by (auto simp: isdigit_def isspace_def)

lemma isdigit_not_sign: "isdigit c \<Longrightarrow> c \<noteq> CHR ''-'' \<and> c \<noteq> CHR ''+''"
  by (auto simp: isdigit_def char_code_def)

lemma hd_show_nat: "isdigit (hd (show_nat n))"
  by (rule show_nat_digits[of _ n]) simp

lemma stoi_show_int: "in_int32 v \<Longrightarrow> stoi (show_int v) = Some v"
proof -
  assume r: "in_int32 v"
  have tw: "takeWhile isdigit (show_nat n) = show_nat n" for n
    by (rule takeWhile_eq_all_conv[THEN iffD2]) (blast intro: show_nat_digits)
  have dw: "dropWhile isspace (show_nat n) = show_nat n" for n
    using hd_show_nat[of n] by (cases "show_nat n") (auto dest: isdigit_not_space)
  show ?thesis
  proof (cases "v < 0")
    case True
    have "\<not> isspace (CHR ''-'')" by (simp add: isspace_def char_code_def)
    with True r show ?thesis
      by (simp add: stoi_def show_int_def Let_def tw digits_val_show_nat)
  next
    case False
    with r hd_show_nat[of "nat v"] show ?thesis
      by (auto simp: stoi_def show_int_def Let_def tw dw digits_val_show_nat dest: isdigit_not_sign)
  qed
qed

lemma stoi_range: "stoi s = Some v \<Longrightarrow> in_int32 v"
  by (auto simp: stoi_def Let_def split: if_splits)

text \<open>The cast \<open>static_cast<int>\<close> from a wider integer keeps the low 32 bits.\<close>

definition to_int32 :: "int \<Rightarrow> int" where
  "to_int32 x = signed_take_bit 31 x"

lemma to_int32_id: "in_int32 v \<Longrightarrow> to_int32 v = v"
  by (simp add: to_int32_def in_int32_def int_min_def int_max_def signed_take_bit_int_eq_self)

lemma to_int32_range: "in_int32 (to_int32 x)"
  using signed_take_bit_int_greater_eq_minus_exp[of 31 x] signed_take_bit_int_less_exp[of 31 x]
  by (simp add: to_int32_def in_int32_def int_min_def int_max_def)

section \<open>std::getline\<close>

text \<open>
  The lines a \<open>while (std::getline(f, line))\<close> loop sees: cut at each newline; a last piece
  without newline counts unless it is empty.
\<close>

fun getlines_aux :: "string \<Rightarrow> string \<Rightarrow> string list" where
  "getlines_aux cur [] = (if cur = [] then [] else [rev cur])"
| "getlines_aux cur (c # cs) =
     (if c = CHR 0x0A then rev cur # getlines_aux [] cs else getlines_aux (c # cur) cs)"

definition getlines :: "string \<Rightarrow> string list" where
  "getlines = getlines_aux []"

lemma getlines_aux_line:
  "CHR 0x0A \<notin> set l \<Longrightarrow> getlines_aux cur (l @ CHR 0x0A # s) = (rev cur @ l) # getlines_aux [] s"
  by (induction l arbitrary: cur) auto

lemma getlines_line: "CHR 0x0A \<notin> set l \<Longrightarrow> getlines (l @ CHR 0x0A # s) = l # getlines s"
  by (simp add: getlines_def getlines_aux_line)

lemma getlines_aux_no_newline: "CHR 0x0A \<notin> set cur \<Longrightarrow> l \<in> set (getlines_aux cur s) \<Longrightarrow> CHR 0x0A \<notin> set l"
  by (induction cur s arbitrary: l rule: getlines_aux.induct) (auto split: if_splits)

section \<open>std::sort and its comparator contract\<close>

text \<open>
  \<open>std::sort\<close> is only defined for a comparator that is a strict weak ordering; then its result
  is a permutation of the input in which no element precedes a smaller one.  The order of
  equivalent elements is left open.  The model fixes the insertion sort that libstdc++ runs on
  short ranges (each element moves left past the greater ones); \<open>is_sorted_by\<close> below states what
  every implementation guarantees, and \<open>sort_unique\<close> when that determines the result.
\<close>

fun sort_ins :: "('a \<Rightarrow> 'a \<Rightarrow> bool) \<Rightarrow> 'a \<Rightarrow> 'a list \<Rightarrow> 'a list" where
  "sort_ins lt x [] = [x]"
| "sort_ins lt x (y # ys) = (if lt x y then x # y # ys else y # sort_ins lt x ys)"

definition std_sort :: "('a \<Rightarrow> 'a \<Rightarrow> bool) \<Rightarrow> 'a list \<Rightarrow> 'a list" where
  "std_sort lt xs = fold (sort_ins lt) xs []"

abbreviation is_sorted_by :: "('a \<Rightarrow> 'a \<Rightarrow> bool) \<Rightarrow> 'a list \<Rightarrow> bool" where
  "is_sorted_by lt xs \<equiv> sorted_wrt (\<lambda>x y. \<not> lt y x) xs"

lemma mset_sort_ins: "mset (sort_ins lt x ys) = add_mset x (mset ys)"
  by (induction ys) auto

lemma mset_fold_sort_ins: "mset (fold (sort_ins lt) xs ys) = mset xs + mset ys"
  by (induction xs arbitrary: ys) (auto simp: mset_sort_ins)

lemma mset_std_sort [simp]: "mset (std_sort lt xs) = mset xs"
  by (simp add: std_sort_def mset_fold_sort_ins)

lemma set_std_sort [simp]: "set (std_sort lt xs) = set xs"
  by (metis mset_std_sort set_mset_mset)

lemma length_std_sort [simp]: "length (std_sort lt xs) = length xs"
  by (metis mset_std_sort size_mset)

locale strict_weak_order =
  fixes lt :: "'a \<Rightarrow> 'a \<Rightarrow> bool"
  assumes irrefl: "\<not> lt x x"
    and trans: "lt x y \<Longrightarrow> lt y z \<Longrightarrow> lt x z"
    and incomp_trans: "\<not> lt x y \<Longrightarrow> \<not> lt y x \<Longrightarrow> \<not> lt y z \<Longrightarrow> \<not> lt z y \<Longrightarrow> \<not> lt x z \<and> \<not> lt z x"
begin

lemma asym: "lt x y \<Longrightarrow> \<not> lt y x"
  using irrefl trans by blast

lemma not_lt_trans: "\<not> lt y x \<Longrightarrow> \<not> lt z y \<Longrightarrow> \<not> lt z x"
  by (metis trans incomp_trans)

lemma sort_ins_sorted: "is_sorted_by lt ys \<Longrightarrow> is_sorted_by lt (sort_ins lt x ys)"
proof (induction ys)
  case Nil
  then show ?case by simp
next
  case (Cons y ys)
  have set_ins: "set (sort_ins lt x ys) = insert x (set ys)"
    by (metis mset_sort_ins set_mset_add_mset_insert set_mset_mset)
  show ?case
  proof (cases "lt x y")
    case True
    with Cons.prems show ?thesis by (auto dest: asym trans)
  next
    case False
    with Cons show ?thesis by (auto simp: set_ins)
  qed
qed

lemma sort_sorted: "is_sorted_by lt (std_sort lt xs)"
proof -
  have "is_sorted_by lt (fold (sort_ins lt) xs ys)" if "is_sorted_by lt ys" for ys
    using that by (induction xs arbitrary: ys) (auto intro: sort_ins_sorted)
  then show ?thesis by (simp add: std_sort_def)
qed

text \<open>Where equivalent elements are equal, the contract determines the result.\<close>

lemma sort_unique:
  assumes "is_sorted_by lt xs" and "is_sorted_by lt ys" and "mset xs = mset ys"
    and "\<And>x y. x \<in> set xs \<Longrightarrow> y \<in> set xs \<Longrightarrow> \<not> lt x y \<Longrightarrow> \<not> lt y x \<Longrightarrow> x = y"
  shows "xs = ys"
  using assms
proof (induction xs arbitrary: ys)
  case Nil
  then show ?case by simp
next
  case (Cons x xs)
  then obtain y ys' where ys: "ys = y # ys'" by (cases ys) auto
  have "x \<in> set ys" and "y \<in> set (x # xs)"
    using Cons.prems(3) ys by (metis list.set_intros(1) set_mset_mset)+
  then have "\<not> lt x y" "\<not> lt y x"
    using Cons.prems(1,2) ys irrefl by auto
  with Cons.prems(4) \<open>y \<in> set (x # xs)\<close> have "x = y" by auto
  moreover have "xs = ys'"
    using Cons.prems ys \<open>x = y\<close> by (intro Cons.IH) auto
  ultimately show ?case by (simp add: ys)
qed

lemma sort_perm_eq:
  assumes "mset xs = mset ys"
    and "\<And>x y. x \<in> set xs \<Longrightarrow> y \<in> set xs \<Longrightarrow> \<not> lt x y \<Longrightarrow> \<not> lt y x \<Longrightarrow> x = y"
  shows "std_sort lt xs = std_sort lt ys"
  using assms by (intro sort_unique sort_sorted) auto

end

text \<open>Comparators that compare a key whose order is linear.\<close>

locale key_order =
  fixes key :: "'a \<Rightarrow> 'k :: linorder" and lt :: "'a \<Rightarrow> 'a \<Rightarrow> bool"
  assumes lt_key: "lt x y \<longleftrightarrow> key x < key y"
begin

lemma is_strict_weak_order: "strict_weak_order lt"
  by unfold_locales (auto simp: lt_key)

lemma sorted_keys: "is_sorted_by lt xs \<longleftrightarrow> sorted (map key xs)"
  by (simp add: sorted_wrt_map lt_key not_less)

lemma incomparable_key: "\<not> lt x y \<Longrightarrow> \<not> lt y x \<Longrightarrow> key x = key y"
  by (simp add: lt_key)

end

sublocale key_order \<subseteq> strict_weak_order lt
  by (rule is_strict_weak_order)

section \<open>std::unordered_map\<close>

text \<open>
  A table is the list of its entries in iteration order, keys distinct.  \<open>m[k] = v\<close> overwrites
  in place or adds an entry.  The standard leaves the iteration order open (the model adds
  new entries at the end), so facts about a traversal are stated for every permutation of the
  entries, \<open>umap_equiv\<close>.
\<close>

type_synonym ('k, 'v) umap = "('k \<times> 'v) list"

definition umap_find :: "('k, 'v) umap \<Rightarrow> 'k \<Rightarrow> 'v option" where
  "umap_find m k = map_of m k"

definition umap_put :: "'k \<Rightarrow> 'v \<Rightarrow> ('k, 'v) umap \<Rightarrow> ('k, 'v) umap" where
  "umap_put k v m = AList.update k v m"

text \<open>\<open>m[k]\<close> as an l-value: a missing entry is value-initialised first, then modified.\<close>

definition umap_modify :: "'v \<Rightarrow> 'k \<Rightarrow> ('v \<Rightarrow> 'v) \<Rightarrow> ('k, 'v) umap \<Rightarrow> ('k, 'v) umap" where
  "umap_modify d k f m =
     umap_put k (f (case umap_find m k of None \<Rightarrow> d | Some v \<Rightarrow> v)) m"

definition umap_values :: "('k, 'v) umap \<Rightarrow> 'v list" where
  "umap_values m = map snd m"

abbreviation umap_ok :: "('k, 'v) umap \<Rightarrow> bool" where
  "umap_ok m \<equiv> distinct (map fst m)"

abbreviation umap_equiv :: "('k, 'v) umap \<Rightarrow> ('k, 'v) umap \<Rightarrow> bool" where
  "umap_equiv m m' \<equiv> mset m = mset m'"

lemma umap_find_Nil [simp]: "umap_find [] k = None"
  by (simp add: umap_find_def)

lemma umap_find_put: "umap_find (umap_put k v m) k' = (if k' = k then Some v else umap_find m k')"
  by (simp add: umap_find_def umap_put_def update_conv')

lemma umap_ok_put: "umap_ok m \<Longrightarrow> umap_ok (umap_put k v m)"
  by (simp add: umap_put_def distinct_update)

lemma umap_find_modify:
  "umap_find (umap_modify d k f m) k' =
     (if k' = k then Some (f (case umap_find m k of None \<Rightarrow> d | Some v \<Rightarrow> v)) else umap_find m k')"
  by (simp add: umap_modify_def umap_find_put)

lemma umap_ok_modify: "umap_ok m \<Longrightarrow> umap_ok (umap_modify d k f m)"
  by (simp add: umap_modify_def umap_ok_put)

lemma umap_find_equiv: "umap_equiv m m' \<Longrightarrow> umap_ok m \<Longrightarrow> umap_find m = umap_find m'"
  by (simp add: umap_find_def[abs_def] mset_eq_map_of)

lemma umap_values_find: "umap_ok m \<Longrightarrow> v \<in> set (umap_values m) \<longleftrightarrow> (\<exists>k. umap_find m k = Some v)"
  by (force simp: umap_values_def umap_find_def)

lemma umap_find_mem: "umap_ok m \<Longrightarrow> umap_find m k = Some v \<longleftrightarrow> (k, v) \<in> set m"
  by (simp add: umap_find_def)

text \<open>
  The contract of a keyed store, and what a loading loop that writes one record per row
  leaves in it: under each key, the last row with that key.
\<close>

locale keyed_store =
  fixes put :: "'k \<Rightarrow> 'v \<Rightarrow> 'm \<Rightarrow> 'm"
    and find :: "'m \<Rightarrow> 'k \<Rightarrow> 'v option"
    and ok :: "'m \<Rightarrow> bool"
  assumes find_put: "find (put k v m) k' = (if k' = k then Some v else find m k')"
    and ok_put: "ok m \<Longrightarrow> ok (put k v m)"
begin

lemma ok_fold_put:
  "ok m \<Longrightarrow> ok (fold (\<lambda>x m. if P x then put (key x) (val x) m else m) xs m)"
  by (induction xs arbitrary: m) (auto simp: ok_put)

lemma find_fold_put:
  "find (fold (\<lambda>x m. if P x then put (key x) (val x) m else m) xs m) k =
     (case filter (\<lambda>x. P x \<and> key x = k) xs of
        [] \<Rightarrow> find m k
      | y # ys \<Rightarrow> Some (val (last (y # ys))))"
  by (induction xs arbitrary: m) (auto simp: find_put split: list.splits)

lemma find_fold_key:
  assumes "find (fold (\<lambda>x m. if P x then put (key x) x m else m) xs m) k = Some v"
    and "\<And>w. find m k = Some w \<Longrightarrow> Q k w"
    and "\<And>x. x \<in> set xs \<Longrightarrow> P x \<Longrightarrow> Q (key x) x"
  shows "Q k v"
  using assms
proof (induction xs arbitrary: m)
  case Nil
  then show ?case by simp
next
  case (Cons x xs)
  show ?case
    by (rule Cons.IH[of "if P x then put (key x) x m else m"])
       (use Cons.prems in \<open>auto simp: find_put split: if_splits\<close>)
qed

end

interpretation umap_store: keyed_store umap_put umap_find umap_ok
  by unfold_locales (auto simp: umap_find_put umap_ok_put)

end
