(* ===== verification/Csv.thy ===== *)
theory Csv
  imports CppStd
begin

text \<open>
  The CSV helpers of airdp.cpp (\<open>AirTravelDB::cleanField\<close>, \<open>AirTravelDB::parseCSVLine\<close>, the file's
  own \<open>csv_escape\<close>, \<open>toInt\<close>) and the \<open>csv_escape\<close> of server.cpp that the report endpoints use.
  The main result is that the parser inverts the writer: a row of escaped fields joined by
  commas parses back to the fields.
\<close>

section \<open>The parser (airdp.cpp)\<close>

text \<open>The loop of \<open>cleanField\<close> that turns a doubled quote into one.\<close>

fun unescape_quotes :: "string \<Rightarrow> string" where
  "unescape_quotes [] = []"
| "unescape_quotes [c] = [c]"
| "unescape_quotes (c # d # cs) =
     (if c = CHR 0x22 \<and> d = CHR 0x22 then CHR 0x22 # unescape_quotes cs
      else c # unescape_quotes (d # cs))"

definition cleanField :: "string \<Rightarrow> string" where
  "cleanField s =
     (if 2 \<le> length s \<and> hd s = CHR 0x22 \<and> last s = CHR 0x22
      then unescape_quotes (take (length s - 2) (drop 1 s))
      else s)"

text \<open>
  The loop of \<open>parseCSVLine\<close>: the fields found so far, the current field (its quotes kept),
  and whether the scan is inside quotes.
\<close>

fun parse_loop :: "string list \<Rightarrow> string \<Rightarrow> bool \<Rightarrow> string \<Rightarrow> string list" where
  "parse_loop fields cur inq [] = fields @ [cleanField cur]"
| "parse_loop fields cur inq (c # cs) =
     (if c = CHR 0x22 then parse_loop fields (cur @ [c]) (\<not> inq) cs
      else if c = CHR '','' \<and> \<not> inq then parse_loop (fields @ [cleanField cur]) [] inq cs
      else parse_loop fields (cur @ [c]) inq cs)"

definition parseCSVLine :: "string \<Rightarrow> string list" where
  "parseCSVLine line = parse_loop [] [] False line"

section \<open>The writers\<close>

definition need_quotes :: "string \<Rightarrow> bool" where
  "need_quotes s = list_ex (\<lambda>c. c \<in> {CHR '','', CHR 0x22, CHR 0x0A, CHR 0x0D}) s"

definition quote_char :: "char \<Rightarrow> string" where
  "quote_char c = (if c = CHR 0x22 then [CHR 0x22, CHR 0x22] else [c])"

text \<open>The version of airdp.cpp appends a string per character ...\<close>

definition csv_escape_db :: "string \<Rightarrow> string" where
  "csv_escape_db s =
     (if \<not> need_quotes s then s
      else fold (\<lambda>c out. out @ quote_char c) s [CHR 0x22] @ [CHR 0x22])"

text \<open>... the version of server.cpp pushes characters one by one.\<close>

fun escape_loop :: "string \<Rightarrow> string \<Rightarrow> string" where
  "escape_loop out [] = out"
| "escape_loop out (c # cs) =
     (if c = CHR 0x22 then escape_loop (out @ [CHR 0x22, CHR 0x22]) cs
      else escape_loop (out @ [c]) cs)"

definition csv_escape :: "string \<Rightarrow> string" where
  "csv_escape s =
     (if \<not> need_quotes s then s else escape_loop [CHR 0x22] s @ [CHR 0x22])"

text \<open>A row of a report: the fields separated by commas.\<close>

fun csv_join :: "string list \<Rightarrow> string" where
  "csv_join [] = []"
| "csv_join [f] = f"
| "csv_join (f # g # fs) = f @ CHR '','' # csv_join (g # fs)"

section \<open>Parsing inverts writing\<close>

abbreviation quoted :: "string \<Rightarrow> string" where
  "quoted s \<equiv> concat (map quote_char s)"

lemma escape_loop_eq: "escape_loop out s = out @ quoted s"
  by (induction out s rule: escape_loop.induct) (auto simp: quote_char_def)

lemma csv_escape_eq: "csv_escape s = (if need_quotes s then CHR 0x22 # quoted s @ [CHR 0x22] else s)"
  by (simp add: csv_escape_def escape_loop_eq)

lemma fold_quote_eq: "fold (\<lambda>c out. out @ quote_char c) s out = out @ quoted s"
  by (induction s arbitrary: out) auto

lemma unescape_quotes_other: "c \<noteq> CHR 0x22 \<Longrightarrow> unescape_quotes (c # cs) = c # unescape_quotes cs"
  by (cases cs) auto

lemma unescape_quoted: "unescape_quotes (quoted s) = s"
  by (induction s) (auto simp: quote_char_def unescape_quotes_other)

lemma no_quotes_unquoted: "\<not> need_quotes s \<Longrightarrow> CHR 0x22 \<notin> set s \<and> CHR '','' \<notin> set s"
  by (auto simp: need_quotes_def list_ex_iff)

lemma cleanField_escape: "cleanField (csv_escape s) = s"
proof (cases "need_quotes s")
  case True
  have "take (length (csv_escape s) - 2) (drop 1 (csv_escape s)) = quoted s"
    using True by (simp add: csv_escape_eq)
  with True show ?thesis
    by (simp add: cleanField_def csv_escape_eq unescape_quoted)
next
  case False
  then have "s \<noteq> [] \<Longrightarrow> hd s \<noteq> CHR 0x22"
    by (metis hd_in_set no_quotes_unquoted)
  with False show ?thesis
    by (cases "s = []") (auto simp: cleanField_def csv_escape_eq)
qed

lemma parse_loop_plain:
  "CHR 0x22 \<notin> set s \<Longrightarrow> inq \<or> CHR '','' \<notin> set s \<Longrightarrow>
   parse_loop fields cur inq (s @ r) = parse_loop fields (cur @ s) inq r"
  by (induction s arbitrary: cur) auto

lemma parse_loop_quoted:
  "parse_loop fields cur True (quoted s @ r) = parse_loop fields (cur @ quoted s) True r"
  by (induction s arbitrary: cur) (auto simp: quote_char_def)

lemma parse_loop_escape:
  "parse_loop fields [] False (csv_escape s @ r) = parse_loop fields (csv_escape s) False r"
  by (simp add: csv_escape_eq parse_loop_quoted parse_loop_plain no_quotes_unquoted)

lemma parse_loop_row:
  "fs \<noteq> [] \<Longrightarrow> parse_loop fields [] False (csv_join (map csv_escape fs)) = fields @ fs"
proof (induction fs arbitrary: fields)
  case Nil
  then show ?case by simp
next
  case (Cons f fs)
  show ?case
  proof (cases fs)
    case Nil
    with parse_loop_escape[of fields f "[]"] show ?thesis
      by (simp add: cleanField_escape)
  next
    case (Cons g gs)
    with Cons.IH[of "fields @ [f]"] show ?thesis
      by (simp add: parse_loop_escape cleanField_escape)
  qed
qed

text \<open>How many fields a line has: one more than the commas outside quotes.\<close>

fun open_commas :: "bool \<Rightarrow> string \<Rightarrow> nat" where
  "open_commas inq [] = 0"
| "open_commas inq (c # cs) =
     (if c = CHR 0x22 then open_commas (\<not> inq) cs
      else if c = CHR '','' \<and> \<not> inq then Suc (open_commas inq cs)
      else open_commas inq cs)"

lemma length_parse_loop:
  "length (parse_loop fields cur inq s) = length fields + 1 + open_commas inq s"
  by (induction fields cur inq s rule: parse_loop.induct) auto

section \<open>Integer fields\<close>

definition toInt :: "string \<Rightarrow> int" where
  "toInt s = (if s = [] \<or> s = [CHR 0x5C, CHR ''N''] then - 1
              else case stoi s of None \<Rightarrow> - 1 | Some v \<Rightarrow> v)"

lemma toInt_range: "in_int32 (toInt s)"
  by (auto simp: toInt_def in_int32_def int_min_def int_max_def dest: stoi_range[unfolded in_int32_def int_min_def int_max_def] split: option.splits)

lemma toInt_show_int: "in_int32 v \<Longrightarrow> toInt (show_int v) = v"
proof -
  assume v: "in_int32 v"
  have "show_int v \<noteq> []" by (simp add: show_int_def)
  moreover have "CHR ''N'' \<notin> set (show_nat n)" for n
    using show_nat_digits[of "CHR ''N''" n] by (auto simp: isdigit_def char_code_def)
  then have "CHR ''N'' \<notin> set (show_int v)"
    by (simp add: show_int_def)
  then have "show_int v \<noteq> [CHR 0x5C, CHR ''N'']" by auto
  ultimately show ?thesis
    using v by (simp add: toInt_def stoi_show_int)
qed

section \<open>Properties\<close>

text \<open>C26. CSV round trip: a row whose fields are written with \<open>csv_escape\<close> and joined with commas is
  parsed back by \<open>parseCSVLine\<close> to exactly those fields, whatever quotes, commas and line breaks
  they contain.
\<close>

theorem csv_row_roundtrip:
  assumes "fs \<noteq> []"
  shows "parseCSVLine (csv_join (map csv_escape fs)) = fs"
  using parse_loop_row[OF assms, of "[]"] by (simp add: parseCSVLine_def)

theorem csv_row_roundtrip_witness:
  "parseCSVLine (csv_join (map csv_escape [''a,b'', [], [CHR 0x22, CHR ''x'']])) = [''a,b'', [], [CHR 0x22, CHR ''x'']]"
  by (rule csv_row_roundtrip) simp

text \<open>The two copies of \<open>csv_escape\<close>, in airdp.cpp and in server.cpp, compute the same string.
\<close>

theorem csv_escape_copies_agree: "csv_escape_db s = csv_escape s"
  by (simp add: csv_escape_db_def csv_escape_eq fold_quote_eq)

text \<open>\<open>parseCSVLine\<close> yields one more field than there are commas outside quotes; in particular it
  never yields an empty row.
\<close>

theorem parse_field_count: "length (parseCSVLine line) = Suc (open_commas False line)"
  by (simp add: parseCSVLine_def length_parse_loop)

text \<open>\<open>toInt\<close> always returns a value of the 32-bit type \<open>int\<close>, and reads back every such value
  from its decimal text.
\<close>

theorem toInt_total_and_exact: "in_int32 (toInt s) \<and> (in_int32 v \<longrightarrow> toInt (show_int v) = v)"
  by (simp add: toInt_range toInt_show_int)

theorem toInt_total_and_exact_witness:
  "in_int32 (- 42) \<and> toInt (show_int (- 42)) = - 42"
proof -
  have r: "in_int32 (- 42)" by (simp add: in_int32_def int_min_def int_max_def)
  with toInt_total_and_exact[of "[]" "- 42"] show ?thesis by blast
qed

end
