(* ===== verification/Fp.thy ===== *)
theory Fp
  imports CppStd Complex_Main
begin

text \<open>
  Floating point.  The program computes with \<open>double\<close>; its arithmetic, its elementary functions
  and its text conversions belong to the platform (IEEE rounding, libm, printf).  A component
  that uses them takes them as one argument, a record of operations over an abstract type, so
  that every fact proved without further hypotheses holds for the machine's doubles with
  their roundings, not-a-number and infinities.  \<open>real_fp\<close> is the exact instance, on which the
  geometric facts are proved.
\<close>

record 'd fpops =
  fp_lit :: "int \<Rightarrow> nat \<Rightarrow> 'd"       \<comment> \<open>the literal \<open>m\<close> scaled by ten to the \<open>- k\<close>\<close>
  fp_pi :: 'd                        \<comment> \<open>\<open>M_PI\<close>\<close>
  fp_add :: "'d \<Rightarrow> 'd \<Rightarrow> 'd"
  fp_sub :: "'d \<Rightarrow> 'd \<Rightarrow> 'd"
  fp_mul :: "'d \<Rightarrow> 'd \<Rightarrow> 'd"
  fp_div :: "'d \<Rightarrow> 'd \<Rightarrow> 'd"
  fp_sin :: "'d \<Rightarrow> 'd"
  fp_cos :: "'d \<Rightarrow> 'd"
  fp_sqrt :: "'d \<Rightarrow> 'd"
  fp_atan2 :: "'d \<Rightarrow> 'd \<Rightarrow> 'd"
  fp_le :: "'d \<Rightarrow> 'd \<Rightarrow> bool"
  fp_lround :: "'d \<Rightarrow> int"
  fp_stod :: "string \<Rightarrow> 'd option"   \<comment> \<open>\<open>std::stod\<close>, \<open>None\<close> when it throws\<close>
  fp_read :: "string \<Rightarrow> 'd"           \<comment> \<open>\<open>operator>>\<close> of a stream holding the text\<close>
  fp_is_nan :: "'d \<Rightarrow> bool"
  fp_is_inf :: "'d \<Rightarrow> bool"
  fp_fmt_g17 :: "'d \<Rightarrow> string"       \<comment> \<open>printf with 17 significant digits, format g\<close>
  fp_fmt_f :: "'d \<Rightarrow> string"         \<comment> \<open>printf, format f, what a 127-character buffer holds\<close>
  fp_stream :: "'d \<Rightarrow> string"        \<comment> \<open>\<open>operator<<\<close> of a default stream\<close>

text \<open>\<open>toDouble\<close> of airdp.cpp: a blank or unreadable field counts as zero.\<close>

definition toDouble :: "'d fpops \<Rightarrow> string \<Rightarrow> 'd" where
  "toDouble fp s =
     (if s = [] \<or> s = [CHR 0x5C, CHR ''N''] then fp_lit fp 0 0
      else case fp_stod fp s of None \<Rightarrow> fp_lit fp 0 0 | Some v \<Rightarrow> v)"

section \<open>The exact instance\<close>

definition real_atan2 :: "real \<Rightarrow> real \<Rightarrow> real" where
  "real_atan2 y x =
     (if 0 < x then arctan (y / x)
      else if x < 0 then (if 0 \<le> y then arctan (y / x) + pi else arctan (y / x) - pi)
      else if 0 < y then pi / 2
      else if y < 0 then - pi / 2 else 0)"

text \<open>\<open>lround\<close>: to the nearest integer, halves away from zero.\<close>

definition real_lround :: "real \<Rightarrow> int" where
  "real_lround x = (if 0 \<le> x then \<lfloor>x + 1 / 2\<rfloor> else - \<lfloor>- x + 1 / 2\<rfloor>)"

definition real_fp :: "(string \<Rightarrow> real option) \<Rightarrow> (real \<Rightarrow> string) \<Rightarrow> real fpops" where
  "real_fp rd sh =
     \<lparr> fp_lit = (\<lambda>m k. of_int m / 10 ^ k), fp_pi = pi,
       fp_add = (+), fp_sub = (-), fp_mul = (*), fp_div = (/),
       fp_sin = sin, fp_cos = cos, fp_sqrt = sqrt, fp_atan2 = real_atan2,
       fp_le = (\<le>), fp_lround = real_lround, fp_stod = rd,
       fp_read = (\<lambda>s. case rd s of Some d \<Rightarrow> d | None \<Rightarrow> 0),
       fp_is_nan = (\<lambda>_. False), fp_is_inf = (\<lambda>_. False),
       fp_fmt_g17 = sh, fp_fmt_f = sh, fp_stream = sh \<rparr>"

lemma real_lround_mono: "x \<le> y \<Longrightarrow> real_lround x \<le> real_lround y"
  unfolding real_lround_def by (auto; linarith)

lemma real_lround_near: "\<bar>of_int (real_lround x) - x\<bar> \<le> 1 / 2"
proof (cases "0 \<le> x")
  case True
  then have "real_lround x = \<lfloor>x + 1 / 2\<rfloor>" by (simp add: real_lround_def)
  moreover have "of_int \<lfloor>x + 1 / 2\<rfloor> \<le> x + 1 / 2" "x + 1 / 2 < of_int \<lfloor>x + 1 / 2\<rfloor> + 1"
    by linarith+
  ultimately show ?thesis unfolding abs_le_iff by linarith
next
  case False
  then have "real_of_int (real_lround x) = - of_int \<lfloor>- x + 1 / 2\<rfloor>"
    by (simp add: real_lround_def)
  moreover have "of_int \<lfloor>- x + 1 / 2\<rfloor> \<le> - x + 1 / 2" "- x + 1 / 2 < of_int \<lfloor>- x + 1 / 2\<rfloor> + 1"
    by linarith+
  ultimately show ?thesis unfolding abs_le_iff by linarith
qed

end
