(* ===== verification/AirDb.thy ===== *)
theory AirDb
  imports Csv Fp "HOL-Library.Product_Lexorder"
begin

text \<open>
  The database of airdb.h and airdp.cpp: the three record types, the tables of
  \<open>AirTravelDB\<close>, its loaders and its queries.  Records are shared through \<open>shared_ptr\<close> and
  never written after loading, so the tables hold their values.
\<close>

section \<open>Data (airdb.h)\<close>

record Airline =
  al_id :: int
  al_name :: string
  al_alias :: string
  al_iata :: string
  al_icao :: string
  al_callsign :: string
  al_country :: string
  al_active :: string

record 'd Airport =
  ap_id :: int
  ap_name :: string
  ap_city :: string
  ap_country :: string
  ap_iata :: string
  ap_icao :: string
  ap_latitude :: 'd
  ap_longitude :: 'd
  ap_altitude_ft :: int
  ap_tz_offset :: 'd
  ap_dst :: string
  ap_tz_db :: string
  ap_type :: string
  ap_source :: string

record Route =
  rt_airline_iata :: string
  rt_airline_id :: int
  rt_src_iata :: string
  rt_src_id :: int
  rt_dst_iata :: string
  rt_dst_id :: int
  rt_codeshare :: string
  rt_stops :: int
  rt_equipment :: string

record 'd AirTravelDB =
  airlines_by_iata :: "(string, Airline) umap"
  airlines_by_id :: "(int, Airline) umap"
  airlines_by_icao :: "(string, Airline) umap"
  airports_by_iata :: "(string, 'd Airport) umap"
  airports_by_id :: "(int, 'd Airport) umap"
  airports_by_icao :: "(string, 'd Airport) umap"
  routes :: "Route list"

definition empty_db :: "'d AirTravelDB" where
  "empty_db = \<lparr> airlines_by_iata = [], airlines_by_id = [], airlines_by_icao = [],
     airports_by_iata = [], airports_by_id = [], airports_by_icao = [], routes = [] \<rparr>"

text \<open>The literal backslash-N, the data files' mark for a missing value.\<close>

abbreviation null_mark :: string where
  "null_mark \<equiv> [CHR 0x5C, CHR ''N'']"

section \<open>Loaders\<close>

definition airline_of_fields :: "string list \<Rightarrow> Airline" where
  "airline_of_fields flds =
     \<lparr> al_id = toInt (flds ! 0), al_name = flds ! 1, al_alias = flds ! 2,
       al_iata = flds ! 3, al_icao = flds ! 4, al_callsign = flds ! 5,
       al_country = flds ! 6, al_active = flds ! 7 \<rparr>"

definition airport_of_fields :: "'d fpops \<Rightarrow> string list \<Rightarrow> 'd Airport" where
  "airport_of_fields fp flds =
     \<lparr> ap_id = toInt (flds ! 0), ap_name = flds ! 1, ap_city = flds ! 2,
       ap_country = flds ! 3, ap_iata = flds ! 4, ap_icao = flds ! 5,
       ap_latitude = toDouble fp (flds ! 6), ap_longitude = toDouble fp (flds ! 7),
       ap_altitude_ft = toInt (flds ! 8), ap_tz_offset = toDouble fp (flds ! 9),
       ap_dst = flds ! 10, ap_tz_db = flds ! 11, ap_type = flds ! 12,
       ap_source = flds ! 13 \<rparr>"

definition route_of_fields :: "string list \<Rightarrow> Route" where
  "route_of_fields flds =
     \<lparr> rt_airline_iata = flds ! 0, rt_airline_id = toInt (flds ! 1),
       rt_src_iata = flds ! 2, rt_src_id = toInt (flds ! 3),
       rt_dst_iata = flds ! 4, rt_dst_id = toInt (flds ! 5),
       rt_codeshare = flds ! 6, rt_stops = toInt (flds ! 7), rt_equipment = flds ! 8 \<rparr>"

text \<open>The locked part of each loop body: enter the record into the indices.\<close>

definition insert_airline :: "Airline \<Rightarrow> 'd AirTravelDB \<Rightarrow> 'd AirTravelDB" where
  "insert_airline a db =
     (let db1 = (if al_iata a \<noteq> [] \<and> al_iata a \<noteq> null_mark
                 then db\<lparr>airlines_by_iata := umap_put (al_iata a) a (airlines_by_iata db)\<rparr> else db);
          db2 = (if al_icao a \<noteq> [] \<and> al_icao a \<noteq> null_mark
                 then db1\<lparr>airlines_by_icao := umap_put (al_icao a) a (airlines_by_icao db1)\<rparr> else db1)
      in db2\<lparr>airlines_by_id := umap_put (al_id a) a (airlines_by_id db2)\<rparr>)"

definition insert_airport :: "'d Airport \<Rightarrow> 'd AirTravelDB \<Rightarrow> 'd AirTravelDB" where
  "insert_airport ap db =
     (let db1 = (if ap_iata ap \<noteq> [] \<and> ap_iata ap \<noteq> null_mark
                 then db\<lparr>airports_by_iata := umap_put (ap_iata ap) ap (airports_by_iata db)\<rparr> else db);
          db2 = (if ap_icao ap \<noteq> []
                 then db1\<lparr>airports_by_icao := umap_put (ap_icao ap) ap (airports_by_icao db1)\<rparr> else db1)
      in db2\<lparr>airports_by_id := umap_put (ap_id ap) ap (airports_by_id db2)\<rparr>)"

definition insert_route :: "Route \<Rightarrow> 'd AirTravelDB \<Rightarrow> 'd AirTravelDB" where
  "insert_route r db = db\<lparr>routes := routes db @ [r]\<rparr>"

text \<open>
  One iteration of a loading loop: skip an empty line, skip a row with too few fields,
  otherwise build the record, insert it and count it.
\<close>

definition load_airline_line :: "string \<Rightarrow> nat \<times> 'd AirTravelDB \<Rightarrow> nat \<times> 'd AirTravelDB" where
  "load_airline_line line st =
     (case st of (cnt, db) \<Rightarrow>
        if line = [] then (cnt, db)
        else let flds = parseCSVLine line
             in if length flds < 8 then (cnt, db)
                else (cnt + 1, insert_airline (airline_of_fields flds) db))"

definition load_airport_line :: "'d fpops \<Rightarrow> string \<Rightarrow> nat \<times> 'd AirTravelDB \<Rightarrow> nat \<times> 'd AirTravelDB" where
  "load_airport_line fp line st =
     (case st of (cnt, db) \<Rightarrow>
        if line = [] then (cnt, db)
        else let flds = parseCSVLine line
             in if length flds < 14 then (cnt, db)
                else (cnt + 1, insert_airport (airport_of_fields fp flds) db))"

definition load_route_line :: "string \<Rightarrow> nat \<times> 'd AirTravelDB \<Rightarrow> nat \<times> 'd AirTravelDB" where
  "load_route_line line st =
     (case st of (cnt, db) \<Rightarrow>
        if line = [] then (cnt, db)
        else let flds = parseCSVLine line
             in if length flds < 9 then (cnt, db)
                else (cnt + 1, insert_route (route_of_fields flds) db))"

text \<open>
  A loader returns its \<open>bool\<close>, the text it prints and the new database.  The file system is an
  argument: \<open>fs path\<close> is the content of a file that can be opened.
\<close>

type_synonym 'd load_result = "bool \<times> string \<times> 'd AirTravelDB"

definition LoadAirlinesCSV :: "(string \<Rightarrow> string option) \<Rightarrow> string \<Rightarrow> 'd AirTravelDB \<Rightarrow> 'd load_result" where
  "LoadAirlinesCSV fs path db =
     (case fs path of
        None \<Rightarrow> (False, ''Failed to open '' @ path @ [CHR 0x0A], db)
      | Some content \<Rightarrow>
          (case fold load_airline_line (getlines content) (0, db) of (cnt, db') \<Rightarrow>
             (True, ''Loaded '' @ show_nat cnt @ '' airlines'' @ [CHR 0x0A], db')))"

definition LoadAirportsCSV :: "'d fpops \<Rightarrow> (string \<Rightarrow> string option) \<Rightarrow> string \<Rightarrow> 'd AirTravelDB \<Rightarrow> 'd load_result" where
  "LoadAirportsCSV fp fs path db =
     (case fs path of
        None \<Rightarrow> (False, ''Failed to open '' @ path @ [CHR 0x0A], db)
      | Some content \<Rightarrow>
          (case fold (load_airport_line fp) (getlines content) (0, db) of (cnt, db') \<Rightarrow>
             (True, ''Loaded '' @ show_nat cnt @ '' airports'' @ [CHR 0x0A], db')))"

definition LoadRoutesCSV :: "(string \<Rightarrow> string option) \<Rightarrow> string \<Rightarrow> 'd AirTravelDB \<Rightarrow> 'd load_result" where
  "LoadRoutesCSV fs path db =
     (case fs path of
        None \<Rightarrow> (False, ''Failed to open '' @ path @ [CHR 0x0A], db)
      | Some content \<Rightarrow>
          (case fold load_route_line (getlines content) (0, db) of (cnt, db') \<Rightarrow>
             (True, ''Loaded '' @ show_nat cnt @ '' routes'' @ [CHR 0x0A], db')))"

section \<open>Queries\<close>

definition GetAirlineByIATA :: "'d AirTravelDB \<Rightarrow> string \<Rightarrow> Airline option" where
  "GetAirlineByIATA db iata = umap_find (airlines_by_iata db) iata"

definition GetAirlineByID :: "'d AirTravelDB \<Rightarrow> int \<Rightarrow> Airline option" where
  "GetAirlineByID db i = umap_find (airlines_by_id db) i"

definition GetAirlineByICAO :: "'d AirTravelDB \<Rightarrow> string \<Rightarrow> Airline option" where
  "GetAirlineByICAO db icao = umap_find (airlines_by_icao db) icao"

definition GetAirportByIATA :: "'d AirTravelDB \<Rightarrow> string \<Rightarrow> 'd Airport option" where
  "GetAirportByIATA db iata = umap_find (airports_by_iata db) iata"

definition GetAirportByID :: "'d AirTravelDB \<Rightarrow> int \<Rightarrow> 'd Airport option" where
  "GetAirportByID db i = umap_find (airports_by_id db) i"

definition GetAirportByICAO :: "'d AirTravelDB \<Rightarrow> string \<Rightarrow> 'd Airport option" where
  "GetAirportByICAO db icao = umap_find (airports_by_icao db) icao"

definition GetRoutesFromTo :: "'d AirTravelDB \<Rightarrow> string \<Rightarrow> string \<Rightarrow> Route list" where
  "GetRoutesFromTo db src_iata dst_iata =
     filter (\<lambda>r. rt_src_iata r = src_iata \<and> rt_dst_iata r = dst_iata) (routes db)"

definition SearchRoutes :: "'d AirTravelDB \<Rightarrow> string \<Rightarrow> Route list" where
  "SearchRoutes db token =
     (let t = upper_string token
      in filter (\<lambda>r. let a = upper_string (rt_airline_iata r);
                         s = upper_string (rt_src_iata r);
                         d = upper_string (rt_dst_iata r)
                     in str_find t a \<noteq> None \<or> str_find t s \<noteq> None \<or> str_find t d \<noteq> None)
           (routes db))"

definition GetAllRoutes :: "'d AirTravelDB \<Rightarrow> Route list" where
  "GetAllRoutes db = routes db"

definition airline_less :: "Airline \<Rightarrow> Airline \<Rightarrow> bool" where
  "airline_less a b =
     (if al_name a = al_name b then al_iata a < al_iata b else al_name a < al_name b)"

definition airport_less :: "'d Airport \<Rightarrow> 'd Airport \<Rightarrow> bool" where
  "airport_less a b =
     (if ap_name a = ap_name b then ap_iata a < ap_iata b else ap_name a < ap_name b)"

definition GetAllAirlines :: "'d AirTravelDB \<Rightarrow> Airline list" where
  "GetAllAirlines db = std_sort airline_less (umap_values (airlines_by_id db))"

definition GetAllAirports :: "'d AirTravelDB \<Rightarrow> 'd Airport list" where
  "GetAllAirports db = std_sort airport_less (umap_values (airports_by_id db))"

section \<open>Comparators\<close>

interpretation airline_ord: key_order "\<lambda>a. (al_name a, al_iata a)" airline_less
  by unfold_locales (auto simp: airline_less_def)

interpretation airport_ord: key_order "\<lambda>a. (ap_name a, ap_iata a)" airport_less
  by unfold_locales (auto simp: airport_less_def)

section \<open>What the loaders leave in the tables\<close>

text \<open>The records a file's content stands for: its non-empty lines with enough fields.\<close>

definition data_rows :: "nat \<Rightarrow> string \<Rightarrow> string list list" where
  "data_rows n content =
     filter (\<lambda>f. n \<le> length f) (map parseCSVLine (filter (\<lambda>l. l \<noteq> []) (getlines content)))"

definition airline_rows :: "string \<Rightarrow> Airline list" where
  "airline_rows content = map airline_of_fields (data_rows 8 content)"

definition airport_rows :: "'d fpops \<Rightarrow> string \<Rightarrow> 'd Airport list" where
  "airport_rows fp content = map (airport_of_fields fp) (data_rows 14 content)"

definition route_rows :: "string \<Rightarrow> Route list" where
  "route_rows content = map route_of_fields (data_rows 9 content)"

lemma fold_load_lines:
  assumes "\<And>l c db. load l (c, db) =
     (if l = [] \<or> length (parseCSVLine l) < n then (c, db)
      else (c + 1, ins (mk (parseCSVLine l)) db))"
  shows "fold load ls (c, db) =
     (let rows = map mk (filter (\<lambda>f. n \<le> length f) (map parseCSVLine (filter (\<lambda>l. l \<noteq> []) ls)))
      in (c + length rows, fold ins rows db))"
  by (induction ls arbitrary: c db) (auto simp: assms Let_def)

lemma fold_load_airlines:
  "fold load_airline_line (getlines content) (0, db) =
     (length (airline_rows content), fold insert_airline (airline_rows content) db)"
  by (subst fold_load_lines[where n = 8 and ins = insert_airline and mk = airline_of_fields])
     (auto simp: load_airline_line_def airline_rows_def data_rows_def Let_def)

lemma fold_load_airports:
  "fold (load_airport_line fp) (getlines content) (0, db) =
     (length (airport_rows fp content), fold insert_airport (airport_rows fp content) db)"
  by (subst fold_load_lines[where n = 14 and ins = insert_airport and mk = "airport_of_fields fp"])
     (auto simp: load_airport_line_def airport_rows_def data_rows_def Let_def)

lemma fold_load_routes:
  "fold load_route_line (getlines content) (0, db) =
     (length (route_rows content), fold insert_route (route_rows content) db)"
  by (subst fold_load_lines[where n = 9 and ins = insert_route and mk = route_of_fields])
     (auto simp: load_route_line_def route_rows_def data_rows_def Let_def)

lemma fold_insert_route: "fold insert_route rs db = db\<lparr>routes := routes db @ rs\<rparr>"
  by (induction rs arbitrary: db) (auto simp: insert_route_def)

text \<open>Each table by itself is a fold of the map's \<open>put\<close>, the shape of the map contract.\<close>

definition keyed :: "string \<Rightarrow> bool" where
  "keyed k \<longleftrightarrow> k \<noteq> [] \<and> k \<noteq> null_mark"

lemma insert_airline_tables:
  "airlines_by_id (insert_airline a db) = umap_put (al_id a) a (airlines_by_id db)"
  "airlines_by_iata (insert_airline a db) =
     (if keyed (al_iata a) then umap_put (al_iata a) a (airlines_by_iata db) else airlines_by_iata db)"
  "airlines_by_icao (insert_airline a db) =
     (if keyed (al_icao a) then umap_put (al_icao a) a (airlines_by_icao db) else airlines_by_icao db)"
  "airports_by_id (insert_airline a db) = airports_by_id db"
  "airports_by_iata (insert_airline a db) = airports_by_iata db"
  "airports_by_icao (insert_airline a db) = airports_by_icao db"
  "routes (insert_airline a db) = routes db"
  by (auto simp: insert_airline_def keyed_def Let_def)

lemma insert_airport_tables:
  "airports_by_id (insert_airport a db) = umap_put (ap_id a) a (airports_by_id db)"
  "airports_by_iata (insert_airport a db) =
     (if keyed (ap_iata a) then umap_put (ap_iata a) a (airports_by_iata db) else airports_by_iata db)"
  "airports_by_icao (insert_airport a db) =
     (if ap_icao a \<noteq> [] then umap_put (ap_icao a) a (airports_by_icao db) else airports_by_icao db)"
  "airlines_by_id (insert_airport a db) = airlines_by_id db"
  "airlines_by_iata (insert_airport a db) = airlines_by_iata db"
  "airlines_by_icao (insert_airport a db) = airlines_by_icao db"
  "routes (insert_airport a db) = routes db"
  by (auto simp: insert_airport_def keyed_def Let_def)

lemma fold_insert_airline_tables:
  "airlines_by_id (fold insert_airline as db) =
     fold (\<lambda>a m. if True then umap_put (al_id a) a m else m) as (airlines_by_id db)"
  "airlines_by_iata (fold insert_airline as db) =
     fold (\<lambda>a m. if keyed (al_iata a) then umap_put (al_iata a) a m else m) as (airlines_by_iata db)"
  "airlines_by_icao (fold insert_airline as db) =
     fold (\<lambda>a m. if keyed (al_icao a) then umap_put (al_icao a) a m else m) as (airlines_by_icao db)"
  by (induction as arbitrary: db) (simp_all add: insert_airline_tables)

lemma fold_insert_airport_tables:
  "airports_by_id (fold insert_airport as db) =
     fold (\<lambda>a m. if True then umap_put (ap_id a) a m else m) as (airports_by_id db)"
  "airports_by_iata (fold insert_airport as db) =
     fold (\<lambda>a m. if keyed (ap_iata a) then umap_put (ap_iata a) a m else m) as (airports_by_iata db)"
  "airports_by_icao (fold insert_airport as db) =
     fold (\<lambda>a m. if ap_icao a \<noteq> [] then umap_put (ap_icao a) a m else m) as (airports_by_icao db)"
  by (induction as arbitrary: db) (simp_all add: insert_airport_tables)

text \<open>The last record of a list that satisfies a test, as an abstract description of a table.\<close>

definition last_with :: "('a \<Rightarrow> bool) \<Rightarrow> 'a list \<Rightarrow> 'a option" where
  "last_with P xs = (case filter P xs of [] \<Rightarrow> None | ys \<Rightarrow> Some (last ys))"

lemma umap_find_loaded:
  "umap_find (fold (\<lambda>x m. if P x then umap_put (key x) x m else m) xs m) k =
     (case last_with (\<lambda>x. P x \<and> key x = k) xs of None \<Rightarrow> umap_find m k | Some v \<Rightarrow> Some v)"
  by (auto simp: umap_store.find_fold_put last_with_def split: list.splits)

lemma umap_find_loaded_all:
  "umap_find (fold (\<lambda>x. umap_put (key x) x) xs m) k =
     (case last_with (\<lambda>x. key x = k) xs of None \<Rightarrow> umap_find m k | Some v \<Rightarrow> Some v)"
  using umap_find_loaded[where P = "\<lambda>_. True"] by simp

lemma last_with_None_filter: "last_with P xs = None \<longleftrightarrow> filter P xs = []"
  by (simp add: last_with_def split: list.split)

lemma last_with_None: "last_with P xs = None \<longleftrightarrow> (\<forall>x \<in> set xs. \<not> P x)"
  by (simp add: last_with_None_filter filter_empty_conv)

lemma last_with_Some: "last_with P xs = Some x \<Longrightarrow> x \<in> set xs \<and> P x"
  using last_in_set[of "filter P xs"]
  by (auto simp: last_with_def split: list.splits if_splits)

section \<open>The database invariant\<close>

definition table_ok :: "('v \<Rightarrow> 'k) \<Rightarrow> ('k \<Rightarrow> bool) \<Rightarrow> ('k, 'v) umap \<Rightarrow> bool" where
  "table_ok key good m \<longleftrightarrow> umap_ok m \<and> list_all (\<lambda>(k, v). key v = k \<and> good k) m"

definition route_ok :: "Route \<Rightarrow> bool" where
  "route_ok r \<longleftrightarrow> in_int32 (rt_airline_id r) \<and> in_int32 (rt_src_id r) \<and> in_int32 (rt_dst_id r)
     \<and> in_int32 (rt_stops r)"

text \<open>
  Every entry sits under the key its record carries; the code tables hold no blank code and,
  but for the ICAO codes of airports, no missing-value mark; identifiers are 32-bit values.
\<close>

definition db_ok :: "'d AirTravelDB \<Rightarrow> bool" where
  "db_ok db \<longleftrightarrow>
     table_ok al_iata keyed (airlines_by_iata db) \<and> table_ok al_icao keyed (airlines_by_icao db) \<and>
     table_ok al_id in_int32 (airlines_by_id db) \<and>
     table_ok ap_iata keyed (airports_by_iata db) \<and> table_ok ap_icao (\<lambda>k. k \<noteq> []) (airports_by_icao db) \<and>
     table_ok ap_id in_int32 (airports_by_id db) \<and>
     list_all route_ok (routes db)"

lemma table_ok_iff:
  "table_ok key good m \<longleftrightarrow> umap_ok m \<and> (\<forall>k v. umap_find m k = Some v \<longrightarrow> key v = k \<and> good k)"
  by (auto simp: table_ok_def list_all_iff umap_find_mem)

lemma table_ok_find: "table_ok key good m \<Longrightarrow> umap_find m k = Some v \<Longrightarrow> key v = k \<and> good k"
  by (auto simp: table_ok_iff)

lemma table_ok_put: "table_ok key good m \<Longrightarrow> good (key v) \<Longrightarrow> table_ok key good (umap_put (key v) v m)"
  by (auto simp: table_ok_iff umap_ok_put umap_find_put)

lemma table_ok_load:
  assumes "table_ok key good m" and "\<And>x. x \<in> set xs \<Longrightarrow> P x \<Longrightarrow> good (key x)"
  shows "table_ok key good (fold (\<lambda>x m. if P x then umap_put (key x) x m else m) xs m)"
  using assms(2) by (intro fold_invariant_step[where I = "table_ok key good"] assms(1))
    (auto intro: table_ok_put)

lemma airline_rows_id: "a \<in> set (airline_rows c) \<Longrightarrow> in_int32 (al_id a)"
  by (auto simp: airline_rows_def airline_of_fields_def toInt_range)

lemma airport_rows_id: "a \<in> set (airport_rows fp c) \<Longrightarrow> in_int32 (ap_id a)"
  by (auto simp: airport_rows_def airport_of_fields_def toInt_range)

lemma route_rows_ok: "list_all route_ok (route_rows c)"
  by (auto simp: list_all_iff route_rows_def route_of_fields_def route_ok_def toInt_range)

lemma fold_insert_airline_frame:
  "airports_by_id (fold insert_airline as db) = airports_by_id db"
  "airports_by_iata (fold insert_airline as db) = airports_by_iata db"
  "airports_by_icao (fold insert_airline as db) = airports_by_icao db"
  "routes (fold insert_airline as db) = routes db"
  by (induction as arbitrary: db) (simp_all add: insert_airline_tables)

lemma fold_insert_airport_frame:
  "airlines_by_id (fold insert_airport as db) = airlines_by_id db"
  "airlines_by_iata (fold insert_airport as db) = airlines_by_iata db"
  "airlines_by_icao (fold insert_airport as db) = airlines_by_icao db"
  "routes (fold insert_airport as db) = routes db"
  by (induction as arbitrary: db) (simp_all add: insert_airport_tables)

lemma db_ok_empty: "db_ok empty_db"
  by (simp add: db_ok_def empty_db_def table_ok_def)

lemma db_ok_airlines:
  assumes "db_ok db" and "\<And>a. a \<in> set as \<Longrightarrow> in_int32 (al_id a)"
  shows "db_ok (fold insert_airline as db)"
proof -
  have "table_ok al_id in_int32 (airlines_by_id (fold insert_airline as db))"
    unfolding fold_insert_airline_tables
    by (rule table_ok_load) (use assms in \<open>auto simp: db_ok_def\<close>)
  moreover have "table_ok al_iata keyed (airlines_by_iata (fold insert_airline as db))"
    unfolding fold_insert_airline_tables
    by (rule table_ok_load) (use assms in \<open>auto simp: db_ok_def\<close>)
  moreover have "table_ok al_icao keyed (airlines_by_icao (fold insert_airline as db))"
    unfolding fold_insert_airline_tables
    by (rule table_ok_load) (use assms in \<open>auto simp: db_ok_def\<close>)
  ultimately show ?thesis
    using assms(1) by (simp add: db_ok_def fold_insert_airline_frame)
qed

lemma db_ok_airports:
  assumes "db_ok db" and "\<And>a. a \<in> set as \<Longrightarrow> in_int32 (ap_id a)"
  shows "db_ok (fold insert_airport as db)"
proof -
  have "table_ok ap_id in_int32 (airports_by_id (fold insert_airport as db))"
    unfolding fold_insert_airport_tables
    by (rule table_ok_load) (use assms in \<open>auto simp: db_ok_def\<close>)
  moreover have "table_ok ap_iata keyed (airports_by_iata (fold insert_airport as db))"
    unfolding fold_insert_airport_tables
    by (rule table_ok_load) (use assms in \<open>auto simp: db_ok_def\<close>)
  moreover have "table_ok ap_icao (\<lambda>k. k \<noteq> []) (airports_by_icao (fold insert_airport as db))"
    unfolding fold_insert_airport_tables
    by (rule table_ok_load) (use assms in \<open>auto simp: db_ok_def\<close>)
  ultimately show ?thesis
    using assms(1) by (simp add: db_ok_def fold_insert_airport_frame)
qed

section \<open>Writing and loading a data file\<close>

text \<open>The line a record would have in a data file, and the file of a list of records.\<close>

definition airline_fields :: "Airline \<Rightarrow> string list" where
  "airline_fields a = [show_int (al_id a), al_name a, al_alias a, al_iata a, al_icao a,
     al_callsign a, al_country a, al_active a]"

definition route_fields :: "Route \<Rightarrow> string list" where
  "route_fields r = [rt_airline_iata r, show_int (rt_airline_id r), rt_src_iata r,
     show_int (rt_src_id r), rt_dst_iata r, show_int (rt_dst_id r), rt_codeshare r,
     show_int (rt_stops r), rt_equipment r]"

definition data_file :: "string list list \<Rightarrow> string" where
  "data_file rows = concat (map (\<lambda>f. csv_join (map csv_escape f) @ [CHR 0x0A]) rows)"

definition one_line :: "string list \<Rightarrow> bool" where
  "one_line f \<longleftrightarrow> list_all (\<lambda>s. CHR 0x0A \<notin> set s) f"

lemma set_csv_join: "set (csv_join fs) \<subseteq> insert (CHR '','') (\<Union>f \<in> set fs. set f)"
  by (induction fs rule: csv_join.induct) auto

lemma set_csv_escape: "set (csv_escape s) \<subseteq> insert (CHR 0x22) (set s)"
  by (auto simp: csv_escape_eq quote_char_def split: if_splits)

lemma one_line_join: "one_line f \<Longrightarrow> CHR 0x0A \<notin> set (csv_join (map csv_escape f))"
  using set_csv_join[of "map csv_escape f"] set_csv_escape
  by (force simp: one_line_def list_all_iff)

lemma csv_join_not_Nil: "2 \<le> length f \<Longrightarrow> csv_join f \<noteq> []"
  by (induction f rule: csv_join.induct) auto

lemma data_rows_Cons:
  assumes "one_line f" and "n \<le> length f" and "2 \<le> length f"
  shows "data_rows n ((csv_join (map csv_escape f) @ [CHR 0x0A]) @ s) = f # data_rows n s"
proof -
  have "getlines ((csv_join (map csv_escape f) @ [CHR 0x0A]) @ s) = csv_join (map csv_escape f) # getlines s"
    using getlines_line[OF one_line_join[OF assms(1)]] by simp
  moreover have "csv_join (map csv_escape f) \<noteq> []"
    using assms(3) by (intro csv_join_not_Nil) simp
  moreover have "parseCSVLine (csv_join (map csv_escape f)) = f"
    using assms(3) parse_loop_row[of f "[]"] by (cases f) (simp_all add: parseCSVLine_def)
  ultimately show ?thesis using assms(2) by (simp add: data_rows_def)
qed

lemma data_rows_file:
  assumes "\<And>f. f \<in> set rows \<Longrightarrow> one_line f \<and> n \<le> length f \<and> 2 \<le> length f"
  shows "data_rows n (data_file rows) = rows"
  using assms
proof (induction rows)
  case Nil
  then show ?case by (simp add: data_file_def data_rows_def getlines_def)
next
  case (Cons f rows)
  then have "data_rows n (data_file rows) = rows" by simp
  with data_rows_Cons[of f n "data_file rows"] Cons.prems[of f] show ?case
    by (simp add: data_file_def)
qed

lemma airline_of_fields_inv: "in_int32 (al_id a) \<Longrightarrow> airline_of_fields (airline_fields a) = a"
  by (simp add: airline_of_fields_def airline_fields_def toInt_show_int)

lemma route_of_fields_inv: "route_ok r \<Longrightarrow> route_of_fields (route_fields r) = r"
  by (simp add: route_of_fields_def route_fields_def toInt_show_int route_ok_def)

section \<open>Searching\<close>

lemma SearchRoutes_set:
  "r \<in> set (SearchRoutes db token) \<longleftrightarrow> r \<in> set (routes db) \<and>
     (\<exists>code \<in> {rt_airline_iata r, rt_src_iata r, rt_dst_iata r}.
        sublist (upper_string token) (upper_string code))"
  by (auto simp: SearchRoutes_def Let_def cpp_string)

text \<open>A stricter filter on exact codes loses nothing when it runs on the search result.\<close>

lemma SearchRoutes_filter_exact:
  assumes "\<And>r. P r \<Longrightarrow> rt_airline_iata r = token \<or> rt_src_iata r = token \<or> rt_dst_iata r = token"
  shows "filter P (SearchRoutes db token) = filter P (routes db)"
  using assms by (auto simp: SearchRoutes_def Let_def cpp_string intro!: filter_cong)

section \<open>Properties\<close>

text \<open>C3. The database invariant holds after every loader, whatever the file holds: each table entry
  sits under the code or identifier of its record, code tables have no blank key, and all
  identifiers are 32-bit values.
\<close>

theorem loaders_preserve_invariant:
  assumes "db_ok db"
  shows "db_ok (snd (snd (LoadAirlinesCSV fs path db)))
    \<and> db_ok (snd (snd (LoadAirportsCSV fp fs path db)))
    \<and> db_ok (snd (snd (LoadRoutesCSV fs path db)))"
proof (cases "fs path")
  case None
  with assms show ?thesis
    by (simp add: LoadAirlinesCSV_def LoadAirportsCSV_def LoadRoutesCSV_def)
next
  case (Some c)
  have "db_ok (db\<lparr>routes := routes db @ route_rows c\<rparr>)"
    using assms route_rows_ok[of c] by (simp add: db_ok_def)
  with Some assms show ?thesis
    by (simp add: LoadAirlinesCSV_def LoadAirportsCSV_def LoadRoutesCSV_def fold_load_airlines
        fold_load_airports fold_load_routes fold_insert_route db_ok_airlines airline_rows_id
        db_ok_airports airport_rows_id)
qed

theorem loaders_preserve_invariant_witness:
  "db_ok (snd (snd (LoadAirlinesCSV (\<lambda>_. Some ''1,A,,AA,AAA,,US,Y'') ''airlines.dat'' (empty_db :: real AirTravelDB))))"
  using loaders_preserve_invariant[OF db_ok_empty] by blast

text \<open>C29. Loading airlines: the count printed is the number of well-formed rows; afterwards each index
  returns the last row of the file with that key and otherwise what it returned before.  Rows
  with a blank code or the missing-value mark are only in the identifier index.
\<close>

theorem LoadAirlinesCSV_spec:
  assumes "fs path = Some content"
  shows "\<exists>db'. LoadAirlinesCSV fs path db =
       (True, ''Loaded '' @ show_nat (length (airline_rows content)) @ '' airlines'' @ [CHR 0x0A], db')
    \<and> (\<forall>i. GetAirlineByID db' i =
         (case last_with (\<lambda>a. al_id a = i) (airline_rows content) of
            None \<Rightarrow> GetAirlineByID db i | Some a \<Rightarrow> Some a))
    \<and> (\<forall>c. GetAirlineByIATA db' c =
         (case last_with (\<lambda>a. keyed (al_iata a) \<and> al_iata a = c) (airline_rows content) of
            None \<Rightarrow> GetAirlineByIATA db c | Some a \<Rightarrow> Some a))
    \<and> (\<forall>c. GetAirlineByICAO db' c =
         (case last_with (\<lambda>a. keyed (al_icao a) \<and> al_icao a = c) (airline_rows content) of
            None \<Rightarrow> GetAirlineByICAO db c | Some a \<Rightarrow> Some a))"
  using assms
  unfolding GetAirlineByID_def GetAirlineByIATA_def GetAirlineByICAO_def
  by (simp add: LoadAirlinesCSV_def fold_load_airlines fold_insert_airline_tables umap_find_loaded umap_find_loaded_all)

theorem LoadAirlinesCSV_spec_witness:
  "\<exists>db'. LoadAirlinesCSV (\<lambda>_. Some ''1,A,,AA,AAA,,US,Y'') ''airlines.dat'' (empty_db :: real AirTravelDB) =
     (True, ''Loaded '' @ show_nat (length (airline_rows ''1,A,,AA,AAA,,US,Y'')) @ '' airlines'' @ [CHR 0x0A], db')"
  using LoadAirlinesCSV_spec[of "\<lambda>_. Some ''1,A,,AA,AAA,,US,Y''" "''airlines.dat''" _ "empty_db :: real AirTravelDB"]
  by blast

text \<open>Loading airports: as for airlines, except that an ICAO code equal to the missing-value mark
  is indexed.
\<close>

theorem LoadAirportsCSV_spec:
  assumes "fs path = Some content"
  shows "\<exists>db'. LoadAirportsCSV fp fs path db =
       (True, ''Loaded '' @ show_nat (length (airport_rows fp content)) @ '' airports'' @ [CHR 0x0A], db')
    \<and> (\<forall>i. GetAirportByID db' i =
         (case last_with (\<lambda>a. ap_id a = i) (airport_rows fp content) of
            None \<Rightarrow> GetAirportByID db i | Some a \<Rightarrow> Some a))
    \<and> (\<forall>c. GetAirportByIATA db' c =
         (case last_with (\<lambda>a. keyed (ap_iata a) \<and> ap_iata a = c) (airport_rows fp content) of
            None \<Rightarrow> GetAirportByIATA db c | Some a \<Rightarrow> Some a))
    \<and> (\<forall>c. GetAirportByICAO db' c =
         (case last_with (\<lambda>a. ap_icao a \<noteq> [] \<and> ap_icao a = c) (airport_rows fp content) of
            None \<Rightarrow> GetAirportByICAO db c | Some a \<Rightarrow> Some a))"
  using assms
  unfolding GetAirportByID_def GetAirportByIATA_def GetAirportByICAO_def
  by (simp add: LoadAirportsCSV_def fold_load_airports fold_insert_airport_tables umap_find_loaded umap_find_loaded_all)

theorem LoadAirportsCSV_spec_witness:
  "\<exists>db'. LoadAirportsCSV (real_fp (\<lambda>_. None) (\<lambda>_. [])) (\<lambda>_. Some ''x'') ''airports.dat'' empty_db =
     (True, ''Loaded '' @ show_nat (length (airport_rows (real_fp (\<lambda>_. None) (\<lambda>_. [])) ''x'')) @ '' airports'' @ [CHR 0x0A], db')"
  using LoadAirportsCSV_spec[of "\<lambda>_. Some ''x''" "''airports.dat''" _ "real_fp (\<lambda>_. None) (\<lambda>_. [])" empty_db]
  by blast

lemma airline_rows_file:
  assumes "\<forall>a \<in> set as. in_int32 (al_id a) \<and> one_line (airline_fields a)"
  shows "airline_rows (data_file (map airline_fields as)) = as"
proof -
  have "data_rows 8 (data_file (map airline_fields as)) = map airline_fields as"
    by (rule data_rows_file) (use assms in \<open>auto simp: airline_fields_def\<close>)
  moreover have "map airline_of_fields (map airline_fields as) = as"
    using assms by (auto intro: map_idI simp: airline_of_fields_inv)
  ultimately show ?thesis by (simp only: airline_rows_def)
qed

lemma route_rows_file:
  assumes "\<forall>r \<in> set rs. route_ok r \<and> one_line (route_fields r)"
  shows "route_rows (data_file (map route_fields rs)) = rs"
proof -
  have "data_rows 9 (data_file (map route_fields rs)) = map route_fields rs"
    by (rule data_rows_file) (use assms in \<open>auto simp: route_fields_def\<close>)
  moreover have "map route_of_fields (map route_fields rs) = rs"
    using assms by (auto intro: map_idI simp: route_of_fields_inv)
  ultimately show ?thesis by (simp only: route_rows_def)
qed

lemma umap_put_new: "k \<notin> fst ` set m \<Longrightarrow> umap_put k v m = m @ [(k, v)]"
  unfolding umap_put_def by (induction m) auto

lemma fold_put_distinct:
  "distinct (map key xs) \<Longrightarrow> key ` set xs \<inter> fst ` set m = {}
    \<Longrightarrow> fold (\<lambda>x. umap_put (key x) x) xs m = m @ map (\<lambda>x. (key x, x)) xs"
  by (induction xs arbitrary: m) (auto simp: umap_put_new)

text \<open>C30. Loading data files written from records, with every field escaped: the airlines' loader succeeds, counts
  the records and leaves each found by its identifier and by each of its codes that is not blank
  or marked missing, the last record with a key winning; the routes' loader succeeds, counts the
  records and appends exactly them, in order, and leaves the airlines.  From an empty table, airlines
  with distinct identifiers are exactly the ones listed afterwards.  Fields may hold commas and quotes,
  but no line break, which the line-based loaders cannot read.\<close>

theorem data_file_roundtrip:
  assumes "\<forall>a \<in> set as. in_int32 (al_id a) \<and> one_line (airline_fields a)"
    and "\<forall>r \<in> set rs. route_ok r \<and> one_line (route_fields r)"
    and "fs airlines_path = Some (data_file (map airline_fields as))"
    and "fs routes_path = Some (data_file (map route_fields rs))"
  shows "\<exists>db1 db2.
      LoadAirlinesCSV fs airlines_path db = (True, ''Loaded '' @ show_nat (length as) @ '' airlines'' @ [CHR 0x0A], db1)
    \<and> LoadRoutesCSV fs routes_path db1 = (True, ''Loaded '' @ show_nat (length rs) @ '' routes'' @ [CHR 0x0A], db2)
    \<and> GetAllRoutes db2 = GetAllRoutes db @ rs
    \<and> (\<forall>i. GetAirlineByID db2 i =
         (case last_with (\<lambda>a. al_id a = i) as of None \<Rightarrow> GetAirlineByID db i | Some a \<Rightarrow> Some a))
    \<and> (\<forall>c. GetAirlineByIATA db2 c =
         (case last_with (\<lambda>a. al_iata a = c \<and> c \<noteq> [] \<and> c \<noteq> null_mark) as of None \<Rightarrow> GetAirlineByIATA db c | Some a \<Rightarrow> Some a))
    \<and> (\<forall>c. GetAirlineByICAO db2 c =
         (case last_with (\<lambda>a. al_icao a = c \<and> c \<noteq> [] \<and> c \<noteq> null_mark) as of None \<Rightarrow> GetAirlineByICAO db c | Some a \<Rightarrow> Some a))
    \<and> (airlines_by_id db = [] \<and> distinct (map al_id as) \<longrightarrow> mset (GetAllAirlines db2) = mset as)"
proof -
  let ?db1 = "fold insert_airline as db"
  have code: "keyed (f a) \<and> f a = c \<longleftrightarrow> f a = c \<and> c \<noteq> [] \<and> c \<noteq> null_mark" for f a c by (auto simp: keyed_def)
  have "umap_values (airlines_by_id ?db1) = as" if "airlines_by_id db = []" "distinct (map al_id as)"
    using that fold_put_distinct[of al_id as "[]"] by (simp add: fold_insert_airline_tables umap_values_def comp_def)
  then have all: "mset (GetAllAirlines ?db1) = mset as" if "airlines_by_id db = []" "distinct (map al_id as)"
    using that by (simp add: GetAllAirlines_def airline_ord.sorted_keys)
  have loads: "LoadAirlinesCSV fs airlines_path db = (True, ''Loaded '' @ show_nat (length as) @ '' airlines'' @ [CHR 0x0A], ?db1)"
    "LoadRoutesCSV fs routes_path ?db1 =
       (True, ''Loaded '' @ show_nat (length rs) @ '' routes'' @ [CHR 0x0A], ?db1\<lparr>routes := routes ?db1 @ rs\<rparr>)"
    using assms by (simp_all add: LoadAirlinesCSV_def LoadRoutesCSV_def fold_load_airlines fold_load_routes
      airline_rows_file route_rows_file fold_insert_route)
  have same: "GetAllRoutes (?db1\<lparr>routes := routes ?db1 @ rs\<rparr>) = GetAllRoutes db @ rs"
    "GetAllAirlines (?db1\<lparr>routes := routes ?db1 @ rs\<rparr>) = GetAllAirlines ?db1"
    by (simp_all add: GetAllRoutes_def GetAllAirlines_def fold_insert_airline_frame)
  show ?thesis
    unfolding GetAirlineByID_def GetAirlineByIATA_def GetAirlineByICAO_def
    by (rule exI[of _ ?db1], rule exI[of _ "?db1\<lparr>routes := routes ?db1 @ rs\<rparr>"])
      (simp add: loads same all fold_insert_airline_tables umap_find_loaded umap_find_loaded_all code)
qed

definition sample_airline :: Airline where
  "sample_airline = \<lparr> al_id = 24, al_name = ''American, Inc.'', al_alias = [CHR 0x22], al_iata = ''AA'',
     al_icao = ''AAL'', al_callsign = ''AMERICAN'', al_country = ''United States'', al_active = ''Y'' \<rparr>"

definition sample_route :: Route where
  "sample_route = \<lparr> rt_airline_iata = ''AA'', rt_airline_id = 24, rt_src_iata = ''SFO'', rt_src_id = 3469,
     rt_dst_iata = ''JFK'', rt_dst_id = 3797, rt_codeshare = [], rt_stops = 0, rt_equipment = ''738'' \<rparr>"

lemma sample_airline_one_line: "in_int32 (al_id sample_airline) \<and> one_line (airline_fields sample_airline)"
  by (simp add: sample_airline_def airline_fields_def one_line_def in_int32_def int_min_def int_max_def)

lemma sample_route_ok: "route_ok sample_route \<and> one_line (route_fields sample_route)"
  by (simp add: sample_route_def route_fields_def one_line_def route_ok_def in_int32_def
      int_min_def int_max_def)

theorem data_file_roundtrip_witness:
  "\<exists>db1 db2. LoadAirlinesCSV (\<lambda>p. Some (data_file [if p = ''airlines.dat'' then airline_fields sample_airline else route_fields sample_route]))
      ''airlines.dat'' (empty_db :: real AirTravelDB) = (True, ''Loaded 1 airlines'' @ [CHR 0x0A], db1)
    \<and> LoadRoutesCSV (\<lambda>p. Some (data_file [if p = ''airlines.dat'' then airline_fields sample_airline else route_fields sample_route]))
      ''routes.dat'' db1 = (True, ''Loaded 1 routes'' @ [CHR 0x0A], db2)
    \<and> GetAllRoutes db2 = [sample_route] \<and> GetAirlineByIATA db2 ''AA'' = Some sample_airline
    \<and> mset (GetAllAirlines db2) = {#sample_airline#}"
proof -
  let ?fs = "\<lambda>p. Some (data_file [if p = ''airlines.dat'' then airline_fields sample_airline else route_fields sample_route])"
  have "show_nat 1 = ''1''" by code_simp
  then show ?thesis
    using data_file_roundtrip[of "[sample_airline]" "[sample_route]" ?fs "''airlines.dat''" "''routes.dat''" "empty_db :: real AirTravelDB"]
    by (simp add: sample_airline_one_line sample_route_ok empty_db_def GetAllRoutes_def last_with_def)
      (auto simp: sample_airline_def)
qed

text \<open>\<open>GetAllAirlines\<close> returns exactly the airlines of the identifier index, ordered by name and then
  by IATA code.
\<close>

theorem GetAllAirlines_sorted:
  "sorted (map (\<lambda>a. (al_name a, al_iata a)) (GetAllAirlines db))
   \<and> mset (GetAllAirlines db) = mset (umap_values (airlines_by_id db))"
  using airline_ord.sort_sorted by (simp add: GetAllAirlines_def airline_ord.sorted_keys)

text \<open>\<open>SearchRoutes\<close> returns exactly the routes with the token inside the airline, source or
  destination code, letter case ignored, in load order.
\<close>

theorem SearchRoutes_exact:
  "SearchRoutes db token = filter (\<lambda>r. \<exists>code \<in> {rt_airline_iata r, rt_src_iata r, rt_dst_iata r}.
      sublist (upper_string token) (upper_string code)) (GetAllRoutes db)"
  unfolding SearchRoutes_def GetAllRoutes_def Let_def
  by (rule filter_cong) (auto simp: cpp_string)

end
