(* ===== verification/Geo.thy ===== *)
theory Geo
  imports AirDb
begin

text \<open>
  Distances (airdp.cpp, \<open>CalculateDistanceKm\<close> and \<open>GetAirportsWithinRadiusKm\<close>).  The definitions
  take the floating-point operations as an argument and follow the code operation by
  operation.  On the exact instance the haversine formula is shown to be the great-circle
  distance, a metric bounded by half the circumference, so that the rounded value always fits
  the \<open>int\<close> it is cast to.
\<close>

section \<open>Definitions\<close>

definition deg2rad :: "'d fpops \<Rightarrow> 'd \<Rightarrow> 'd" where
  "deg2rad fp v = fp_div fp (fp_mul fp v (fp_pi fp)) (fp_lit fp 180 0)"

definition CalculateDistanceKm :: "'d fpops \<Rightarrow> 'd \<Rightarrow> 'd \<Rightarrow> 'd \<Rightarrow> 'd \<Rightarrow> 'd" where
  "CalculateDistanceKm fp lat1 lon1 lat2 lon2 =
     (let R = fp_lit fp 6371 0;
          dLat = deg2rad fp (fp_sub fp lat2 lat1);
          dLon = deg2rad fp (fp_sub fp lon2 lon1);
          lat1 = deg2rad fp lat1;
          lat2 = deg2rad fp lat2;
          two = fp_lit fp 2 0;
          sLat = fp_sin fp (fp_div fp dLat two);
          sLon = fp_sin fp (fp_div fp dLon two);
          a = fp_add fp (fp_mul fp sLat sLat)
                (fp_mul fp (fp_mul fp (fp_mul fp (fp_cos fp lat1) (fp_cos fp lat2)) sLon) sLon);
          c = fp_mul fp two (fp_atan2 fp (fp_sqrt fp a) (fp_sqrt fp (fp_sub fp (fp_lit fp 1 0) a)))
      in fp_mul fp R c)"

definition round_km :: "'d fpops \<Rightarrow> 'd \<Rightarrow> int" where
  "round_km fp x = to_int32 (fp_lround fp x)"

definition GetAirportsWithinRadiusKm :: "'d fpops \<Rightarrow> 'd AirTravelDB \<Rightarrow> 'd \<Rightarrow> 'd \<Rightarrow> 'd \<Rightarrow> ('d Airport \<times> int) list" where
  "GetAirportsWithinRadiusKm fp db lat lon radius_km =
     List.map_filter (\<lambda>(_, ap).
        let dist = CalculateDistanceKm fp lat lon (ap_latitude ap) (ap_longitude ap)
        in if fp_le fp dist radius_km then Some (ap, round_km fp dist) else None)
       (airports_by_id db)"

section \<open>The haversine formula on real numbers\<close>

definition rad :: "real \<Rightarrow> real" where
  "rad x = x * pi / 180"

text \<open>The cosine of the central angle between two points, as a product of unit vectors.\<close>

definition cos_angle :: "real \<Rightarrow> real \<Rightarrow> real \<Rightarrow> real \<Rightarrow> real" where
  "cos_angle p1 l1 p2 l2 = sin p1 * sin p2 + cos p1 * cos p2 * cos (l2 - l1)"

definition great_circle_km :: "real \<Rightarrow> real \<Rightarrow> real \<Rightarrow> real \<Rightarrow> real" where
  "great_circle_km lat1 lon1 lat2 lon2 =
     6371 * arccos (cos_angle (rad lat1) (rad lon1) (rad lat2) (rad lon2))"

lemma sin_half_sq: "sin (x / 2) * sin (x / 2) = (1 - cos x) / (2 :: real)"
  using cos_double_sin[of "x / 2"] by (simp add: power2_eq_square)

lemma haversine_arg:
  "sin ((p2 - p1) / 2) * sin ((p2 - p1) / 2) +
     cos p1 * cos p2 * sin ((l2 - l1) / 2) * sin ((l2 - l1) / 2) = (1 - cos_angle p1 l1 p2 l2) / 2"
proof -
  have lon: "cos p1 * cos p2 * sin ((l2 - l1) / 2) * sin ((l2 - l1) / 2) =
        cos p1 * cos p2 * ((1 - cos (l2 - l1)) / 2)"
    unfolding sin_half_sq[symmetric] by (simp add: mult.assoc)
  have "cos (p2 - p1) = cos p1 * cos p2 + sin p1 * sin p2"
    by (simp add: cos_diff)
  then show ?thesis
    unfolding lon sin_half_sq cos_angle_def by (simp add: field_simps)
qed

text \<open>The coordinates of the point at latitude \<open>p\<close> and longitude \<open>l\<close> on the unit sphere.\<close>

abbreviation "px p l \<equiv> cos p * cos (l :: real)"
abbreviation "py p l \<equiv> cos p * sin (l :: real)"

lemma cos_angle_dot: "cos_angle p1 l1 p2 l2 = px p1 l1 * px p2 l2 + py p1 l1 * py p2 l2 + sin p1 * sin p2"
  by (simp add: cos_angle_def cos_diff algebra_simps)

lemma unit_vector: "(px p l)\<^sup>2 + (py p l)\<^sup>2 + (sin p)\<^sup>2 = 1"
proof -
  have "(px p l)\<^sup>2 + (py p l)\<^sup>2 = (cos p)\<^sup>2 * ((cos l)\<^sup>2 + (sin l)\<^sup>2)"
    by (simp only: power_mult_distrib distrib_left)
  then show ?thesis by simp
qed

lemma cauchy3: "(a * d + b * e + c * (f :: real))\<^sup>2 \<le> (a\<^sup>2 + b\<^sup>2 + c\<^sup>2) * (d\<^sup>2 + e\<^sup>2 + f\<^sup>2)"
proof -
  have "(a\<^sup>2 + b\<^sup>2 + c\<^sup>2) * (d\<^sup>2 + e\<^sup>2 + f\<^sup>2) - (a * d + b * e + c * f)\<^sup>2 =
        (a * e - b * d)\<^sup>2 + (a * f - c * d)\<^sup>2 + (b * f - c * e)\<^sup>2"
    by (simp add: power2_eq_square algebra_simps)
  then show ?thesis by (smt (verit) zero_le_power2)
qed

lemma cos_angle_abs: "\<bar>cos_angle p1 l1 p2 l2\<bar> \<le> 1"
proof -
  have "(cos_angle p1 l1 p2 l2)\<^sup>2 \<le> 1"
    using cauchy3[of "px p1 l1" "px p2 l2" "py p1 l1" "py p2 l2" "sin p1" "sin p2"]
    by (simp only: cos_angle_dot unit_vector mult_1)
  then show ?thesis by (simp add: abs_square_le_1)
qed

lemma cos_angle_bounds: "- 1 \<le> cos_angle p1 l1 p2 l2" "cos_angle p1 l1 p2 l2 \<le> 1"
  using cos_angle_abs[of p1 l1 p2 l2] by (simp_all add: abs_le_iff)

lemma atan2_half_angle:
  assumes "- 1 \<le> x" "x \<le> (1 :: real)"
  shows "2 * real_atan2 (sqrt ((1 - x) / 2)) (sqrt (1 - (1 - x) / 2)) = arccos x"
proof (cases "x = - 1")
  case True
  then show ?thesis by (simp add: real_atan2_def)
next
  case False
  define t where "t = sqrt ((1 - x) / 2) / sqrt ((1 + x) / 2)"
  have pos: "0 < (1 + x) / 2" using False assms by simp
  have t0: "0 \<le> t" using assms by (simp add: t_def)
  have "t\<^sup>2 = ((1 - x) / 2) / ((1 + x) / 2)"
    using pos assms by (simp add: t_def power_divide)
  also have "\<dots> = (1 - x) / (1 + x)"
  proof -
    have "m / 2 / (d / 2) = m / d" for m d :: real by simp
    then show ?thesis by blast
  qed
  finally have t2: "t\<^sup>2 = (1 - x) / (1 + x)" .
  have e: "1 - (1 - x) / 2 = (1 + x) / 2" by (simp add: field_simps)
  have at: "real_atan2 (sqrt ((1 - x) / 2)) (sqrt (1 - (1 - x) / 2)) = arctan t"
    using pos by (simp add: e real_atan2_def t_def)
  have "1 + t\<^sup>2 = 2 / (1 + x)"
    using pos by (simp add: t2 field_simps)
  moreover have "cos (2 * arctan t) = 2 / (1 + t\<^sup>2) - 1"
    by (simp add: cos_double_cos cos_arctan power_divide)
  ultimately have "cos (2 * arctan t) = x" by (simp add: field_simps)
  moreover have "0 \<le> 2 * arctan t" "2 * arctan t \<le> pi"
    using t0 arctan_ubound[of t] by auto
  ultimately have "arccos x = 2 * arctan t"
    using arccos_cos by metis
  then show ?thesis by (simp add: at)
qed

lemma CalculateDistanceKm_real:
  "CalculateDistanceKm (real_fp rd sh) lat1 lon1 lat2 lon2 = great_circle_km lat1 lon1 lat2 lon2"
proof -
  let ?c = "cos_angle (rad lat1) (rad lon1) (rad lat2) (rad lon2)"
  have r: "deg2rad (real_fp rd sh) v = rad v" for v
    by (simp add: deg2rad_def real_fp_def rad_def)
  have d: "rad (x - y) = rad x - rad y" for x y
    by (simp add: rad_def algebra_simps diff_divide_distrib)
  have "CalculateDistanceKm (real_fp rd sh) lat1 lon1 lat2 lon2 =
      6371 * (2 * real_atan2 (sqrt ((1 - ?c) / 2)) (sqrt (1 - (1 - ?c) / 2)))"
    unfolding CalculateDistanceKm_def Let_def r haversine_arg[symmetric] d[symmetric]
    by (simp add: real_fp_def)
  also have "\<dots> = great_circle_km lat1 lon1 lat2 lon2"
    using atan2_half_angle[OF cos_angle_bounds] by (simp add: great_circle_km_def)
  finally show ?thesis .
qed

section \<open>The distance is a metric on the sphere\<close>

lemma cos_angle_sym: "cos_angle p1 l1 p2 l2 = cos_angle p2 l2 p1 l1"
  using cos_minus[of "l2 - l1"] by (simp add: cos_angle_def mult.commute)

lemma cos_angle_same: "cos_angle p l p l = 1"
  using sin_cos_squared_add[of p] by (simp add: cos_angle_def power2_eq_square)

lemma central_angle_triangle:
  "arccos (cos_angle p1 l1 p3 l3) \<le> arccos (cos_angle p1 l1 p2 l2) + arccos (cos_angle p2 l2 p3 l3)"
proof -
  define u where "u = cos_angle p1 l1 p2 l2"
  define v where "v = cos_angle p2 l2 p3 l3"
  define w where "w = cos_angle p1 l1 p3 l3"
  have b: "- 1 \<le> u" "u \<le> 1" "- 1 \<le> v" "v \<le> 1" "- 1 \<le> w" "w \<le> 1"
    by (simp_all add: u_def v_def w_def cos_angle_bounds)
  have gap: "(w - u * v)\<^sup>2 \<le> (1 - u\<^sup>2) * (1 - v\<^sup>2)"
  proof -
    let ?a = "px p1 l1 - u * px p2 l2" and ?b = "py p1 l1 - u * py p2 l2" and ?c = "sin p1 - u * sin p2"
    let ?d = "px p3 l3 - v * px p2 l2" and ?e = "py p3 l3 - v * py p2 l2" and ?f = "sin p3 - v * sin p2"
    have u: "u = px p1 l1 * px p2 l2 + py p1 l1 * py p2 l2 + sin p1 * sin p2"
      and v: "v = px p3 l3 * px p2 l2 + py p3 l3 * py p2 l2 + sin p3 * sin p2"
      and w: "w = px p1 l1 * px p3 l3 + py p1 l1 * py p3 l3 + sin p1 * sin p3"
      by (simp_all only: u_def v_def w_def cos_angle_dot mult.commute)
    have "?a\<^sup>2 + ?b\<^sup>2 + ?c\<^sup>2 = ((px p1 l1)\<^sup>2 + (py p1 l1)\<^sup>2 + (sin p1)\<^sup>2)
        - 2 * u * (px p1 l1 * px p2 l2 + py p1 l1 * py p2 l2 + sin p1 * sin p2)
        + u\<^sup>2 * ((px p2 l2)\<^sup>2 + (py p2 l2)\<^sup>2 + (sin p2)\<^sup>2)"
      by (simp add: power2_eq_square algebra_simps)
    then have n1: "?a\<^sup>2 + ?b\<^sup>2 + ?c\<^sup>2 = 1 - u\<^sup>2"
      by (simp only: unit_vector u[symmetric]) (simp add: power2_eq_square)
    have "?d\<^sup>2 + ?e\<^sup>2 + ?f\<^sup>2 = ((px p3 l3)\<^sup>2 + (py p3 l3)\<^sup>2 + (sin p3)\<^sup>2)
        - 2 * v * (px p3 l3 * px p2 l2 + py p3 l3 * py p2 l2 + sin p3 * sin p2)
        + v\<^sup>2 * ((px p2 l2)\<^sup>2 + (py p2 l2)\<^sup>2 + (sin p2)\<^sup>2)"
      by (simp add: power2_eq_square algebra_simps)
    then have n2: "?d\<^sup>2 + ?e\<^sup>2 + ?f\<^sup>2 = 1 - v\<^sup>2"
      by (simp only: unit_vector v[symmetric]) (simp add: power2_eq_square)
    have "?a * ?d + ?b * ?e + ?c * ?f =
        (px p1 l1 * px p3 l3 + py p1 l1 * py p3 l3 + sin p1 * sin p3)
        - v * (px p1 l1 * px p2 l2 + py p1 l1 * py p2 l2 + sin p1 * sin p2)
        - u * (px p3 l3 * px p2 l2 + py p3 l3 * py p2 l2 + sin p3 * sin p2)
        + u * v * ((px p2 l2)\<^sup>2 + (py p2 l2)\<^sup>2 + (sin p2)\<^sup>2)"
      by (simp add: power2_eq_square algebra_simps)
    then have "?a * ?d + ?b * ?e + ?c * ?f = w - u * v"
      by (simp only: unit_vector u[symmetric] v[symmetric] w[symmetric]) (simp add: algebra_simps)
    then show ?thesis
      using cauchy3[of ?a ?d ?b ?e ?c ?f] by (simp only: n1 n2)
  qed
  have "\<bar>w - u * v\<bar> \<le> sqrt ((1 - u\<^sup>2) * (1 - v\<^sup>2))"
    using gap by (simp add: real_le_rsqrt)
  then have low: "u * v - sqrt (1 - u\<^sup>2) * sqrt (1 - v\<^sup>2) \<le> w"
    by (simp add: real_sqrt_mult abs_le_iff)
  show ?thesis
  proof (cases "arccos u + arccos v \<le> pi")
    case True
    have "cos (arccos u + arccos v) = u * v - sqrt (1 - u\<^sup>2) * sqrt (1 - v\<^sup>2)"
      using b by (simp add: cos_add sin_arccos)
    with low have "cos (arccos u + arccos v) \<le> w" by simp
    then have "arccos w \<le> arccos (cos (arccos u + arccos v))"
      using b by (intro arccos_le_arccos) auto
    also have "\<dots> = arccos u + arccos v"
      using b True by (intro arccos_cos) (auto intro: add_nonneg_nonneg arccos_lbound)
    finally show ?thesis by (simp add: u_def v_def w_def)
  next
    case False
    with arccos_ubound[of w] b show ?thesis by (simp add: u_def v_def w_def)
  qed
qed

lemma great_circle_bounds:
  "0 \<le> great_circle_km lat1 lon1 lat2 lon2" "great_circle_km lat1 lon1 lat2 lon2 \<le> 6371 * pi"
  using arccos_lbound[OF cos_angle_bounds, of "rad lat1" "rad lon1" "rad lat2" "rad lon2"]
    arccos_ubound[OF cos_angle_bounds, of "rad lat1" "rad lon1" "rad lat2" "rad lon2"]
  by (simp_all add: great_circle_km_def)

lemma great_circle_below: "great_circle_km lat1 lon1 lat2 lon2 < 25484"
  using great_circle_bounds(2)[of lat1 lon1 lat2 lon2] pi_less_4 by linarith

text \<open>Rounding to \<open>int\<close> is exact for every value below the range of \<open>int\<close>.\<close>

lemma round_km_real:
  assumes "0 \<le> x" "x \<le> 2147483646"
  shows "round_km (real_fp rd sh) x = real_lround x"
proof -
  have "real_lround 0 \<le> real_lround x" "real_lround x \<le> real_lround 2147483646"
    using assms by (auto intro: real_lround_mono)
  then have "in_int32 (real_lround x)"
    by (simp add: real_lround_def in_int32_def int_min_def int_max_def)
  then show ?thesis by (simp add: round_km_def real_fp_def to_int32_id)
qed

lemma in_radius_iff:
  "(ap, n) \<in> set (GetAirportsWithinRadiusKm fp db lat lon r) \<longleftrightarrow>
     ap \<in> set (umap_values (airports_by_id db)) \<and>
     fp_le fp (CalculateDistanceKm fp lat lon (ap_latitude ap) (ap_longitude ap)) r \<and>
     n = round_km fp (CalculateDistanceKm fp lat lon (ap_latitude ap) (ap_longitude ap))"
  by (force simp: GetAirportsWithinRadiusKm_def map_filter_def umap_values_def Let_def split: if_splits)

section \<open>Properties\<close>

text \<open>C22. In exact arithmetic \<open>CalculateDistanceKm\<close> is the great-circle distance on a sphere of radius
  6371 km: the haversine formula with \<open>atan2\<close> computes the arc cosine of the product of the two
  unit vectors, for every pair of points, antipodal ones included.
\<close>

theorem haversine_is_great_circle:
  "CalculateDistanceKm (real_fp rd sh) lat1 lon1 lat2 lon2 =
     6371 * arccos (sin (rad lat1) * sin (rad lat2) +
       cos (rad lat1) * cos (rad lat2) * cos (rad lon2 - rad lon1))"
  by (simp add: CalculateDistanceKm_real great_circle_km_def cos_angle_def)

text \<open>C36. In exact arithmetic the distance is non-negative, at most half the circumference, zero from a
  point to itself, symmetric, and satisfies the triangle inequality: a connection through a
  third airport is never shorter than the direct distance.
\<close>

theorem distance_metric:
  "let d = CalculateDistanceKm (real_fp rd sh)
   in 0 \<le> d lat1 lon1 lat2 lon2 \<and> d lat1 lon1 lat2 lon2 \<le> 6371 * pi
    \<and> d lat1 lon1 lat1 lon1 = 0
    \<and> d lat1 lon1 lat2 lon2 = d lat2 lon2 lat1 lon1
    \<and> d lat1 lon1 lat3 lon3 \<le> d lat1 lon1 lat2 lon2 + d lat2 lon2 lat3 lon3"
proof -
  have "great_circle_km lat1 lon1 lat3 lon3 \<le> great_circle_km lat1 lon1 lat2 lon2 + great_circle_km lat2 lon2 lat3 lon3"
    using central_angle_triangle[of "rad lat1" "rad lon1" "rad lat3" "rad lon3" "rad lat2" "rad lon2"]
    by (simp add: great_circle_km_def)
  then show ?thesis
    using great_circle_bounds[of lat1 lon1 lat2 lon2]
    by (simp add: Let_def CalculateDistanceKm_real)
       (simp add: great_circle_km_def cos_angle_same cos_angle_sym)
qed

text \<open>C35. The radius query returns exactly the airports of the identifier index whose computed distance
  compares below the radius, with any floating-point arithmetic; in exact arithmetic the integer it
  reports with an airport is within half a kilometre of the distance and the cast to \<open>int\<close>
  never overflows.
\<close>

theorem radius_query_exact:
  "((ap, n) \<in> set (GetAirportsWithinRadiusKm fp db lat lon r) \<longleftrightarrow>
     ap \<in> set (umap_values (airports_by_id db)) \<and>
     fp_le fp (CalculateDistanceKm fp lat lon (ap_latitude ap) (ap_longitude ap)) r \<and>
     n = round_km fp (CalculateDistanceKm fp lat lon (ap_latitude ap) (ap_longitude ap)))
   \<and> \<bar>of_int (round_km (real_fp rd sh) (CalculateDistanceKm (real_fp rd sh) lat1 lon1 lat2 lon2))
       - CalculateDistanceKm (real_fp rd sh) lat1 lon1 lat2 lon2\<bar> \<le> 1 / 2"
proof -
  have "round_km (real_fp rd sh) (great_circle_km lat1 lon1 lat2 lon2) =
      real_lround (great_circle_km lat1 lon1 lat2 lon2)"
    using great_circle_bounds(1) great_circle_below[of lat1 lon1 lat2 lon2]
    by (intro round_km_real) auto
  then show ?thesis
    using real_lround_near by (simp add: in_radius_iff CalculateDistanceKm_real)
qed

end
