(* ===== verification/Crc.thy ===== *)
theory Crc
  imports CppStd
begin

unbundle bit_operations_syntax

text \<open>
  The checksum of server.cpp: \<open>make_crc32_table\<close> and the table-driven \<open>crc32\<close>, on 32-bit words.
  The main result is that the table-driven loop computes the bit-by-bit cyclic redundancy
  check with the reflected polynomial EDB88320.
\<close>

section \<open>Definitions\<close>

text \<open>One turn of the inner loop of \<open>make_crc32_table\<close>.\<close>

definition crc_step :: "32 word \<Rightarrow> 32 word" where
  "crc_step c = (if c AND 1 \<noteq> 0 then 0xEDB88320 XOR drop_bit 1 c else drop_bit 1 c)"

definition make_crc32_table :: "32 word list" where
  "make_crc32_table = map (\<lambda>i. (crc_step ^^ 8) (word_of_nat i)) [0..<256]"

definition char_word :: "char \<Rightarrow> 'a::len word" where
  "char_word c = word_of_nat (char_code c)"

definition crc32_byte :: "char \<Rightarrow> 32 word \<Rightarrow> 32 word" where
  "crc32_byte ch crc =
     make_crc32_table ! unat ((crc XOR char_word ch) AND 0xFF) XOR drop_bit 8 crc"

definition crc32 :: "string \<Rightarrow> 32 word" where
  "crc32 data = fold crc32_byte data 0xFFFFFFFF XOR 0xFFFFFFFF"

section \<open>The reference: one bit at a time\<close>

definition crc_ref_byte :: "char \<Rightarrow> 32 word \<Rightarrow> 32 word" where
  "crc_ref_byte ch crc = (crc_step ^^ 8) (crc XOR char_word ch)"

definition crc_ref :: "string \<Rightarrow> 32 word" where
  "crc_ref data = fold crc_ref_byte data 0xFFFFFFFF XOR 0xFFFFFFFF"

section \<open>Linearity\<close>

lemma and_one_zero: "(c :: 32 word) AND 1 \<noteq> 0 \<longleftrightarrow> bit c 0"
  by (simp add: and_one_eq odd_iff_mod_2_eq_one[symmetric] bit_0)

lemma crc_step_xor: "crc_step (a XOR b) = crc_step a XOR crc_step b"
proof -
  have "drop_bit 1 (a XOR b) = drop_bit 1 a XOR drop_bit 1 b" by simp
  then show ?thesis
    unfolding crc_step_def and_one_zero bit_xor_iff
    by (cases "bit a 0"; cases "bit b 0") (simp_all add: ac_simps)
qed

lemma crc_steps_xor: "(crc_step ^^ n) (a XOR b) = (crc_step ^^ n) a XOR (crc_step ^^ n) b"
  by (induction n) (simp_all add: crc_step_xor)

lemma crc_steps_shift:
  "(\<And>i. i < n \<Longrightarrow> \<not> bit x i) \<Longrightarrow> (crc_step ^^ n) x = drop_bit n x"
proof (induction n)
  case 0
  then show ?case by simp
next
  case (Suc n)
  then have "(crc_step ^^ n) x = drop_bit n x" by simp
  moreover have "\<not> bit (drop_bit n x) 0" using Suc.prems[of n] by (simp add: bit_drop_bit_eq)
  ultimately show ?case
    unfolding funpow.simps comp_def crc_step_def and_one_zero by (simp add: add.commute)
qed

lemma FF_mask: "(0xFF :: 32 word) = mask 8"
  by (simp add: mask_eq_exp_minus_1)

lemma split_low_byte: "x = (x AND 0xFF) XOR (x AND NOT 0xFF)" for x :: "32 word"
  unfolding FF_mask by (rule bit_eqI) (auto simp: bit_simps)

lemma drop_high: "drop_bit 8 (x AND NOT 0xFF) = drop_bit 8 x" for x :: "32 word"
  unfolding FF_mask by (rule bit_eqI) (auto simp: bit_simps dest: bit_imp_le_length)

lemma low_bits_clear: "i < 8 \<Longrightarrow> \<not> bit (x AND NOT 0xFF) i" for x :: "32 word"
  unfolding FF_mask by (auto simp: bit_simps)

lemma crc_byte_split:
  "(crc_step ^^ 8) x = (crc_step ^^ 8) (x AND 0xFF) XOR drop_bit 8 x"
proof -
  have "(crc_step ^^ 8) (x AND NOT 0xFF) = drop_bit 8 (x AND NOT 0xFF)"
    by (rule crc_steps_shift) (rule low_bits_clear)
  then show ?thesis
    using crc_steps_xor[of 8 "x AND 0xFF" "x AND NOT 0xFF"]
    by (simp only: drop_high split_low_byte[symmetric])
qed

lemma and_FF_less: "unat (x AND 0xFF) < 256" for x :: "32 word"
proof -
  have "x AND 0xFF \<le> 0xFF" by (rule word_and_le1)
  then have "unat (x AND 0xFF) \<le> unat (0xFF :: 32 word)" by (simp add: word_le_nat_alt)
  then show ?thesis by simp
qed

lemma table_nth: "make_crc32_table ! unat (x AND 0xFF) = (crc_step ^^ 8) (x AND 0xFF)"
  using and_FF_less[of x] by (simp add: make_crc32_table_def)

lemma drop_char_word: "drop_bit 8 (char_word c :: 32 word) = 0"
proof -
  have "unat (char_word c :: 32 word) < 256"
    by (simp add: char_word_def unat_of_nat) (meson char_code_less le_less_trans mod_less_eq_dividend)
  then have "unat (drop_bit 8 (char_word c :: 32 word)) = 0"
    by (simp only: unat_drop_bit_eq) (simp add: drop_bit_eq_div)
  then show ?thesis by (simp add: unat_eq_zero)
qed

lemma crc32_byte_ref: "crc32_byte ch crc = crc_ref_byte ch crc"
proof -
  have "drop_bit 8 (crc XOR char_word ch) = drop_bit 8 crc"
    by (simp add: drop_char_word)
  then show ?thesis
    using crc_byte_split[of "crc XOR char_word ch"]
    by (simp add: crc32_byte_def crc_ref_byte_def table_nth)
qed

section \<open>Properties\<close>

text \<open>C28. The table-driven \<open>crc32\<close> of server.cpp computes the bit-by-bit cyclic redundancy check on
  every byte string.
\<close>

theorem crc32_is_bitwise_crc: "crc32 data = crc_ref data"
  by (simp add: crc32_def crc_ref_def crc32_byte_ref[abs_def])

text \<open>The published check value of CRC-32, for the one-letter string "a".\<close>

lemma crc_steps8: "(crc_step ^^ 8) c =
    crc_step (crc_step (crc_step (crc_step (crc_step (crc_step (crc_step (crc_step c)))))))"
  by (simp add: numeral_eq_Suc)

lemma crc_ref_check: "crc_ref ''a'' = 0xE8B7BE43"
  by (simp add: crc_ref_def crc_ref_byte_def crc_steps8 crc_step_def char_word_def char_code_def)

lemma crc32_empty: "crc32 [] = 0"
  by (simp add: crc32_def)

end
