(* ===== verification/Zip.thy ===== *)
theory Zip
  imports Crc
begin

text \<open>
  The archive writer of server.cpp: \<open>write_le16\<close>, \<open>write_le32\<close> and \<open>build_zip_from_files\<close>.  Beside
  it stands a reader written from the archive format (end-of-central-directory record, central
  directory, local headers, checksums); the main result is that the reader recovers the names
  and contents of all files from the bytes the writer produces.
\<close>

section \<open>The writer\<close>

text \<open>\<open>static_cast<char>((value >> n) & 0xFF)\<close>.\<close>

definition word_byte :: "nat \<Rightarrow> 'a::len word \<Rightarrow> char" where
  "word_byte n v = char_of (unat (drop_bit n v AND 0xFF))"

definition write_le16 :: "string \<Rightarrow> 16 word \<Rightarrow> string" where
  "write_le16 out value = out @ [word_byte 0 value, word_byte 8 value]"

definition write_le32 :: "string \<Rightarrow> 32 word \<Rightarrow> string" where
  "write_le32 out value = out @ [word_byte 0 value, word_byte 8 value, word_byte 16 value, word_byte 24 value]"

record ZipCentralEntry =
  ze_name :: string
  ze_crc :: "32 word"
  ze_size :: "32 word"
  ze_offset :: "32 word"

text \<open>The body of the first loop, for a file that could be read: the local header and the data.\<close>

definition zip_local :: "string \<Rightarrow> string \<Rightarrow> string \<times> ZipCentralEntry list \<Rightarrow> string \<times> ZipCentralEntry list" where
  "zip_local path data st =
     (case st of (arc, central_entries) \<Rightarrow>
      let offset = word_of_nat (length arc);
          crc = crc32 data;
          size = word_of_nat (length data);
          name_len = word_of_nat (length path);
          arc = write_le32 arc 0x04034b50;
          arc = write_le16 arc 20;
          arc = write_le16 arc 0;
          arc = write_le16 arc 0;
          arc = write_le16 arc 0;
          arc = write_le16 arc 0;
          arc = write_le32 arc crc;
          arc = write_le32 arc size;
          arc = write_le32 arc size;
          arc = write_le16 arc name_len;
          arc = write_le16 arc 0;
          arc = arc @ path;
          arc = arc @ data
      in (arc, central_entries @ [\<lparr>ze_name = path, ze_crc = crc, ze_size = size, ze_offset = offset\<rparr>]))"

text \<open>The whole loop; \<open>None\<close> is the early \<open>return {}\<close> at a file that cannot be read.\<close>

fun zip_locals :: "(string \<Rightarrow> string option) \<Rightarrow> string list \<Rightarrow> string \<times> ZipCentralEntry list
    \<Rightarrow> (string \<times> ZipCentralEntry list) option" where
  "zip_locals fs [] st = Some st"
| "zip_locals fs (path # files) st =
     (case fs path of None \<Rightarrow> None | Some data \<Rightarrow> zip_locals fs files (zip_local path data st))"

definition zip_central :: "ZipCentralEntry \<Rightarrow> string \<Rightarrow> string" where
  "zip_central entry central_dir =
     (let cd = write_le32 central_dir 0x02014b50;
          cd = write_le16 cd 20;
          cd = write_le16 cd 20;
          cd = write_le16 cd 0;
          cd = write_le16 cd 0;
          cd = write_le16 cd 0;
          cd = write_le16 cd 0;
          cd = write_le32 cd (ze_crc entry);
          cd = write_le32 cd (ze_size entry);
          cd = write_le32 cd (ze_size entry);
          cd = write_le16 cd (word_of_nat (length (ze_name entry)));
          cd = write_le16 cd 0;
          cd = write_le16 cd 0;
          cd = write_le16 cd 0;
          cd = write_le16 cd 0;
          cd = write_le32 cd 0;
          cd = write_le32 cd (ze_offset entry)
      in cd @ ze_name entry)"

definition zip_end :: "string \<Rightarrow> nat \<Rightarrow> string \<Rightarrow> 32 word \<Rightarrow> string" where
  "zip_end arc n central_dir central_dir_offset =
     (let arc = write_le32 arc 0x06054b50;
          arc = write_le16 arc 0;
          arc = write_le16 arc 0;
          arc = write_le16 arc (word_of_nat n);
          arc = write_le16 arc (word_of_nat n);
          arc = write_le32 arc (word_of_nat (length central_dir));
          arc = write_le32 arc central_dir_offset
      in write_le16 arc 0)"

definition build_zip_from_files :: "(string \<Rightarrow> string option) \<Rightarrow> string list \<Rightarrow> string" where
  "build_zip_from_files fs files =
     (case zip_locals fs files ([], []) of
        None \<Rightarrow> []
      | Some (arc, central_entries) \<Rightarrow>
          (let central_dir_offset = word_of_nat (length arc);
               central_dir = fold zip_central central_entries [];
               arc = arc @ central_dir
           in zip_end arc (length central_entries) central_dir central_dir_offset))"

section \<open>A reader for the format\<close>

fun le_nat :: "string \<Rightarrow> nat" where
  "le_nat [] = 0"
| "le_nat (c # cs) = char_code c + 256 * le_nat cs"

text \<open>The little-endian number of \<open>n\<close> bytes at position \<open>k\<close>.\<close>

definition le_at :: "nat \<Rightarrow> nat \<Rightarrow> string \<Rightarrow> nat" where
  "le_at k n s = le_nat (take n (drop k s))"

text \<open>The stored file whose local header is at \<open>off\<close>, checked against the central entry.\<close>

definition read_local :: "string \<Rightarrow> nat \<Rightarrow> string \<Rightarrow> nat \<Rightarrow> nat \<Rightarrow> string option" where
  "read_local arc off name sz crc =
     (let h = drop off arc;
          nlen = le_at 26 2 h;
          xlen = le_at 28 2 h;
          data = take sz (drop (nlen + xlen) (drop 30 h))
      in if le_at 0 4 h = 0x04034b50 \<and> le_at 8 2 h = 0 \<and> le_at 14 4 h = crc \<and> le_at 18 4 h = sz
            \<and> le_at 22 4 h = sz \<and> take nlen (drop 30 h) = name \<and> length data = sz
            \<and> unat (crc32 data) = crc
         then Some data else None)"

text \<open>One central entry: the name and contents of its file, and the rest of the directory.\<close>

definition read_entry :: "string \<Rightarrow> string \<Rightarrow> ((string \<times> string) \<times> string) option" where
  "read_entry arc cd =
     (let crc = le_at 16 4 cd; csize = le_at 20 4 cd; nlen = le_at 28 2 cd;
          name = take nlen (drop 46 cd)
      in if le_at 0 4 cd = 0x02014b50 \<and> le_at 24 4 cd = csize
         then map_option (\<lambda>data. ((name, data), drop (nlen + le_at 30 2 cd + le_at 32 2 cd) (drop 46 cd)))
                (read_local arc (le_at 42 4 cd) name csize crc)
         else None)"

fun read_central :: "string \<Rightarrow> nat \<Rightarrow> string \<Rightarrow> (string \<times> string) list option" where
  "read_central arc 0 cd = (if cd = [] then Some [] else None)"
| "read_central arc (Suc n) cd =
     (case read_entry arc cd of
        None \<Rightarrow> None
      | Some (f, rest) \<Rightarrow> map_option (Cons f) (read_central arc n rest))"

definition unzip :: "string \<Rightarrow> (string \<times> string) list option" where
  "unzip arc =
     (let e = drop (length arc - 22) arc;
          n = le_at 10 2 e; cd_size = le_at 12 4 e; cd_off = le_at 16 4 e
      in if 22 \<le> length arc \<and> le_at 0 4 e = 0x06054b50 \<and> le_at 8 2 e = n \<and> le_at 20 2 e = 0
            \<and> cd_off + cd_size + 22 = length arc
         then read_central arc n (take cd_size (drop cd_off arc)) else None)"

section \<open>Bytes of words\<close>

lemma word_byte_code: "char_code (word_byte n v) = unat v div 2 ^ n mod 256"
  if "8 \<le> LENGTH('a)" for v :: "'a::len word"
proof -
  have "(0xFF :: 'a word) = mask 8" by (simp add: mask_eq_exp_minus_1)
  then have "unat (drop_bit n v AND 0xFF) = unat v div 2 ^ n mod 256"
    by (simp only: take_bit_eq_mask[symmetric] unsigned_take_bit_eq unat_drop_bit_eq)
       (simp add: take_bit_eq_mod drop_bit_eq_div)
  then show ?thesis by (simp add: word_byte_def char_code_char_of_mod)
qed

abbreviation le16 :: "16 word \<Rightarrow> string" where
  "le16 v \<equiv> [word_byte 0 v, word_byte 8 v]"

abbreviation le32 :: "32 word \<Rightarrow> string" where
  "le32 v \<equiv> [word_byte 0 v, word_byte 8 v, word_byte 16 v, word_byte 24 v]"

lemma le_nat_le16: "le_nat (le16 v) = unat v"
proof -
  have "unat v < 65536" using unsigned_less[of v] by simp
  then show ?thesis by (simp add: word_byte_code)
qed

lemma le_nat_le32: "le_nat (le32 v) = unat v"
proof -
  have u: "unat v < 4294967296" using unsigned_less[of v] by simp
  have d: "unat v div 65536 = unat v div 256 div 256" "unat v div 16777216 = unat v div 256 div 256 div 256"
    by (simp_all add: div_mult2_eq[symmetric])
  have "unat v div 256 div 256 div 256 < 256"
    using u by (simp add: div_mult2_eq[symmetric] less_mult_imp_div_less)
  then show ?thesis
    by (simp add: word_byte_code d mod_mult_div_eq)
qed

section \<open>Layout\<close>

definition local_bytes :: "string \<Rightarrow> string \<Rightarrow> string" where
  "local_bytes path data =
     le32 0x04034b50 @ le16 20 @ le16 0 @ le16 0 @ le16 0 @ le16 0 @ le32 (crc32 data)
     @ le32 (word_of_nat (length data)) @ le32 (word_of_nat (length data))
     @ le16 (word_of_nat (length path)) @ le16 0 @ path @ data"

definition central_bytes :: "ZipCentralEntry \<Rightarrow> string" where
  "central_bytes e =
     le32 0x02014b50 @ le16 20 @ le16 20 @ le16 0 @ le16 0 @ le16 0 @ le16 0 @ le32 (ze_crc e)
     @ le32 (ze_size e) @ le32 (ze_size e) @ le16 (word_of_nat (length (ze_name e)))
     @ le16 0 @ le16 0 @ le16 0 @ le16 0 @ le32 0 @ le32 (ze_offset e) @ ze_name e"

definition end_bytes :: "nat \<Rightarrow> nat \<Rightarrow> 32 word \<Rightarrow> string" where
  "end_bytes n cd_size cd_off =
     le32 0x06054b50 @ le16 0 @ le16 0 @ le16 (word_of_nat n) @ le16 (word_of_nat n)
     @ le32 (word_of_nat cd_size) @ le32 cd_off @ le16 0"

lemma zip_local_eq:
  "zip_local path data (arc, es) =
     (arc @ local_bytes path data,
      es @ [\<lparr>ze_name = path, ze_crc = crc32 data, ze_size = word_of_nat (length data),
             ze_offset = word_of_nat (length arc)\<rparr>])"
  by (simp add: zip_local_def local_bytes_def write_le16_def write_le32_def Let_def)

lemma zip_central_eq: "zip_central e cd = cd @ central_bytes e"
  by (simp add: zip_central_def central_bytes_def write_le16_def write_le32_def Let_def)

lemma zip_end_eq: "zip_end arc n cd off = arc @ end_bytes n (length cd) off"
  by (simp add: zip_end_def end_bytes_def write_le16_def write_le32_def Let_def)

lemma length_local_bytes: "length (local_bytes path data) = 30 + length path + length data"
  by (simp add: local_bytes_def)

lemma length_central_bytes: "length (central_bytes e) = 46 + length (ze_name e)"
  by (simp add: central_bytes_def)

lemma length_end_bytes: "length (end_bytes n c off) = 22"
  by (simp add: end_bytes_def)

text \<open>The bytes and the central entries that a list of readable files gives.\<close>

fun locals_bytes :: "(string \<times> string) list \<Rightarrow> string" where
  "locals_bytes [] = []"
| "locals_bytes ((p, d) # pds) = local_bytes p d @ locals_bytes pds"

fun entries_at :: "nat \<Rightarrow> (string \<times> string) list \<Rightarrow> ZipCentralEntry list" where
  "entries_at k [] = []"
| "entries_at k ((p, d) # pds) =
     \<lparr>ze_name = p, ze_crc = crc32 d, ze_size = word_of_nat (length d), ze_offset = word_of_nat k\<rparr>
     # entries_at (k + length (local_bytes p d)) pds"

lemma zip_locals_eq:
  "zip_locals fs files (arc, es) =
     (case those (map fs files) of
        None \<Rightarrow> None
      | Some ds \<Rightarrow> Some (arc @ locals_bytes (zip files ds), es @ entries_at (length arc) (zip files ds)))"
proof (induction files arbitrary: arc es)
  case Nil
  then show ?case by simp
next
  case (Cons f files)
  then show ?case
    by (cases "fs f") (auto simp: zip_local_eq split: option.splits)
qed

lemma fold_zip_central: "fold zip_central es cd = cd @ concat (map central_bytes es)"
  by (induction es arbitrary: cd) (simp_all add: zip_central_eq)

lemma build_zip_eq:
  assumes "those (map fs files) = Some ds"
  shows "build_zip_from_files fs files =
     (let pds = zip files ds; l = locals_bytes pds; c = concat (map central_bytes (entries_at 0 pds))
      in l @ c @ end_bytes (length (entries_at 0 pds)) (length c) (word_of_nat (length l)))"
  using assms
  by (simp add: build_zip_from_files_def zip_locals_eq fold_zip_central zip_end_eq Let_def)

section \<open>Reading back what was written\<close>

lemmas [zip_simps] = le_at_def le_nat_le16 le_nat_le32

declare le_nat.simps [simp del]

lemma unat_small16: "n < 65536 \<Longrightarrow> unat (word_of_nat n :: 16 word) = n"
  by (simp add: unat_of_nat)

lemma unat_small32: "n < 4294967296 \<Longrightarrow> unat (word_of_nat n :: 32 word) = n"
  by (simp add: unat_of_nat)

lemma read_entry_central:
  assumes "length (ze_name e) < 65536"
  shows "read_entry arc (central_bytes e @ r) =
     map_option (\<lambda>data. ((ze_name e, data), r))
       (read_local arc (unat (ze_offset e)) (ze_name e) (unat (ze_size e)) (unat (ze_crc e)))"
  using assms by (simp add: read_entry_def central_bytes_def zip_simps unat_small16 Let_def del: drop_drop)

lemma read_local_written:
  assumes "arc = pre @ local_bytes p d @ post"
    and "length p < 65536" and "length d < 4294967296"
  shows "read_local arc (length pre) p (length d) (unat (crc32 d)) = Some d"
  using assms by (simp add: read_local_def local_bytes_def zip_simps unat_small16 unat_small32 Let_def del: drop_drop)

lemma length_locals_split:
  "length (pre @ locals_bytes ((p, d) # pds) @ post) =
     length pre + (30 + length p + length d) + length (locals_bytes pds) + length post"
  by (simp add: length_local_bytes)

lemma read_central_written:
  assumes "arc = pre @ locals_bytes pds @ post" and "length arc < 4294967296"
    and "\<forall>(p, d) \<in> set pds. length p < 65536"
  shows "read_central arc (length pds) (concat (map central_bytes (entries_at (length pre) pds))) = Some pds"
  using assms
proof (induction pds arbitrary: pre)
  case Nil
  then show ?case by simp
next
  case (Cons pd pds)
  obtain p d where pd: "pd = (p, d)" by (cases pd)
  have len: "length pre < 4294967296" "length d < 4294967296" "length p < 65536"
    using Cons.prems pd by (auto simp: length_local_bytes)
  have "arc = (pre @ local_bytes p d) @ locals_bytes pds @ post"
    using Cons.prems(1) pd by simp
  then have ih: "read_central arc (length pds)
      (concat (map central_bytes (entries_at (length (pre @ local_bytes p d)) pds))) = Some pds"
    by (rule Cons.IH) (use Cons.prems pd in auto)
  have "read_local arc (length pre) p (length d) (unat (crc32 d)) = Some d"
    by (rule read_local_written) (use Cons.prems(1) pd len in auto)
  with ih len show ?case
    by (simp add: pd read_entry_central unat_small32 add.assoc)
qed

lemma length_entries_at: "length (entries_at k pds) = length pds"
  by (induction k pds rule: entries_at.induct) auto

lemma unzip_layout:
  assumes "n < 65536" and "length l + length c + 22 < 4294967296"
  shows "unzip (l @ c @ end_bytes n (length c) (word_of_nat (length l))) =
     read_central (l @ c @ end_bytes n (length c) (word_of_nat (length l))) n c"
proof -
  let ?arc = "l @ c @ end_bytes n (length c) (word_of_nat (length l))"
  have "drop (length ?arc - 22) ?arc = end_bytes n (length c) (word_of_nat (length l))"
    by (simp add: length_end_bytes)
  then show ?thesis
    using assms
    by (simp add: unzip_def length_end_bytes Let_def)
       (simp add: end_bytes_def zip_simps unat_small16 unat_small32)
qed

lemma those_map_Some: "those (map f xs) = Some ys \<longleftrightarrow> map f xs = map Some ys"
  by (induction xs arbitrary: ys) (auto split: option.splits simp: map_eq_Cons_conv Cons_eq_map_conv)

lemma those_map_None: "those (map f xs) = None \<longleftrightarrow> (\<exists>x \<in> set xs. f x = None)"
  by (induction xs) (auto split: option.splits)

lemma unzip_build:
  assumes "\<forall>f \<in> set files. fs f \<noteq> None" and "length files < 65536"
    and "\<forall>f \<in> set files. length f < 65536"
    and "length (build_zip_from_files fs files) < 4294967296"
  shows "unzip (build_zip_from_files fs files) = Some (map (\<lambda>f. (f, the (fs f))) files)"
proof -
  define ds where "ds = map (\<lambda>f. the (fs f)) files"
  define pds where "pds = zip files ds"
  have "map fs files = map Some ds"
    using assms(1) by (auto simp: ds_def)
  then have th: "those (map fs files) = Some ds" by (simp only: those_map_Some)
  have len: "length pds = length files" by (simp add: pds_def ds_def)
  let ?l = "locals_bytes pds" and ?c = "concat (map central_bytes (entries_at 0 pds))"
  let ?e = "end_bytes (length files) (length ?c) (word_of_nat (length ?l))"
  have b: "build_zip_from_files fs files = ?l @ ?c @ ?e"
    using build_zip_eq[OF th] by (simp add: pds_def[symmetric] length_entries_at len Let_def)
  have "unzip (build_zip_from_files fs files) = read_central (?l @ ?c @ ?e) (length pds) ?c"
    using unzip_layout[of "length files" ?l ?c] assms(2,4) unfolding b len
    by (simp add: length_end_bytes)
  also have "\<dots> = Some pds"
    using read_central_written[of "?l @ ?c @ ?e" "[]" pds "?c @ ?e"] assms(3,4) b
    by (auto simp: pds_def dest: set_zip_leftD)
  also have "pds = map (\<lambda>f. (f, the (fs f))) files"
    by (simp add: pds_def ds_def zip_map2 zip_same_conv_map)
  finally show ?thesis .
qed

lemma zip_empty_iff_unreadable:
  "build_zip_from_files fs files = [] \<longleftrightarrow> (\<exists>f \<in> set files. fs f = None)"
proof (cases "those (map fs files)")
  case None
  then show ?thesis by (simp add: build_zip_from_files_def zip_locals_eq those_map_None[symmetric])
next
  case (Some ds)
  then have "build_zip_from_files fs files \<noteq> []"
    by (simp add: build_zip_eq Let_def end_bytes_def)
  moreover have "\<not> (\<exists>f \<in> set files. fs f = None)"
    using Some those_map_None[of fs files] by simp
  ultimately show ?thesis by simp
qed

section \<open>Properties\<close>

text \<open>C20. The archive is correct: when every file can be read, there are fewer than 65536 of them, no
  name has 65536 bytes or more and the archive stays under four gigabytes, the reader for the zip format
  recovers exactly the names and contents, checksums included, in order.
\<close>

theorem zip_roundtrip:
  assumes "\<forall>f \<in> set files. fs f \<noteq> None" and "length files < 65536"
    and "\<forall>f \<in> set files. length f < 65536"
    and "length (build_zip_from_files fs files) < 4294967296"
  shows "unzip (build_zip_from_files fs files) = Some (map (\<lambda>f. (f, the (fs f))) files)"
  using assms by (rule unzip_build)

theorem zip_roundtrip_witness:
  "unzip (build_zip_from_files (\<lambda>_. Some ''x'') [''style.css'']) = Some [(''style.css'', ''x'')]"
proof -
  have "length (build_zip_from_files (\<lambda>_. Some ''x'') [''style.css'']) < 4294967296"
    by (simp add: build_zip_eq[of _ _ "[''x'']"] Let_def length_local_bytes length_central_bytes length_end_bytes)
  then show ?thesis
    using zip_roundtrip[of "[''style.css'']" "\<lambda>_. Some ''x''"] by simp
qed

end
