(* ===== verification/JsonWrite.thy ===== *)
theory JsonWrite
  imports Fp
begin

text \<open>
  The writing half of crow/json.h: string escaping, the write value \<open>wvalue\<close> (its tag and payload
  as one datatype), the indexing operators the handlers build replies with, and \<open>dump\<close>.
\<close>

section \<open>Escaping\<close>

definition to_hex :: "nat \<Rightarrow> char" where
  "to_hex c = (let c = c mod 16 in if c < 10 then char_of (48 + c) else char_of (97 + c - 10))"

text \<open>
  One character of \<open>escape\<close>.  Bytes from 128 on are negative as \<open>char\<close> and pass through, as they
  do when \<open>char\<close> is unsigned.
\<close>

definition escape_char :: "char \<Rightarrow> string" where
  "escape_char c =
     (if c = CHR 0x22 then [CHR 0x5C, CHR 0x22]
      else if c = CHR 0x5C then [CHR 0x5C, CHR 0x5C]
      else if c = CHR 0x0A then [CHR 0x5C, CHR ''n'']
      else if c = CHR 0x08 then [CHR 0x5C, CHR ''b'']
      else if c = CHR 0x0C then [CHR 0x5C, CHR ''f'']
      else if c = CHR 0x0D then [CHR 0x5C, CHR ''r'']
      else if c = CHR 0x09 then [CHR 0x5C, CHR ''t'']
      else if char_code c < 32
        then [CHR 0x5C, CHR ''u'', CHR ''0'', CHR ''0'', to_hex (char_code c div 16), to_hex (char_code c mod 16)]
      else [c])"

fun escape :: "string \<Rightarrow> string \<Rightarrow> string" where
  "escape [] ret = ret"
| "escape (c # cs) ret = escape cs (ret @ escape_char c)"

section \<open>Write values\<close>

text \<open>The payload of a number, by its \<open>num_type\<close>.\<close>

datatype 'd json_num =
    Double_precision 'd
  | Floating_point 'd
  | Signed_integer int
  | Unsigned_integer nat

datatype 'd wvalue =
    WNull
  | WFalse
  | WTrue
  | WNumber "'d json_num"
  | WString string
  | WList "'d wvalue list"
  | WObject "(string \<times> 'd wvalue) list"
  | WFunction "string \<Rightarrow> string"

text \<open>Assignments of the types the handlers store.\<close>

definition wv_int :: "int \<Rightarrow> 'd wvalue" where "wv_int v = WNumber (Signed_integer v)"
definition wv_double :: "'d \<Rightarrow> 'd wvalue" where "wv_double v = WNumber (Double_precision v)"

text \<open>
  \<open>operator[](unsigned)\<close> and \<open>operator[](const std::string&)\<close> return a reference; here they take
  the update that the caller makes through it.  A value of another type is reset first, and a
  missing slot or member starts as null.
\<close>

definition wv_at_index :: "nat \<Rightarrow> ('d wvalue \<Rightarrow> 'd wvalue) \<Rightarrow> 'd wvalue \<Rightarrow> 'd wvalue" where
  "wv_at_index index f w =
     (let l = (case w of WList l \<Rightarrow> l | _ \<Rightarrow> []);
          l = (if length l < index + 1 then l @ replicate (index + 1 - length l) WNull else l)
      in WList (l[index := f (l ! index)]))"

definition wv_at_key :: "string \<Rightarrow> ('d wvalue \<Rightarrow> 'd wvalue) \<Rightarrow> 'd wvalue \<Rightarrow> 'd wvalue" where
  "wv_at_key str f w =
     (let o' = (case w of WObject o' \<Rightarrow> o' | _ \<Rightarrow> [])
      in WObject (umap_modify WNull str f o'))"

abbreviation wv_set :: "string \<Rightarrow> 'd wvalue \<Rightarrow> 'd wvalue \<Rightarrow> 'd wvalue" where
  "wv_set str v \<equiv> wv_at_key str (\<lambda>_. v)"

definition wv_size :: "'d wvalue \<Rightarrow> nat" where
  "wv_size w = (case w of WList l \<Rightarrow> length l | _ \<Rightarrow> 1)"

definition wv_count :: "string \<Rightarrow> 'd wvalue \<Rightarrow> nat" where
  "wv_count str w = (case w of WObject o' \<Rightarrow> (if umap_find o' str = None then 0 else 1) | _ \<Rightarrow> 0)"

definition wv_keys :: "'d wvalue \<Rightarrow> string list" where
  "wv_keys w = (case w of WObject o' \<Rightarrow> map fst o' | _ \<Rightarrow> [])"

definition wv_execute :: "'d wvalue \<Rightarrow> string \<Rightarrow> string" where
  "wv_execute w txt = (case w of WFunction f \<Rightarrow> f txt | _ \<Rightarrow> [])"

text \<open>The push-back idiom \<open>arr[arr.size()] = v\<close> of the handlers.\<close>

definition wv_push :: "'d wvalue \<Rightarrow> 'd wvalue \<Rightarrow> 'd wvalue" where
  "wv_push v arr = wv_at_index (wv_size arr) (\<lambda>_. v) arr"

section \<open>Dumping\<close>

text \<open>The state machine that finds where the trailing zeros of a printed number begin.\<close>

datatype f_state = FStart | FDecp | FZero

fun trim_loop :: "f_state \<Rightarrow> nat \<Rightarrow> nat option \<Rightarrow> string \<Rightarrow> nat option" where
  "trim_loop st i pos [] = pos"
| "trim_loop FStart i pos (ch # p) =
     (if ch = CHR ''.'' then
        (case p of
           fch # p' \<Rightarrow> if fch = CHR ''0'' then trim_loop FDecp (i + 2) pos p' else trim_loop FDecp (i + 1) pos p
         | [] \<Rightarrow> pos)
      else trim_loop FStart (i + 1) pos p)"
| "trim_loop FDecp i pos (ch # p) =
     (if ch = CHR ''0'' then trim_loop FZero (i + 1) (Some i) p else trim_loop FDecp (i + 1) pos p)"
| "trim_loop FZero i pos (ch # p) =
     (if ch \<noteq> CHR ''0'' then trim_loop FDecp (i + 1) None p else trim_loop FZero (i + 1) pos p)"

definition trim_zeros :: "string \<Rightarrow> string" where
  "trim_zeros outbuf = (case trim_loop FStart 0 None outbuf of None \<Rightarrow> outbuf | Some k \<Rightarrow> take k outbuf)"

definition dump_number :: "'d fpops \<Rightarrow> 'd json_num \<Rightarrow> string" where
  "dump_number fp n =
     (case n of
        Double_precision d \<Rightarrow>
          if fp_is_nan fp d \<or> fp_is_inf fp d then ''null'' else trim_zeros (fp_fmt_g17 fp d)
      | Floating_point d \<Rightarrow>
          if fp_is_nan fp d \<or> fp_is_inf fp d then ''null'' else trim_zeros (fp_fmt_f fp d)
      | Signed_integer si \<Rightarrow> show_int si
      | Unsigned_integer ui \<Rightarrow> show_nat ui)"

definition dump_string :: "string \<Rightarrow> string" where
  "dump_string str = CHR 0x22 # escape str [] @ [CHR 0x22]"

definition dump_indentation_part :: "int \<Rightarrow> char \<Rightarrow> nat \<Rightarrow> string" where
  "dump_indentation_part indent separator indent_level =
     CHR 0x0A # replicate (indent_level * nat indent) separator"

text \<open>Its callers skip it for a negative indentation.\<close>

definition dump_newline :: "int \<Rightarrow> char \<Rightarrow> nat \<Rightarrow> string" where
  "dump_newline indent separator indent_level =
     (if 0 \<le> indent then dump_indentation_part indent separator indent_level else [])"

text \<open>\<open>dump_internal\<close>, as the text it appends.\<close>

function dump_internal :: "'d fpops \<Rightarrow> int \<Rightarrow> char \<Rightarrow> nat \<Rightarrow> 'd wvalue \<Rightarrow> string" where
  "dump_internal fp indent sep lvl WNull = ''null''"
| "dump_internal fp indent sep lvl WFalse = ''false''"
| "dump_internal fp indent sep lvl WTrue = ''true''"
| "dump_internal fp indent sep lvl (WNumber n) = dump_number fp n"
| "dump_internal fp indent sep lvl (WString s) = dump_string s"
| "dump_internal fp indent sep lvl (WList l) =
     ''['' @ dump_newline indent sep (lvl + 1)
     @ join_with ('','' @ dump_newline indent sep (lvl + 1))
         (map (dump_internal fp indent sep (lvl + 1)) l)
     @ dump_newline indent sep lvl @ '']''"
| "dump_internal fp indent sep lvl (WObject o') =
     ''{'' @ dump_newline indent sep (lvl + 1)
     @ join_with ('','' @ dump_newline indent sep (lvl + 1))
         (map (\<lambda>(k, v). dump_string k @ '':'' @ (if 0 \<le> indent then '' '' else [])
                 @ dump_internal fp indent sep (lvl + 1) v) o')
     @ dump_newline indent sep lvl @ ''}''"
| "dump_internal fp indent sep lvl (WFunction f) = ''custom function''"
  by pat_completeness auto
termination
  by (relation "measure (\<lambda>(fp, indent, sep, lvl, v). size v)") (auto simp: termination_simp)

definition dump_indent :: "'d fpops \<Rightarrow> int \<Rightarrow> char \<Rightarrow> 'd wvalue \<Rightarrow> string" where
  "dump_indent fp indent separator v = dump_internal fp indent separator 0 v"

definition dump :: "'d fpops \<Rightarrow> 'd wvalue \<Rightarrow> string" where
  "dump fp v = dump_indent fp (- 1) (CHR '' '') v"

section \<open>Escaped text\<close>

lemma escape_eq: "escape s ret = ret @ concat (map escape_char s)"
  by (induction s ret rule: escape.induct) auto

abbreviation escaped :: "string \<Rightarrow> string" where
  "escaped s \<equiv> concat (map escape_char s)"

lemma escape_is_escaped [simp]: "escape s [] = escaped s"
  by (simp add: escape_eq)

lemma char_code_to_hex: "char_code (to_hex n) = (if n mod 16 < 10 then 48 + n mod 16 else 87 + n mod 16)"
proof -
  have "n mod 16 < 16" by simp
  then show ?thesis unfolding to_hex_def Let_def
    by (subst if_distrib[of char_code]) (simp add: char_code_char_of_mod)
qed

text \<open>No byte below 32 survives escaping: the text is one line, whatever the string holds.\<close>

lemma escaped_no_control: "c \<in> set (escaped s) \<Longrightarrow> 32 \<le> char_code c"
proof -
  have "32 \<le> char_code c" if "c \<in> set (escape_char d)" for c d
    using that char_code_to_hex[of "char_code d div 16"] char_code_to_hex[of "char_code d mod 16"]
    by (auto simp: escape_char_def char_code_def split: if_splits)
  then show "c \<in> set (escaped s) \<Longrightarrow> 32 \<le> char_code c" by auto
qed

section \<open>Building lists and objects\<close>

lemma wv_push_list [simp]: "wv_push v (WList l) = WList (l @ [v])"
  by (simp add: wv_push_def wv_at_index_def wv_size_def Let_def)

lemma fold_wv_push: "fold (\<lambda>x. wv_push (f x)) xs (WList l) = WList (l @ map f xs)"
  by (induction xs arbitrary: l) auto

lemma wv_at_index_next:
  "wv_at_index (length l) f (WList l) = WList (l @ [f WNull])"
  by (simp add: wv_at_index_def Let_def)

lemma wv_at_key_find:
  "\<exists>o'. wv_at_key k f w = WObject o' \<and> umap_find o' k = Some (f (case w of WObject o0 \<Rightarrow>
     (case umap_find o0 k of None \<Rightarrow> WNull | Some v \<Rightarrow> v) | _ \<Rightarrow> WNull))"
  by (cases w) (auto simp: wv_at_key_def umap_find_modify Let_def)

section \<open>Trimming zeros\<close>

lemma trim_loop_int:
  "CHR ''.'' \<notin> set s \<Longrightarrow> trim_loop FStart i pos (s @ r) = trim_loop FStart (i + length s) pos r"
  by (induction s arbitrary: i) auto

lemma trim_zeros_no_point: "CHR ''.'' \<notin> set s \<Longrightarrow> trim_zeros s = s"
  using trim_loop_int[of s 0 None "[]"] by (simp add: trim_zeros_def)

text \<open>In states \<open>decp\<close> and \<open>zero\<close> the recorded position is where the run of zeros at the end begins.\<close>

definition zero_run :: "string \<Rightarrow> nat" where
  "zero_run s = length (takeWhile (\<lambda>c. c = CHR ''0'') (rev s))"

lemma zero_run_snoc: "zero_run (s @ [c]) = (if c = CHR ''0'' then Suc (zero_run s) else 0)"
  by (simp add: zero_run_def)

lemma zero_run_le: "zero_run s \<le> length s"
  unfolding zero_run_def by (metis length_rev length_takeWhile_le)

lemma trim_loop_frac:
  "trim_loop (if zero_run pre = 0 then FDecp else FZero) i
      (if zero_run pre = 0 then None else Some (i - zero_run pre)) s =
   (if zero_run (pre @ s) = 0 then None else Some (i + length s - zero_run (pre @ s)))"
  if "zero_run pre \<le> i"
  using that
proof (induction s arbitrary: pre i)
  case Nil
  then show ?case by simp
next
  case (Cons c s)
  have "zero_run (pre @ [c]) \<le> Suc i"
    using Cons.prems by (simp add: zero_run_snoc)
  with Cons.IH[of "pre @ [c]" "Suc i"] show ?case
    by (cases "c = CHR ''0''"; cases "zero_run pre = 0") (simp_all add: zero_run_snoc)
qed

lemma zero_run_split: "s = take (length s - zero_run s) s @ replicate (zero_run s) (CHR ''0'')"
proof -
  let ?z = "takeWhile (\<lambda>c. c = CHR ''0'') (rev s)"
  have "rev s = ?z @ dropWhile (\<lambda>c. c = CHR ''0'') (rev s)" by simp
  then have s: "s = rev (dropWhile (\<lambda>c. c = CHR ''0'') (rev s)) @ rev ?z"
    by (metis rev_append rev_rev_ident)
  have "?z = replicate (zero_run s) (CHR ''0'')"
    unfolding zero_run_def by (rule replicate_length_same[symmetric]) (auto dest: set_takeWhileD)
  then have z: "rev ?z = replicate (zero_run s) (CHR ''0'')" by simp
  have "take (length s - zero_run s) s = rev (dropWhile (\<lambda>c. c = CHR ''0'') (rev s))"
    by (simp add: dropWhile_eq_drop rev_drop zero_run_def)
  with s z show ?thesis by simp
qed

lemma zero_run_last: "0 < length s - zero_run s \<Longrightarrow> last (take (length s - zero_run s) s) \<noteq> CHR ''0''"
proof (induction s rule: rev_induct)
  case Nil
  then show ?case by simp
next
  case (snoc c s)
  then show ?case
    using zero_run_le[of s] by (cases "c = CHR ''0''") (auto simp: zero_run_snoc)
qed

lemma trim_zeros_point:
  assumes "CHR ''.'' \<notin> set ip"
  shows "trim_zeros (ip @ CHR ''.'' # c # f) =
     ip @ CHR ''.'' # (if c = CHR ''0'' then c # take (length f - zero_run f) f
                       else take (length (c # f) - zero_run (c # f)) (c # f))"
proof -
  have run: "trim_loop FDecp i None s = (if zero_run s = 0 then None else Some (i + length s - zero_run s))" for i s
    using trim_loop_frac[of "[]" i s] by (simp add: zero_run_def)
  have start: "trim_loop FStart 0 None (ip @ CHR ''.'' # c # f) =
      (if c = CHR ''0'' then trim_loop FDecp (length ip + 2) None f
       else trim_loop FDecp (length ip + 1) None (c # f))"
    using trim_loop_int[OF assms, of 0 None "CHR ''.'' # c # f"] by simp
  show ?thesis
  proof (cases "c = CHR ''0''")
    case True
    then show ?thesis
      using zero_run_le[of f] unfolding trim_zeros_def start
      by (simp add: run Suc_diff_le del: trim_loop.simps)
  next
    case False
    then show ?thesis
      using zero_run_le[of "c # f"] unfolding trim_zeros_def start
      by (simp add: run Suc_diff_le del: trim_loop.simps)
  qed
qed

section \<open>Properties\<close>

text \<open>Trimming a printed number with a decimal point removes only a block of zeros at the end of the
  text, always leaves at least one character after the point, and leaves no further zero at the
  end unless it is that one character.  A text without a point is unchanged.
\<close>

theorem trim_zeros_spec:
  assumes "CHR ''.'' \<notin> set ip" and "fr \<noteq> []"
  shows "\<exists>kept n. fr = kept @ replicate n (CHR ''0'') \<and> kept \<noteq> []
      \<and> trim_zeros (ip @ CHR ''.'' # fr) = ip @ CHR ''.'' # kept
      \<and> (length kept = 1 \<or> last kept \<noteq> CHR ''0'')
      \<and> trim_zeros ip = ip"
proof -
  obtain c f where fr: "fr = c # f" using assms(2) by (cases fr) auto
  let ?k = "if c = CHR ''0'' then c # take (length f - zero_run f) f
            else take (length fr - zero_run fr) fr"
  let ?n = "if c = CHR ''0'' then zero_run f else zero_run fr"
  have split: "fr = ?k @ replicate ?n (CHR ''0'')"
    using zero_run_split[of f] zero_run_split[of fr] fr by auto
  have ne: "?k \<noteq> []"
    using split fr by (cases "zero_run fr"; cases "c = CHR ''0''"; auto simp: Cons_replicate_eq)
  have "length ?k = 1 \<or> last ?k \<noteq> CHR ''0''"
    using zero_run_last[of f] zero_run_last[of fr] ne
    by (cases "c = CHR ''0''"; cases "length f - zero_run f"; auto)
  with split ne show ?thesis
    using trim_zeros_point[OF assms(1), of c f] trim_zeros_no_point[OF assms(1)] fr by blast
qed

theorem trim_zeros_spec_witness:
  "\<exists>kept n. ''50'' = kept @ replicate n (CHR ''0'') \<and> kept \<noteq> [] \<and> trim_zeros (''1'' @ CHR ''.'' # ''50'') = ''1'' @ CHR ''.'' # kept"
  using trim_zeros_spec[of "''1''" "''50''"] by auto

text \<open>The same trimming applies to a number printed with an exponent, and there it is wrong: the
  17-digit text of a double such as 1.5e20 loses the last zero of its exponent, so the JSON
  output denotes 1.5e2.
\<close>

theorem trim_zeros_cuts_exponent:
  "fp_fmt_g17 fp d = ''1.5e+20'' \<and> \<not> fp_is_nan fp d \<and> \<not> fp_is_inf fp d \<longrightarrow>
     dump fp (wv_double d) = ''1.5e+2''"
  by (simp add: dump_def dump_indent_def wv_double_def dump_number_def trim_zeros_def)

theorem trim_zeros_cuts_exponent_witness:
  "dump (real_fp (\<lambda>_. None) (\<lambda>_. ''1.5e+20'')) (wv_double 150000000000000000000) = ''1.5e+2''"
  by (rule trim_zeros_cuts_exponent[THEN mp]) (simp add: real_fp_def)

end
