(* ===== verification/JsonRead.thy ===== *)
theory JsonRead
  imports JsonWrite
begin

text \<open>
  The reading half of crow/json.h: the parser of \<open>load_nocopy_internal\<close>, lazy unescaping of strings,
  and the conversion of a read value to a write value.  The buffer the parser walks is the list
  of remaining characters; reading at its end gives the terminating zero byte.  A failed parse
  is \<open>None\<close> (the error bit of \<open>rvalue\<close>).  The recursive parts carry fuel, with the bound that
  suffices proved below; \<open>load\<close> passes that bound, so it is total.
\<close>

section \<open>Read values\<close>

text \<open>A string keeps its raw text and the flag for escapes in it, a number its text.\<close>

datatype rvalue =
    RNull
  | RFalse
  | RTrue
  | RNumber string
  | RString bool string
  | RList "rvalue list"
  | RObject "(string \<times> rvalue) list"

definition from_hex :: "char \<Rightarrow> nat" where
  "from_hex c = (if 97 \<le> char_code c then char_code c - 97 + 10
                 else if 65 \<le> char_code c then char_code c - 65 + 10
                 else char_code c - 48)"

text \<open>The bytes a four-digit escape stands for; each half of a surrogate pair is encoded by itself.\<close>

definition utf8_of :: "nat \<Rightarrow> string" where
  "utf8_of code =
     (if 0x800 \<le> code then
        [char_of (0xE0 + code div 4096), char_of (0x80 + code div 64 mod 64), char_of (0x80 + code mod 64)]
      else if 0x80 \<le> code then [char_of (0xC0 + code div 64), char_of (0x80 + code mod 64)]
      else [char_of code])"

fun unescape :: "string \<Rightarrow> string" where
  "unescape [] = []"
| "unescape (c # cs) =
     (if c = CHR 0x5C then
        (case cs of
           [] \<Rightarrow> []
         | d # ds \<Rightarrow>
             if d = CHR 0x22 then CHR 0x22 # unescape ds
             else if d = CHR 0x5C then CHR 0x5C # unescape ds
             else if d = CHR ''/'' then CHR ''/'' # unescape ds
             else if d = CHR ''b'' then CHR 0x08 # unescape ds
             else if d = CHR ''f'' then CHR 0x0C # unescape ds
             else if d = CHR ''n'' then CHR 0x0A # unescape ds
             else if d = CHR ''r'' then CHR 0x0D # unescape ds
             else if d = CHR ''t'' then CHR 0x09 # unescape ds
             else if d = CHR ''u'' then
               (case ds of
                  h1 # h2 # h3 # h4 # r \<Rightarrow>
                    utf8_of (from_hex h1 * 4096 + from_hex h2 * 256 + from_hex h3 * 16 + from_hex h4)
                    @ unescape r
                | _ \<Rightarrow> [])
             else unescape ds)
      else c # unescape cs)"

definition rv_s :: "bool \<Rightarrow> string \<Rightarrow> string" where
  "rv_s has_escaping raw = (if has_escaping then unescape raw else raw)"

definition rv_key :: "rvalue \<Rightarrow> string" where
  "rv_key t = (case t of RString esc raw \<Rightarrow> rv_s esc raw | _ \<Rightarrow> [])"

section \<open>The scanner\<close>

definition consume :: "char \<Rightarrow> string \<Rightarrow> string option" where
  "consume c s = (if peek s \<noteq> c then None else Some (tl s))"

definition ws_skip :: "string \<Rightarrow> string" where
  "ws_skip = dropWhile (\<lambda>c. c \<in> {CHR '' '', CHR 0x09, CHR 0x0D, CHR 0x0A})"

definition is_hex :: "char \<Rightarrow> bool" where
  "is_hex c \<longleftrightarrow> isdigit c \<or> 97 \<le> char_code c \<and> char_code c \<le> 102 \<or> 65 \<le> char_code c \<and> char_code c \<le> 70"

text \<open>The loop of \<open>decode_string\<close> after the opening quote.\<close>

fun string_loop :: "bool \<Rightarrow> string \<Rightarrow> string \<Rightarrow> (rvalue \<times> string) option" where
  "string_loop esc raw [] = None"
| "string_loop esc raw (c # cs) =
     (if c \<noteq> CHR 0x22 \<and> c \<noteq> CHR 0x5C \<and> c \<noteq> CHR 0x00 then string_loop esc (raw @ [c]) cs
      else if c = CHR 0x22 then Some (RString esc raw, cs)
      else if c = CHR 0x5C then
        (case cs of
           [] \<Rightarrow> None
         | d # ds \<Rightarrow>
             if d = CHR ''u'' then
               (case ds of
                  h1 # h2 # h3 # h4 # r \<Rightarrow>
                    if is_hex h1 \<and> is_hex h2 \<and> is_hex h3 \<and> is_hex h4
                    then string_loop True (raw @ [c, d, h1, h2, h3, h4]) r else None
                | _ \<Rightarrow> None)
             else if d \<in> {CHR 0x22, CHR 0x5C, CHR ''/'', CHR ''b'', CHR ''f'', CHR ''n'', CHR ''r'', CHR ''t''}
             then string_loop True (raw @ [c, d]) ds
             else None)
      else None)"

definition decode_string :: "string \<Rightarrow> (rvalue \<times> string) option" where
  "decode_string s = (case consume (CHR 0x22) s of None \<Rightarrow> None | Some s1 \<Rightarrow> string_loop False [] s1)"

text \<open>The number automaton: the transition strings of the source, one row per character class.\<close>

datatype num_state =
    NMinus | AfterMinus | ZeroFirst | Digits | DigitsAfterPoints | NE | DigitsAfterE | Invalid

definition num_states :: "num_state list" where
  "num_states = [NMinus, AfterMinus, ZeroFirst, Digits, DigitsAfterPoints, NE, DigitsAfterE, Invalid]"

fun num_index :: "num_state \<Rightarrow> nat" where
  "num_index NMinus = 0" | "num_index AfterMinus = 1" | "num_index ZeroFirst = 2"
| "num_index Digits = 3" | "num_index DigitsAfterPoints = 4" | "num_index NE = 5"
| "num_index DigitsAfterE = 6" | "num_index Invalid = 7"

definition num_row :: "nat list \<Rightarrow> num_state \<Rightarrow> num_state" where
  "num_row row st = num_states ! (row ! num_index st)"

text \<open>The state after a character of a number, \<open>None\<close> for the \<open>default\<close> branch of the switch.\<close>

definition num_next :: "char \<Rightarrow> num_state \<Rightarrow> num_state option" where
  "num_next c st =
     (if c = CHR ''0'' then Some (num_row [2,2,7,3,4,6,6] st)
      else if isdigit c then Some (num_row [3,3,7,3,4,6,6] st)
      else if c = CHR ''.'' then Some (num_row [7,7,4,4,7,7,7] st)
      else if c = CHR ''-'' then Some (num_row [1,7,7,7,7,6,7] st)
      else if c = CHR ''+'' then Some (num_row [7,7,7,7,7,6,7] st)
      else if c = CHR ''e'' \<or> c = CHR ''E'' then Some (num_row [7,7,7,5,5,7,7] st)
      else None)"

definition num_final :: "num_state \<Rightarrow> bool" where
  "num_final st \<longleftrightarrow> st = ZeroFirst \<or> st = Digits \<or> st = DigitsAfterPoints \<or> st = DigitsAfterE"

text \<open>After a digit other than zero the loop also skips the digits that follow it.\<close>

function number_loop :: "num_state \<Rightarrow> string \<Rightarrow> string \<Rightarrow> (rvalue \<times> string) option" where
  "number_loop st text [] = (if num_final st then Some (RNumber text, []) else None)"
| "number_loop st text (c # cs) =
     (if st = Invalid then None
      else case num_next c st of
             None \<Rightarrow> (if num_final st then Some (RNumber text, c # cs) else None)
           | Some st' \<Rightarrow>
               if isdigit c \<and> c \<noteq> CHR ''0''
               then number_loop st' (text @ c # takeWhile isdigit cs) (dropWhile isdigit cs)
               else number_loop st' (text @ [c]) cs)"
  by pat_completeness auto
termination
  by (relation "measure (\<lambda>(st, text, s). length s)") (simp_all add: less_Suc_eq_le length_dropWhile_le)

definition decode_number :: "string \<Rightarrow> (rvalue \<times> string) option" where
  "decode_number s = number_loop NMinus [] s"

section \<open>The parser\<close>

definition max_depth :: nat where "max_depth = 10000"

definition decode_word :: "string \<Rightarrow> rvalue \<Rightarrow> string \<Rightarrow> (rvalue \<times> string) option" where
  "decode_word w v s = (if prefix w s then Some (v, drop (length w) s) else None)"

text \<open>
  The result of a parsing step: \<open>None\<close> when the fuel ran out, \<open>Some None\<close> for a syntax error,
  otherwise the value and the rest of the input.  \<open>decode_list\<close> and \<open>decode_object\<close> take the
  recursive call \<open>decode_value\<close> as an argument.
\<close>

type_synonym step_result = "(rvalue \<times> string) option option"

primrec list_loop :: "nat \<Rightarrow> (nat \<Rightarrow> string \<Rightarrow> step_result) \<Rightarrow> nat \<Rightarrow> rvalue list \<Rightarrow> string \<Rightarrow> step_result" where
  "list_loop 0 dv depth acc s = None"
| "list_loop (Suc n) dv depth acc s =
     (case dv (depth + 1) s of
        None \<Rightarrow> None
      | Some None \<Rightarrow> Some None
      | Some (Some (v, s1)) \<Rightarrow>
          if peek (ws_skip s1) = CHR '']'' then Some (Some (RList (acc @ [v]), tl (ws_skip s1)))
          else (case consume (CHR '','') (ws_skip s1) of
                  None \<Rightarrow> Some None
                | Some s2 \<Rightarrow> list_loop n dv depth (acc @ [v]) (ws_skip s2)))"

definition decode_list :: "nat \<Rightarrow> (nat \<Rightarrow> string \<Rightarrow> step_result) \<Rightarrow> nat \<Rightarrow> string \<Rightarrow> step_result" where
  "decode_list n dv depth s =
     (case consume (CHR ''['') s of
        None \<Rightarrow> Some None
      | Some s1 \<Rightarrow>
          if max_depth < depth then Some None
          else if peek (ws_skip s1) = CHR '']'' then Some (Some (RList [], tl (ws_skip s1)))
          else list_loop n dv depth [] (ws_skip s1))"

primrec object_loop :: "nat \<Rightarrow> (nat \<Rightarrow> string \<Rightarrow> step_result) \<Rightarrow> nat \<Rightarrow> (string \<times> rvalue) list \<Rightarrow> string \<Rightarrow> step_result" where
  "object_loop 0 dv depth acc s = None"
| "object_loop (Suc n) dv depth acc s =
     (case decode_string s of
        None \<Rightarrow> Some None
      | Some (t, s1) \<Rightarrow>
          (case consume (CHR '':'') (ws_skip s1) of
             None \<Rightarrow> Some None
           | Some s2 \<Rightarrow>
               (case dv (depth + 1) (ws_skip s2) of
                  None \<Rightarrow> None
                | Some None \<Rightarrow> Some None
                | Some (Some (v, s3)) \<Rightarrow>
                    if peek (ws_skip s3) = CHR ''}''
                    then Some (Some (RObject (acc @ [(rv_key t, v)]), tl (ws_skip s3)))
                    else (case consume (CHR '','') (ws_skip s3) of
                            None \<Rightarrow> Some None
                          | Some s4 \<Rightarrow> object_loop n dv depth (acc @ [(rv_key t, v)]) (ws_skip s4)))))"

definition decode_object :: "nat \<Rightarrow> (nat \<Rightarrow> string \<Rightarrow> step_result) \<Rightarrow> nat \<Rightarrow> string \<Rightarrow> step_result" where
  "decode_object n dv depth s =
     (case consume (CHR ''{'') s of
        None \<Rightarrow> Some None
      | Some s1 \<Rightarrow>
          if max_depth < depth then Some None
          else if peek (ws_skip s1) = CHR ''}'' then Some (Some (RObject [], tl (ws_skip s1)))
          else object_loop n dv depth [] (ws_skip s1))"

primrec decode_value :: "nat \<Rightarrow> nat \<Rightarrow> string \<Rightarrow> step_result" where
  "decode_value 0 depth s = None"
| "decode_value (Suc n) depth s =
     (if peek s = CHR ''['' then decode_list n (decode_value n) (depth + 1) s
      else if peek s = CHR ''{'' then decode_object n (decode_value n) (depth + 1) s
      else if peek s = CHR 0x22 then Some (decode_string s)
      else if peek s = CHR ''t'' then Some (decode_word ''true'' RTrue s)
      else if peek s = CHR ''f'' then Some (decode_word ''false'' RFalse s)
      else if peek s = CHR ''n'' then Some (decode_word ''null'' RNull s)
      else Some (decode_number s))"

text \<open>\<open>parse\<close> and \<open>load\<close>: one value, then nothing but white space before the end.\<close>

definition load_fuel :: "nat \<Rightarrow> string \<Rightarrow> rvalue option option" where
  "load_fuel n data =
     (case decode_value n 0 (ws_skip data) of
        None \<Rightarrow> None
      | Some None \<Rightarrow> Some None
      | Some (Some (v, rest)) \<Rightarrow>
          if peek (ws_skip rest) \<noteq> CHR 0x00 then Some None else Some (Some v))"

definition load :: "string \<Rightarrow> rvalue option" where
  "load data = (case load_fuel (length data + 1) data of Some r \<Rightarrow> r | None \<Rightarrow> None)"

section \<open>Read values as write values\<close>

datatype num_type = Nt_Floating | Nt_Signed | Nt_Unsigned

definition determine_num_type :: "string \<Rightarrow> num_type" where
  "determine_num_type t =
     (let has_minus = (CHR ''-'' \<in> set t);
          has_e = (CHR ''e'' \<in> set t \<or> CHR ''E'' \<in> set t);
          has_dec_sep = (CHR ''.'' \<in> set t)
      in if has_dec_sep \<or> has_e then Nt_Floating else if has_minus then Nt_Signed else Nt_Unsigned)"

text \<open>
  \<open>lexical_cast\<close> to the 64-bit integer types reads through a string stream: an optional sign, the
  digits, and the nearest representable value when the number does not fit.
\<close>

definition lexical_cast_int64 :: "string \<Rightarrow> int" where
  "lexical_cast_int64 t =
     (let neg = (peek t = CHR ''-''); ds = takeWhile isdigit (if neg then tl t else t);
          v = (if neg then - int (digits_val 0 ds) else int (digits_val 0 ds))
      in max (- (2 ^ 63)) (min v (2 ^ 63 - 1)))"

definition lexical_cast_uint64 :: "string \<Rightarrow> nat" where
  "lexical_cast_uint64 t = min (digits_val 0 (takeWhile isdigit t)) (2 ^ 64 - 1)"

text \<open>\<open>emplace\<close> keeps the first member of a repeated key.\<close>

definition umap_emplace :: "'k \<times> 'v \<Rightarrow> ('k, 'v) umap \<Rightarrow> ('k, 'v) umap" where
  "umap_emplace p m = (if umap_find m (fst p) = None then m @ [p] else m)"

text \<open>The constructor \<open>wvalue(const rvalue&)\<close>.\<close>

function wv_of_rvalue :: "'d fpops \<Rightarrow> rvalue \<Rightarrow> 'd wvalue" where
  "wv_of_rvalue fp RNull = WNull"
| "wv_of_rvalue fp RFalse = WFalse"
| "wv_of_rvalue fp RTrue = WTrue"
| "wv_of_rvalue fp (RNumber t) =
     (case determine_num_type t of
        Nt_Floating \<Rightarrow> WNumber (Floating_point (fp_read fp t))
      | Nt_Signed \<Rightarrow> WNumber (Signed_integer (lexical_cast_int64 t))
      | Nt_Unsigned \<Rightarrow> WNumber (Unsigned_integer (lexical_cast_uint64 t)))"
| "wv_of_rvalue fp (RString esc raw) = WString (rv_s esc raw)"
| "wv_of_rvalue fp (RList l) = WList (map (wv_of_rvalue fp) l)"
| "wv_of_rvalue fp (RObject m) =
     WObject (fold umap_emplace (map (\<lambda>(k, v). (k, wv_of_rvalue fp v)) m) [])"
  by pat_completeness auto
termination
  by (relation "measure (\<lambda>(fp, v). size v)") (auto simp: termination_simp)

section \<open>Unescaping inverts escaping\<close>

lemma from_hex_to_hex: "from_hex (to_hex n) = n mod 16"
  by (simp add: from_hex_def char_code_to_hex)

lemma is_hex_to_hex: "is_hex (to_hex n)"
proof -
  have "n mod 16 < 16" by simp
  then show ?thesis by (auto simp: is_hex_def isdigit_def char_code_to_hex)
qed

lemma from_hex_0: "from_hex (CHR ''0'') = 0"
  by (simp add: from_hex_def char_code_def)

lemma is_hex_0: "is_hex (CHR ''0'')"
  by (simp add: is_hex_def isdigit_def char_code_def)

lemma utf8_of_control: "char_code c < 32 \<Longrightarrow> utf8_of (char_code c) = [c]"
  by (simp add: utf8_of_def)

lemma unescape_escape_char: "unescape (escape_char c @ r) = c # unescape r"
  by (auto simp: escape_char_def from_hex_0 from_hex_to_hex utf8_of_control)

lemma unescape_escaped: "unescape (escaped s) = s"
  by (induction s) (simp_all add: unescape_escape_char)

definition has_escapes :: "string \<Rightarrow> bool" where
  "has_escapes s = list_ex (\<lambda>c. escape_char c \<noteq> [c]) s"

lemma no_escapes: "\<not> has_escapes s \<Longrightarrow> escaped s = s"
  by (induction s) (auto simp: has_escapes_def)

lemma rv_s_escaped: "rv_s (has_escapes s) (escaped s) = s"
  by (simp add: rv_s_def unescape_escaped no_escapes)

lemma string_loop_escape_char:
  "string_loop esc raw (escape_char c @ r) = string_loop (esc \<or> escape_char c \<noteq> [c]) (raw @ escape_char c) r"
proof (cases "escape_char c = [c]")
  case True
  then have "c \<noteq> CHR 0x22 \<and> c \<noteq> CHR 0x5C \<and> c \<noteq> CHR 0x00"
    by (auto simp: escape_char_def char_code_def split: if_splits)
  with True show ?thesis by simp
next
  case False
  then show ?thesis
    by (auto simp: escape_char_def is_hex_0 is_hex_to_hex split: if_splits)
qed

lemma string_loop_escaped:
  "string_loop esc raw (escaped s @ CHR 0x22 # r) = Some (RString (esc \<or> has_escapes s) (raw @ escaped s), r)"
proof (induction s arbitrary: esc raw)
  case Nil
  then show ?case by (simp add: has_escapes_def)
next
  case (Cons c s)
  then show ?case
    by (simp add: string_loop_escape_char has_escapes_def)
qed

lemma decode_dump_string: "decode_string (dump_string s @ r) = Some (RString (has_escapes s) (escaped s), r)"
  by (simp add: decode_string_def consume_def peek_def dump_string_def string_loop_escaped)

section \<open>Numbers\<close>

text \<open>What may follow a value inside a document, or nothing.\<close>

definition stops :: "string \<Rightarrow> bool" where
  "stops r \<longleftrightarrow> peek r \<in> {CHR 0x00, CHR '','', CHR '']'', CHR ''}''}"

lemma stops_next: "stops (c # r) \<Longrightarrow> num_next c st = None \<and> \<not> isdigit c"
  unfolding stops_def peek_def
  by (auto; simp add: num_next_def isdigit_def char_code_def)

lemma stops_ws: "stops r \<Longrightarrow> ws_skip r = r"
  by (cases r) (auto simp: stops_def peek_def ws_skip_def)

lemma number_loop_append:
  "number_loop st tx t = Some (RNumber x, []) \<Longrightarrow> stops r \<Longrightarrow>
   number_loop st tx (t @ r) = Some (RNumber x, r)"
proof (induction st tx t rule: number_loop.induct)
  case (1 st tx)
  then show ?case
    by (cases r) (auto simp: stops_next num_final_def split: if_splits)
next
  case (2 st tx c cs)
  have tw: "takeWhile isdigit (cs @ r) = takeWhile isdigit cs"
    and dw: "dropWhile isdigit (cs @ r) = dropWhile isdigit cs @ r"
    using stops_next[of "hd r" "tl r"] \<open>stops r\<close>
    by (induction cs) ((cases r; simp)+)
  show ?case
    using "2.prems" "2.IH" by (auto simp: tw dw split: option.splits if_splits)
qed

definition json_number :: "string \<Rightarrow> bool" where
  "json_number t \<longleftrightarrow> decode_number t = Some (RNumber t, [])"

lemma decode_number_append: "json_number t \<Longrightarrow> stops r \<Longrightarrow> decode_number (t @ r) = Some (RNumber t, r)"
  by (simp add: json_number_def decode_number_def number_loop_append)

lemma number_loop_digits:
  assumes "st \<in> {NMinus, AfterMinus}" and "\<forall>c \<in> set ds. isdigit c" and "ds \<noteq> []" and "hd ds = CHR ''0'' \<longrightarrow> ds = [CHR ''0'']"
  shows "number_loop st text ds = Some (RNumber (text @ ds), [])"
proof (cases "hd ds = CHR ''0''")
  case True
  with assms show ?thesis
    by (auto simp: num_next_def num_row_def num_states_def num_final_def)
next
  case False
  obtain d es where ds: "ds = d # es" using assms(3) by (cases ds) auto
  have run: "takeWhile isdigit es = es" "dropWhile isdigit es = []"
    using assms(2) ds by (simp_all add: takeWhile_eq_all_conv)
  show ?thesis
    using False assms(1,2) ds by (auto simp: run num_next_def num_row_def num_states_def num_final_def)
qed

lemma hd_show_nat_zero: "hd (show_nat n) = CHR ''0'' \<longrightarrow> show_nat n = [CHR ''0'']"
proof (induction n rule: show_nat.induct)
  case (1 n)
  show ?case
  proof (cases "n < 10")
    case True
    then show ?thesis by (simp add: show_nat.simps[of n])
  next
    case False
    have "hd (show_nat n) = hd (show_nat (n div 10))"
      using False by (simp add: show_nat.simps[of n])
    moreover have "hd (show_nat (n div 10)) \<noteq> CHR ''0''"
    proof
      assume "hd (show_nat (n div 10)) = CHR ''0''"
      with 1 False have "show_nat (n div 10) = [CHR ''0'']" by simp
      then have "n div 10 = 0"
        using digits_val_show_nat[of "n div 10"] by (simp add: char_code_def)
      with False show False by simp
    qed
    ultimately show ?thesis by simp
  qed
qed

lemma json_number_show_nat: "json_number (show_nat n)"
  using number_loop_digits[of NMinus "show_nat n" "[]"] show_nat_digits hd_show_nat_zero
  by (auto simp: json_number_def decode_number_def)

lemma json_number_show_int: "json_number (show_int v)"
proof (cases "v < 0")
  case True
  have "number_loop AfterMinus ''-'' (show_nat (nat (- v))) = Some (RNumber (''-'' @ show_nat (nat (- v))), [])"
    using show_nat_digits hd_show_nat_zero by (intro number_loop_digits) auto
  moreover have "num_next (CHR ''-'') NMinus = Some AfterMinus" "\<not> isdigit (CHR ''-'')"
    by (simp_all add: num_next_def isdigit_def char_code_def num_row_def num_states_def)
  ultimately show ?thesis
    using True by (simp add: json_number_def decode_number_def show_int_def)
next
  case False
  then show ?thesis using json_number_show_nat by (simp add: show_int_def)
qed

text \<open>A number starts with none of the characters that select another branch of \<open>decode_value\<close>.\<close>

lemma json_number_peek:
  "json_number t \<Longrightarrow> t \<noteq> [] \<and>
     (\<forall>r. peek (t @ r) \<notin> {CHR ''['', CHR ''{'', CHR 0x22, CHR ''t'', CHR ''f'', CHR ''n'', CHR 0x00})"
proof -
  assume a: "json_number t"
  then obtain c cs where t: "t = c # cs"
    by (cases t) (auto simp: json_number_def decode_number_def num_final_def)
  with a have "num_next c NMinus \<noteq> None"
    by (auto simp: json_number_def decode_number_def num_final_def split: option.splits)
  then show ?thesis
    by (auto simp: t peek_def num_next_def isdigit_def char_code_def split: if_splits)
qed

section \<open>Reading what was written\<close>

text \<open>The read value a dumped write value stands for.\<close>

function rv_of :: "'d fpops \<Rightarrow> 'd wvalue \<Rightarrow> rvalue" where
  "rv_of fp WNull = RNull"
| "rv_of fp WFalse = RFalse"
| "rv_of fp WTrue = RTrue"
| "rv_of fp (WNumber n) = (if dump_number fp n = ''null'' then RNull else RNumber (dump_number fp n))"
| "rv_of fp (WString s) = RString (has_escapes s) (escaped s)"
| "rv_of fp (WList l) = RList (map (rv_of fp) l)"
| "rv_of fp (WObject m) = RObject (map (\<lambda>(k, v). (k, rv_of fp v)) m)"
| "rv_of fp (WFunction f) = RNull"
  by pat_completeness auto
termination
  by (relation "measure (\<lambda>(fp, v). size v)") (auto simp: termination_simp)

text \<open>
  Values that print as JSON: no function inside, and every floating-point number prints a text of the
  JSON number grammar (or \<open>null\<close>).
\<close>

function prints_json :: "'d fpops \<Rightarrow> 'd wvalue \<Rightarrow> bool" where
  "prints_json fp WNull = True"
| "prints_json fp WFalse = True"
| "prints_json fp WTrue = True"
| "prints_json fp (WNumber n) = (dump_number fp n = ''null'' \<or> json_number (dump_number fp n))"
| "prints_json fp (WString s) = True"
| "prints_json fp (WList l) = list_all (prints_json fp) l"
| "prints_json fp (WObject m) = list_all (\<lambda>(k, v). prints_json fp v) m"
| "prints_json fp (WFunction f) = False"
  by pat_completeness auto
termination
  by (relation "measure (\<lambda>(fp, v). size v)") (auto simp: termination_simp)

function nesting :: "'d wvalue \<Rightarrow> nat" where
  "nesting (WList l) = Suc (fold max (map nesting l) 0)"
| "nesting (WObject m) = Suc (fold max (map (\<lambda>(k, v). nesting v) m) 0)"
| "nesting WNull = 0" | "nesting WFalse = 0" | "nesting WTrue = 0"
| "nesting (WNumber n) = 0" | "nesting (WString s) = 0" | "nesting (WFunction f) = 0"
  by pat_completeness auto
termination
  by (relation "measure size") (auto simp: termination_simp)

lemma nesting_list_mem: "x \<in> set l \<Longrightarrow> nesting x < nesting (WList l)"
  using fold_max_mem[of "nesting x" "map nesting l" 0] by simp

lemma nesting_object_mem: "(k, v) \<in> set m \<Longrightarrow> nesting v < nesting (WObject m)"
  using fold_max_mem[of "nesting v" "map (\<lambda>(k, v). nesting v) m" 0] by (force simp: less_Suc_eq_le)

lemma ws_skip_id: "peek s \<notin> {CHR '' '', CHR 0x09, CHR 0x0D, CHR 0x0A} \<Longrightarrow> ws_skip s = s"
  by (cases s) (auto simp: peek_def ws_skip_def)

text \<open>The text of a value starts with a character that is no white space, comma or closing bracket.\<close>

definition value_start :: "string \<Rightarrow> bool" where
  "value_start t \<longleftrightarrow> t \<noteq> [] \<and> hd t \<notin> {CHR '' '', CHR 0x09, CHR 0x0D, CHR 0x0A, CHR '','', CHR '']'', CHR ''}'', CHR 0x00}"

lemma value_start_append:
  "value_start t \<Longrightarrow> ws_skip (t @ r) = t @ r \<and> peek (t @ r) \<noteq> CHR '']'' \<and> peek (t @ r) \<noteq> CHR ''}''"
  by (cases t) (auto simp: value_start_def peek_def intro!: ws_skip_id)

lemma json_number_start: "json_number t \<Longrightarrow> value_start t"
proof -
  assume a: "json_number t"
  then obtain c cs where t: "t = c # cs"
    by (cases t) (auto simp: json_number_def decode_number_def num_final_def)
  with a have "num_next c NMinus \<noteq> None"
    by (auto simp: json_number_def decode_number_def num_final_def split: option.splits)
  then show ?thesis
    by (auto simp: t value_start_def num_next_def isdigit_def char_code_def split: if_splits)
qed

lemma dump_value_start:
  assumes "prints_json fp v"
  shows "value_start (dump_internal fp (- 1) sep lvl v)"
proof (cases v)
  case (WNumber n)
  show ?thesis
  proof (cases "dump_number fp n = ''null''")
    case True
    then show ?thesis by (simp add: WNumber value_start_def)
  next
    case False
    with assms WNumber have "json_number (dump_number fp n)" by simp
    then show ?thesis by (simp add: WNumber json_number_start)
  qed
qed (use assms in \<open>simp_all add: value_start_def dump_string_def\<close>)

lemma list_loop_dump:
  assumes "\<And>x r. x \<in> set l \<Longrightarrow> stops r \<Longrightarrow> dv (d + 1) (f x @ r) = Some (Some (g x, r))"
    and "\<And>x. x \<in> set l \<Longrightarrow> value_start (f x)" and "l \<noteq> []" and "length l \<le> m"
  shows "list_loop m dv d acc (join_with '','' (map f l) @ CHR '']'' # r) = Some (Some (RList (acc @ map g l), r))"
  using assms
proof (induction l arbitrary: acc m)
  case Nil
  then show ?case by simp
next
  case (Cons x l)
  obtain m' where m: "m = Suc m'" using Cons.prems(4) by (cases m) auto
  show ?case
  proof (cases l)
    case Nil
    then show ?thesis
      using Cons.prems(1)[of x "CHR '']'' # r"] by (simp add: m stops_def peek_def ws_skip_id)
  next
    case (Cons y ys)
    let ?rest = "join_with '','' (map f l) @ CHR '']'' # r"
    have "value_start (f y)" using Cons.prems(2) Cons by simp
    then have ws: "ws_skip ?rest = ?rest"
      using value_start_append[of "f y"] by (cases ys) (simp_all add: Cons)
    have "list_loop m' dv d (acc @ [g x]) ?rest = Some (Some (RList ((acc @ [g x]) @ map g l), r))"
      by (rule Cons.IH) (use Cons.prems Cons m in auto)
    then show ?thesis
      using Cons.prems(1)[of x "CHR '','' # ?rest"] ws
      by (simp add: m Cons stops_def peek_def ws_skip_id consume_def)
  qed
qed

lemma rv_key_escaped: "rv_key (RString (has_escapes k) (escaped k)) = k"
  by (simp add: rv_key_def rv_s_escaped)

lemma object_loop_dump:
  assumes "\<And>k v r. (k, v) \<in> set m \<Longrightarrow> stops r \<Longrightarrow> dv (d + 1) (f v @ r) = Some (Some (g v, r))"
    and "\<And>k v. (k, v) \<in> set m \<Longrightarrow> value_start (f v)" and "m \<noteq> []" and "length m \<le> n"
  shows "object_loop n dv d acc (join_with '','' (map (\<lambda>(k, v). dump_string k @ CHR '':'' # f v) m) @ CHR ''}'' # r)
    = Some (Some (RObject (acc @ map (\<lambda>(k, v). (k, g v)) m), r))"
  using assms
proof (induction m arbitrary: acc n)
  case Nil
  then show ?case by simp
next
  case (Cons p m)
  obtain k v where p: "p = (k, v)" by (cases p)
  obtain n' where n: "n = Suc n'" using Cons.prems(4) by (cases n) auto
  have ws: "ws_skip (f v @ q) = f v @ q" for q
    using value_start_append[of "f v"] Cons.prems(2)[of k v] p by simp
  have colon: "ws_skip (CHR '':'' # q) = CHR '':'' # q" for q
    by (rule ws_skip_id) (simp add: peek_def)
  show ?case
  proof (cases m)
    case Nil
    then show ?thesis
      using Cons.prems(1)[of k v "CHR ''}'' # r"]
      by (simp add: n p stops_def decode_dump_string colon ws consume_def)
        (simp add: peek_def ws_skip_id rv_key_escaped)
  next
    case (Cons q ms)
    obtain k' v' where q: "q = (k', v')" by (cases q)
    let ?rest = "join_with '','' (map (\<lambda>(k, v). dump_string k @ CHR '':'' # f v) m) @ CHR ''}'' # r"
    have "ws_skip (dump_string k' @ z) = dump_string k' @ z" for z
      by (rule ws_skip_id) (simp add: peek_def dump_string_def)
    then have wsr: "ws_skip ?rest = ?rest"
      by (cases ms) (simp_all add: Cons q)
    have "object_loop n' dv d (acc @ [(k, g v)]) ?rest
      = Some (Some (RObject ((acc @ [(k, g v)]) @ map (\<lambda>(k, v). (k, g v)) m), r))"
    proof (rule Cons.IH)
      show "value_start (f w)" if "(j, w) \<in> set m" for j w
        using Cons.prems(2)[of j w] that by simp
      show "dv (d + 1) (f w @ z) = Some (Some (g w, z))" if "(j, w) \<in> set m" "stops z" for j w z
        using Cons.prems(1)[of j w z] that by simp
    qed (use Cons.prems(4) Cons n in auto)
    then have rec: "object_loop n' dv d (acc @ [(k, g v)]) ?rest
      = Some (Some (RObject (acc @ (k, g v) # map (\<lambda>(k, v). (k, g v)) m), r))" by simp
    have dv: "dv (d + 1) (f v @ CHR '','' # ?rest) = Some (Some (g v, CHR '','' # ?rest))"
      by (rule Cons.prems(1)[of k]) (simp_all add: p stops_def peek_def)
    have comma: "ws_skip (CHR '','' # z) = CHR '','' # z" for z
      by (rule ws_skip_id) (simp add: peek_def)
    have join: "join_with '','' (map (\<lambda>(k, v). dump_string k @ CHR '':'' # f v) (p # m)) @ CHR ''}'' # r
      = dump_string k @ CHR '':'' # f v @ CHR '','' # ?rest"
      by (simp add: Cons p)
    show ?thesis
      unfolding join n object_loop.simps decode_dump_string
      using dv rec wsr by (simp add: colon comma ws consume_def peek_def rv_key_escaped p)
  qed
qed

text \<open>
  The parser reads a dumped value back, at any depth that leaves room for its nesting: a level of
  brackets costs two units of depth.
\<close>

lemma decode_dump:
  assumes "prints_json fp v" and "stops r" and "d + 2 * nesting v \<le> max_depth + 1"
    and "length (dump_internal fp (- 1) sep lvl v) < n"
  shows "decode_value n d (dump_internal fp (- 1) sep lvl v @ r) = Some (Some (rv_of fp v, r))"
  using assms
proof (induction v arbitrary: r d n lvl rule: wvalue.induct)
  case (WNumber x)
  obtain m where n: "n = Suc m" using WNumber.prems(4) by (cases n) auto
  show ?case
  proof (cases "dump_number fp x = ''null''")
    case True
    then show ?thesis by (simp add: n peek_def decode_word_def)
  next
    case False
    with WNumber.prems(1) have "json_number (dump_number fp x)" by simp
    with json_number_peek[OF this] decode_number_append[OF this WNumber.prems(2)] False
    show ?thesis by (simp add: n)
  qed
next
  case (WList l)
  obtain m where n: "n = Suc m" using WList.prems(4) by (cases n) auto
  let ?f = "dump_internal fp (- 1) sep (lvl + 1)"
  have len: "length (join_with '','' (map ?f l)) + 1 < m"
    using WList.prems(4) n by (simp add: dump_newline_def)
  have elem: "decode_value m (d + 1 + 1) (?f x @ q) = Some (Some (rv_of fp x, q))"
    if "x \<in> set l" "stops q" for x q
  proof (rule WList.IH)
    show "prints_json fp x" using WList.prems(1) that by (simp add: list_all_iff)
    show "d + 1 + 1 + 2 * nesting x \<le> max_depth + 1"
      using nesting_list_mem[OF that(1)] WList.prems(3) by linarith
    show "length (?f x) < m"
      using length_join_mem[of "?f x" "map ?f l" "'',''"] that(1) len by simp
  qed (use that in auto)
  have start: "value_start (?f x)" if "x \<in> set l" for x
    using WList.prems(1) that by (intro dump_value_start) (simp add: list_all_iff)
  have deep: "\<not> max_depth < d + 1" using WList.prems(3) by simp
  show ?case
  proof (cases "l = []")
    case True
    then show ?thesis
      using deep by (simp add: n peek_def decode_list_def consume_def dump_newline_def ws_skip_id)
  next
    case False
    then obtain x xs where l: "l = x # xs" by (cases l) auto
    let ?body = "join_with '','' (map ?f l) @ CHR '']'' # r"
    obtain z where body: "?body = ?f x @ z" by (cases xs) (auto simp: l)
    have b: "ws_skip ?body = ?body" "peek ?body \<noteq> CHR '']''"
      unfolding body using value_start_append[OF start[of x]] l by auto
    have "length l \<le> m"
      using length_join_count[of "map ?f l" "CHR '',''"] len by simp
    then have "list_loop m (decode_value m) (d + 1) [] ?body = Some (Some (RList ([] @ map (rv_of fp) l), r))"
      by (intro list_loop_dump elem start False) auto
    then show ?thesis
      using deep b by (simp add: n decode_list_def consume_def dump_newline_def) (simp add: peek_def)
  qed
next
  case (WObject mem)
  obtain m where n: "n = Suc m" using WObject.prems(4) by (cases n) auto
  let ?f = "dump_internal fp (- 1) sep (lvl + 1)"
  let ?member = "\<lambda>(k, v). dump_string k @ CHR '':'' # ?f v"
  have len: "length (join_with '','' (map ?member mem)) + 1 < m"
    using WObject.prems(4) n by (simp add: dump_newline_def)
  have elem: "decode_value m (d + 1 + 1) (?f v @ q) = Some (Some (rv_of fp v, q))"
    if "(k, v) \<in> set mem" "stops q" for k v q
  proof (rule WObject.IH)
    show "(k, v) \<in> set mem" "v \<in> Basic_BNFs.snds (k, v)" using that by auto
    show "prints_json fp v" using WObject.prems(1) that by (auto simp: list_all_iff)
    show "d + 1 + 1 + 2 * nesting v \<le> max_depth + 1"
      using nesting_object_mem[OF that(1)] WObject.prems(3) by linarith
    have "?member (k, v) \<in> set (map ?member mem)" 
      unfolding set_map using that(1) by (rule imageI)
    then show "length (?f v) < m"
      using length_join_mem[of "?member (k, v)" "map ?member mem" "'',''"] len by simp
  qed (use that in auto)
  have start: "value_start (?f v)" if "(k, v) \<in> set mem" for k v
    using WObject.prems(1) that by (intro dump_value_start) (auto simp: list_all_iff)
  have deep: "\<not> max_depth < d + 1" using WObject.prems(3) by simp
  show ?case
  proof (cases "mem = []")
    case True
    then show ?thesis
      using deep by (simp add: n peek_def decode_object_def consume_def dump_newline_def ws_skip_id)
  next
    case False
    then obtain k v xs where l: "mem = (k, v) # xs" by (cases mem) auto
    let ?body = "join_with '','' (map ?member mem) @ CHR ''}'' # r"
    obtain z where body: "?body = CHR 0x22 # z" by (cases xs) (auto simp: l dump_string_def)
    have b: "ws_skip ?body = ?body" "peek ?body \<noteq> CHR ''}''"
      unfolding body by (auto simp: peek_def intro!: ws_skip_id)
    have "length mem \<le> m"
      using length_join_count[of "map ?member mem" "CHR '',''"] len by simp
    then have "object_loop m (decode_value m) (d + 1) [] ?body
        = Some (Some (RObject ([] @ map (\<lambda>(k, v). (k, rv_of fp v)) mem), r))"
      by (intro object_loop_dump elem start False) auto
    then show ?thesis
      using deep b by (simp add: n decode_object_def consume_def dump_newline_def) (simp add: peek_def)
  qed
next
  case (WString s)
  then show ?case
    by (cases n) (simp_all add: decode_dump_string, simp add: dump_string_def peek_def)
qed (auto simp: peek_def decode_word_def gr0_conv_Suc less_iff_Suc_add)

section \<open>The parser returns\<close>

text \<open>Every step of the parser consumes input, and fuel beyond the length of the input is never used up.\<close>

lemma string_loop_shorter: "string_loop esc raw s = Some (v, r) \<Longrightarrow> length r < length s"
proof (induction esc raw s rule: string_loop.induct)
  case (2 esc raw c cs)
  then show ?case
    by (auto split: if_splits list.splits) (fastforce dest: less_SucI)+
qed simp

lemma decode_string_shorter: "decode_string s = Some (v, r) \<Longrightarrow> length r < length s"
  by (cases s) (auto simp: decode_string_def consume_def peek_def less_SucI
      split: option.splits if_splits dest!: string_loop_shorter)

lemma number_loop_shorter:
  "number_loop st tx s = Some (v, r) \<Longrightarrow> length r \<le> length s \<and> (length r = length s \<longrightarrow> num_final st)"
proof (induction st tx s rule: number_loop.induct)
  case (2 st tx c cs)
  have "length (dropWhile isdigit cs) \<le> length cs" by (rule length_dropWhile_le)
  with 2 show ?case
    by (auto split: if_splits option.splits)
qed (auto split: if_splits)

lemma decode_number_shorter: "decode_number s = Some (v, r) \<Longrightarrow> length r < length s"
  using number_loop_shorter[of NMinus "[]" s v r]
  by (auto simp: decode_number_def num_final_def le_less)

lemma ws_skip_length: "length (ws_skip s) \<le> length s"
  by (simp add: ws_skip_def length_dropWhile_le)

lemma consume_shorter: "consume c s = Some r \<Longrightarrow> c \<noteq> CHR 0x00 \<Longrightarrow> length r < length s"
  by (cases s) (auto simp: consume_def peek_def split: if_splits)

lemma consume_skip_shorter:
  "consume c (ws_skip s) = Some r \<Longrightarrow> c \<noteq> CHR 0x00 \<Longrightarrow> length (ws_skip r) < length s"
  using consume_shorter[of c "ws_skip s" r] ws_skip_length[of s] ws_skip_length[of r] by simp

lemma decode_word_shorter: "decode_word w v s = Some (u, r) \<Longrightarrow> w \<noteq> [] \<Longrightarrow> length r < length s"
  by (auto simp: decode_word_def prefix_def split: if_splits)

lemma tl_ws_skip_shorter: "length s < n \<Longrightarrow> length (tl (ws_skip s)) < n"
  using ws_skip_length[of s] by simp

lemma list_loop_total:
  assumes "\<And>s. length s \<le> k \<Longrightarrow> dv (d + 1) s \<noteq> None"
    and "\<And>s v r. length s \<le> k \<Longrightarrow> dv (d + 1) s = Some (Some (v, r)) \<Longrightarrow> length r < length s"
  shows "length s < n \<Longrightarrow> length s \<le> k \<Longrightarrow>
    list_loop n dv d acc s \<noteq> None \<and> (\<forall>v r. list_loop n dv d acc s = Some (Some (v, r)) \<longrightarrow> length r < length s)"
proof (induction n arbitrary: acc s)
  case (Suc n)
  show ?case
  proof (cases "\<exists>v s1. dv (d + 1) s = Some (Some (v, s1))")
    case False
    with assms(1)[OF Suc.prems(2)] have "dv (d + 1) s = Some None" by (cases "dv (d + 1) s"; simp) (metis option.exhaust surj_pair)
    then show ?thesis by simp
  next
    case True
    then obtain v s1 where dv: "dv (d + 1) s = Some (Some (v, s1))" by blast
    with assms(2) Suc.prems have s1: "length s1 < length s" by blast
    show ?thesis
    proof (cases "peek (ws_skip s1) = CHR '']''")
      case True
      then show ?thesis using dv tl_ws_skip_shorter[OF s1] by simp
    next
      case False
      show ?thesis
      proof (cases "consume (CHR '','') (ws_skip s1)")
        case None
        then show ?thesis using dv False by simp
      next
        case (Some s2)
        then have "length (ws_skip s2) < length s1"
          by (auto dest: consume_skip_shorter)
        with Suc.IH[of "ws_skip s2" "acc @ [v]"] Suc.prems s1 dv False Some show ?thesis
          by auto
      qed
    qed
  qed
qed simp

lemma object_loop_total:
  assumes "\<And>s. length s \<le> k \<Longrightarrow> dv (d + 1) s \<noteq> None"
    and "\<And>s v r. length s \<le> k \<Longrightarrow> dv (d + 1) s = Some (Some (v, r)) \<Longrightarrow> length r < length s"
  shows "length s < n \<Longrightarrow> length s \<le> k \<Longrightarrow>
    object_loop n dv d acc s \<noteq> None \<and> (\<forall>v r. object_loop n dv d acc s = Some (Some (v, r)) \<longrightarrow> length r < length s)"
proof (induction n arbitrary: acc s)
  case (Suc n)
  show ?case
  proof (cases "\<exists>t s1 s2. decode_string s = Some (t, s1) \<and> consume (CHR '':'') (ws_skip s1) = Some s2")
    case False
    then show ?thesis by (auto split: option.splits)
  next
    case True
    then obtain t s1 s2 where st: "decode_string s = Some (t, s1)" and c: "consume (CHR '':'') (ws_skip s1) = Some s2"
      by blast
    have s2: "length (ws_skip s2) < length s"
      using decode_string_shorter[OF st] consume_skip_shorter[OF c] by simp
    then have s2k: "length (ws_skip s2) \<le> k" using Suc.prems by simp
    show ?thesis
    proof (cases "\<exists>v s3. dv (d + 1) (ws_skip s2) = Some (Some (v, s3))")
      case False
      with assms(1)[OF s2k] have "dv (d + 1) (ws_skip s2) = Some None"
        by (cases "dv (d + 1) (ws_skip s2)"; simp) (metis option.exhaust surj_pair)
      then show ?thesis using st c by simp
    next
      case True
      then obtain v s3 where dv: "dv (d + 1) (ws_skip s2) = Some (Some (v, s3))" by blast
      with assms(2) s2k s2 have s3: "length s3 < length s" by fastforce
      show ?thesis
      proof (cases "peek (ws_skip s3) = CHR ''}''")
        case True
        then show ?thesis using st c dv tl_ws_skip_shorter[OF s3] by simp
      next
        case False
        show ?thesis
        proof (cases "consume (CHR '','') (ws_skip s3)")
          case None
          then show ?thesis using st c dv False by simp
        next
          case (Some s4)
          then have "length (ws_skip s4) < length s3"
            by (auto dest: consume_skip_shorter)
          with Suc.IH[of "ws_skip s4" "acc @ [(rv_key t, v)]"] Suc.prems s3 st c dv False Some show ?thesis
            by auto
        qed
      qed
    qed
  qed
qed simp

lemma decode_value_total:
  "length s < n \<Longrightarrow> decode_value n d s \<noteq> None
     \<and> (\<forall>v r. decode_value n d s = Some (Some (v, r)) \<longrightarrow> length r < length s)"
proof (induction n arbitrary: d s rule: less_induct)
  case (less n)
  then obtain m where n: "n = Suc m" by (cases n) auto
  have IH: "decode_value m e t \<noteq> None" "\<And>v r. decode_value m e t = Some (Some (v, r)) \<Longrightarrow> length r < length t"
    if "length t < m" for e t
    using less.IH[of m t e] n that by auto
  consider (list) "peek s = CHR ''[''" | (obj) "peek s = CHR ''{''" | (other) "peek s \<noteq> CHR ''[''" "peek s \<noteq> CHR ''{''"
    by blast
  then show ?case
  proof cases
    case list
    then obtain cs where s: "s = CHR ''['' # cs" by (cases s) (auto simp: peek_def)
    have len: "length (ws_skip cs) < m" using less.prems ws_skip_length[of cs] by (simp add: s n)
    have "list_loop m (decode_value m) (d + 1) [] (ws_skip cs) \<noteq> None \<and>
        (\<forall>v r. list_loop m (decode_value m) (d + 1) [] (ws_skip cs) = Some (Some (v, r)) \<longrightarrow> length r < length (ws_skip cs))"
      by (rule list_loop_total[of "length (ws_skip cs)"]) (use IH len in auto)
    then show ?thesis
      using list tl_ws_skip_shorter[of cs "Suc (length cs)"] ws_skip_length[of cs]
      by (auto simp: n s decode_list_def consume_def peek_def dest: less_le_trans split: if_splits)
  next
    case obj
    then obtain cs where s: "s = CHR ''{'' # cs" by (cases s) (auto simp: peek_def)
    have len: "length (ws_skip cs) < m" using less.prems ws_skip_length[of cs] by (simp add: s n)
    have "object_loop m (decode_value m) (d + 1) [] (ws_skip cs) \<noteq> None \<and>
        (\<forall>v r. object_loop m (decode_value m) (d + 1) [] (ws_skip cs) = Some (Some (v, r)) \<longrightarrow> length r < length (ws_skip cs))"
      by (rule object_loop_total[of "length (ws_skip cs)"]) (use IH len in auto)
    then show ?thesis
      using obj tl_ws_skip_shorter[of cs "Suc (length cs)"] ws_skip_length[of cs]
      by (auto simp: n s decode_object_def consume_def peek_def dest: less_le_trans split: if_splits)
  next
    case other
    then show ?thesis
      by (auto simp: n dest: decode_string_shorter decode_word_shorter decode_number_shorter)
  qed
qed

lemma list_loop_more_fuel:
  assumes "\<And>s x. dv (d + 1) s = Some x \<Longrightarrow> dv' (d + 1) s = Some x" and "n \<le> n'"
  shows "list_loop n dv d acc s = Some x \<Longrightarrow> list_loop n' dv' d acc s = Some x"
  using assms(2)
proof (induction n arbitrary: acc s n')
  case (Suc n)
  obtain k where n': "n' = Suc k" "n \<le> k" using Suc.prems(2) by (cases n') auto
  from Suc.prems(1) obtain y where dv: "dv (d + 1) s = Some y" by (cases "dv (d + 1) s") auto
  with assms(1) have dv': "dv' (d + 1) s = Some y" by blast
  from Suc.prems(1) dv dv' Suc.IH[OF _ n'(2)] show ?case
    by (auto simp: n'(1) split: option.splits if_splits)
qed simp

lemma object_loop_more_fuel:
  assumes "\<And>s x. dv (d + 1) s = Some x \<Longrightarrow> dv' (d + 1) s = Some x" and "n \<le> n'"
  shows "object_loop n dv d acc s = Some x \<Longrightarrow> object_loop n' dv' d acc s = Some x"
  using assms(2)
proof (induction n arbitrary: acc s n')
  case (Suc n)
  obtain k where n': "n' = Suc k" "n \<le> k" using Suc.prems(2) by (cases n') auto
  show ?case
  proof (cases "\<exists>t s1 s2. decode_string s = Some (t, s1) \<and> consume (CHR '':'') (ws_skip s1) = Some s2")
    case False
    then show ?thesis using Suc.prems(1) by (auto simp: n'(1) split: option.splits)
  next
    case True
    then obtain t s1 s2 where st: "decode_string s = Some (t, s1)" "consume (CHR '':'') (ws_skip s1) = Some s2"
      by blast
    from Suc.prems(1) st obtain y where dv: "dv (d + 1) (ws_skip s2) = Some y"
      by (cases "dv (d + 1) (ws_skip s2)") auto
    with assms(1) have dv': "dv' (d + 1) (ws_skip s2) = Some y" by blast
    from Suc.prems(1) st dv dv' Suc.IH[OF _ n'(2)] show ?thesis
      by (auto simp: n'(1) split: option.splits if_splits)
  qed
qed simp

lemma decode_value_more_fuel:
  "decode_value n d s = Some x \<Longrightarrow> n \<le> n' \<Longrightarrow> decode_value n' d s = Some x"
proof (induction n arbitrary: d s x n')
  case (Suc n)
  obtain k where n': "n' = Suc k" "n \<le> k" using Suc.prems(2) by (cases n') auto
  have dv: "decode_value n e t = Some y \<Longrightarrow> decode_value k e t = Some y" for e t y
    using Suc.IH n'(2) by blast
  have l: "decode_list n (decode_value n) (d + 1) s = Some x \<Longrightarrow> decode_list k (decode_value k) (d + 1) s = Some x"
    using list_loop_more_fuel[of "decode_value n" "d + 1" "decode_value k" n k "[]"] dv n'(2)
    by (auto simp: decode_list_def split: option.splits if_splits)
  have o': "decode_object n (decode_value n) (d + 1) s = Some x \<Longrightarrow> decode_object k (decode_value k) (d + 1) s = Some x"
    using object_loop_more_fuel[of "decode_value n" "d + 1" "decode_value k" n k "[]"] dv n'(2)
    by (auto simp: decode_object_def split: option.splits if_splits)
  show ?case using Suc.prems(1) l o' by (auto simp: n'(1) split: if_splits)
qed simp

section \<open>Nesting\<close>

function rv_nesting :: "rvalue \<Rightarrow> nat" where
  "rv_nesting (RList l) = Suc (fold max (map rv_nesting l) 0)"
| "rv_nesting (RObject m) = Suc (fold max (map (\<lambda>(k, v). rv_nesting v) m) 0)"
| "rv_nesting RNull = 0" | "rv_nesting RFalse = 0" | "rv_nesting RTrue = 0"
| "rv_nesting (RNumber t) = 0" | "rv_nesting (RString esc t) = 0"
  by pat_completeness auto
termination
  by (relation "measure size") (auto simp: termination_simp)

lemma string_loop_flat: "string_loop esc raw s = Some (v, r) \<Longrightarrow> rv_nesting v = 0"
proof (induction s arbitrary: esc raw rule: length_induct)
  case (1 s)
  then have IH: "length t < length s \<Longrightarrow> string_loop e w t = Some (v, r) \<Longrightarrow> rv_nesting v = 0" for t e w
    by blast
  from 1(2) show ?case
    by (cases s) (auto split: if_splits list.splits elim!: IH[rotated])
qed

lemma number_loop_flat: "number_loop st tx s = Some (v, r) \<Longrightarrow> rv_nesting v = 0"
proof (induction st tx s rule: number_loop.induct)
  case (2 st tx c cs)
  then show ?case by (auto split: if_splits option.splits)
qed (auto split: if_splits)

lemma list_loop_elems:
  assumes "\<And>s v r. dv (d + 1) s = Some (Some (v, r)) \<Longrightarrow> P v"
  shows "list_loop n dv d acc s = Some (Some (x, r)) \<Longrightarrow> \<exists>vs. x = RList (acc @ vs) \<and> (\<forall>v \<in> set vs. P v)"
proof (induction n arbitrary: acc s)
  case (Suc n)
  from Suc.prems obtain v s1 where dv: "dv (d + 1) s = Some (Some (v, s1))"
    by (auto split: option.splits)
  have v: "P v" using assms[OF dv] .
  show ?case
  proof (cases "peek (ws_skip s1) = CHR '']''")
    case True
    with Suc.prems dv v show ?thesis by (intro exI[of _ "[v]"]) auto
  next
    case False
    with Suc.prems dv obtain s2 where "list_loop n dv d (acc @ [v]) (ws_skip s2) = Some (Some (x, r))"
      by (auto split: option.splits)
    from Suc.IH[OF this] obtain vs where "x = RList ((acc @ [v]) @ vs)" "\<forall>v \<in> set vs. P v" by blast
    with v show ?thesis by (intro exI[of _ "v # vs"]) simp
  qed
qed simp

lemma object_loop_elems:
  assumes "\<And>s v r. dv (d + 1) s = Some (Some (v, r)) \<Longrightarrow> P v"
  shows "object_loop n dv d acc s = Some (Some (x, r)) \<Longrightarrow> \<exists>ms. x = RObject (acc @ ms) \<and> (\<forall>(k, v) \<in> set ms. P v)"
proof (induction n arbitrary: acc s)
  case (Suc n)
  from Suc.prems obtain t v s2 s3 where dv: "dv (d + 1) (ws_skip s2) = Some (Some (v, s3))"
    and rest: "(if peek (ws_skip s3) = CHR ''}''
                    then Some (Some (RObject (acc @ [(rv_key t, v)]), tl (ws_skip s3)))
                    else (case consume (CHR '','') (ws_skip s3) of
                            None \<Rightarrow> Some None
                          | Some s4 \<Rightarrow> object_loop n dv d (acc @ [(rv_key t, v)]) (ws_skip s4))) = Some (Some (x, r))"
    by (auto split: option.splits prod.splits)
  have v: "P v" using assms[OF dv] .
  show ?case
  proof (cases "peek (ws_skip s3) = CHR ''}''")
    case True
    with rest v show ?thesis by (intro exI[of _ "[(rv_key t, v)]"]) auto
  next
    case False
    with rest obtain s4 where "object_loop n dv d (acc @ [(rv_key t, v)]) (ws_skip s4) = Some (Some (x, r))"
      by (auto split: option.splits)
    from Suc.IH[OF this] obtain ms where "x = RObject ((acc @ [(rv_key t, v)]) @ ms)" "\<forall>(k, v) \<in> set ms. P v" by blast
    with v show ?thesis by (intro exI[of _ "(rv_key t, v) # ms"]) simp
  qed
qed simp

lemma decode_value_nesting:
  "decode_value n d s = Some (Some (v, r)) \<Longrightarrow> rv_nesting v = 0 \<or> d + 2 * rv_nesting v \<le> max_depth + 1"
proof (induction n arbitrary: d s v r)
  case (Suc n)
  let ?P = "\<lambda>e w. rv_nesting w = 0 \<or> e + 2 * rv_nesting w \<le> max_depth + 1"
  have bound: "d + 2 * Suc (fold max ns 0) \<le> max_depth + 1"
    if "\<forall>x \<in> set ns. x = 0 \<or> d + 1 + 1 + 2 * x \<le> max_depth + 1" "\<not> max_depth < d + 1" for ns
  proof -
    have "fold max ns 0 \<le> (max_depth - d - 1) div 2"
      by (rule fold_max_least) (use that in fastforce)+
    with that(2) show ?thesis by simp
  qed
  have elem: "decode_value n (d + 1 + 1) t = Some (Some (w, q)) \<Longrightarrow> ?P (d + 1 + 1) w" for t w q
    by (rule Suc.IH)
  have l: "?P d v" if dl: "decode_list n (decode_value n) (d + 1) s = Some (Some (v, r))"
  proof (cases "v = RList []")
    case True
    with dl show ?thesis by (auto simp: decode_list_def split: option.splits if_splits)
  next
    case False
    with dl obtain t where ll: "list_loop n (decode_value n) (d + 1) [] t = Some (Some (v, r))"
      and deep: "\<not> max_depth < d + 1"
      by (auto simp: decode_list_def split: option.splits if_splits)
    have "\<exists>vs. v = RList ([] @ vs) \<and> (\<forall>w \<in> set vs. ?P (d + 1 + 1) w)"
      by (rule list_loop_elems[OF _ ll]) (rule elem)
    then obtain vs where v: "v = RList vs" "\<forall>w \<in> set vs. ?P (d + 1 + 1) w" by auto
    then show ?thesis using bound[of "map rv_nesting vs"] deep by simp
  qed
  have o': "?P d v" if do': "decode_object n (decode_value n) (d + 1) s = Some (Some (v, r))"
  proof (cases "v = RObject []")
    case True
    with do' show ?thesis by (auto simp: decode_object_def split: option.splits if_splits)
  next
    case False
    with do' obtain t where ll: "object_loop n (decode_value n) (d + 1) [] t = Some (Some (v, r))"
      and deep: "\<not> max_depth < d + 1"
      by (auto simp: decode_object_def split: option.splits if_splits)
    have "\<exists>ms. v = RObject ([] @ ms) \<and> (\<forall>(k, w) \<in> set ms. ?P (d + 1 + 1) w)"
      by (rule object_loop_elems[OF _ ll]) (rule elem)
    then obtain ms where v: "v = RObject ms" "\<forall>(k, w) \<in> set ms. ?P (d + 1 + 1) w" by auto
    then have "\<forall>x \<in> set (map (\<lambda>(k, v). rv_nesting v) ms). x = 0 \<or> d + 1 + 1 + 2 * x \<le> max_depth + 1"
      by fastforce
    with v show ?thesis using bound deep by simp
  qed
  from Suc.prems show ?case
    using l o' by (auto simp: decode_string_def decode_word_def decode_number_def
        split: if_splits option.splits dest: string_loop_flat number_loop_flat)
qed simp

section \<open>Write values from read values\<close>

text \<open>
  Values without floating-point numbers and functions, with 64-bit integers and no repeated member;
  the same value with its non-negative integers as unsigned ones.
\<close>

function wv_plain :: "'d wvalue \<Rightarrow> bool" where
  "wv_plain (WNumber n) = (case n of Signed_integer i \<Rightarrow> - (2 ^ 63) \<le> i \<and> i < 2 ^ 63
                                | Unsigned_integer k \<Rightarrow> k < 2 ^ 64 | _ \<Rightarrow> False)"
| "wv_plain (WList l) = list_all wv_plain l"
| "wv_plain (WObject m) = (distinct (map fst m) \<and> list_all (\<lambda>(k, v). wv_plain v) m)"
| "wv_plain (WFunction f) = False"
| "wv_plain WNull = True" | "wv_plain WFalse = True" | "wv_plain WTrue = True" | "wv_plain (WString s) = True"
  by pat_completeness auto
termination
  by (relation "measure size") (auto simp: termination_simp)

definition num_unsigned :: "'d json_num \<Rightarrow> 'd json_num" where
  "num_unsigned n = (case n of Signed_integer i \<Rightarrow> if 0 \<le> i then Unsigned_integer (nat i) else n | _ \<Rightarrow> n)"

function wv_unsigned :: "'d wvalue \<Rightarrow> 'd wvalue" where
  "wv_unsigned (WNumber n) = WNumber (num_unsigned n)"
| "wv_unsigned (WList l) = WList (map wv_unsigned l)"
| "wv_unsigned (WObject m) = WObject (map (\<lambda>(k, v). (k, wv_unsigned v)) m)"
| "wv_unsigned WNull = WNull" | "wv_unsigned WFalse = WFalse" | "wv_unsigned WTrue = WTrue"
| "wv_unsigned (WString s) = WString s" | "wv_unsigned (WFunction f) = WFunction f"
  by pat_completeness auto
termination
  by (relation "measure size") (auto simp: termination_simp)

lemma digits_no_marks:
  "\<forall>c \<in> set t. isdigit c \<Longrightarrow> CHR ''-'' \<notin> set t \<and> CHR ''e'' \<notin> set t \<and> CHR ''E'' \<notin> set t \<and> CHR ''.'' \<notin> set t"
  by (auto simp: isdigit_def char_code_def)

lemma takeWhile_show_nat: "takeWhile isdigit (show_nat n) = show_nat n"
  using show_nat_digits by (simp add: takeWhile_eq_all_conv)

lemma num_type_show_nat: "determine_num_type (show_nat n) = Nt_Unsigned"
  using digits_no_marks[of "show_nat n"] show_nat_digits by (simp add: determine_num_type_def Let_def)

lemma num_type_show_neg: "determine_num_type (CHR ''-'' # show_nat n) = Nt_Signed"
  using digits_no_marks[of "show_nat n"] show_nat_digits by (simp add: determine_num_type_def Let_def)

lemma show_not_null: "show_nat n \<noteq> ''null''" "show_int i \<noteq> ''null''"
  using show_nat_digits[of "CHR ''u''" n] set_show_int[of "CHR ''u''" i]
  by (auto simp: isdigit_def char_code_def)

lemma wv_plain_prints: "wv_plain v \<Longrightarrow> prints_json fp v"
proof (induction v rule: wvalue.induct)
  case (WNumber x)
  then show ?case by (cases x) (simp_all add: dump_number_def json_number_show_int json_number_show_nat)
next
  case (WObject m)
  then show ?case by (fastforce simp: list_all_iff)
qed (auto simp: list_all_iff)

lemma fold_umap_emplace:
  "distinct (map fst (acc @ m)) \<Longrightarrow> fold umap_emplace m acc = acc @ m"
proof (induction m arbitrary: acc)
  case (Cons p m)
  then have "umap_find acc (fst p) = None"
    by (auto simp: umap_find_def map_of_eq_None_iff)
  with Cons show ?case by (simp add: umap_emplace_def)
qed simp

lemma wv_of_rv_of: "wv_plain v \<Longrightarrow> wv_of_rvalue fp (rv_of fp v) = wv_unsigned v"
proof (induction v rule: wvalue.induct)
  case (WNumber x)
  show ?case
  proof (cases x)
    case (Signed_integer i)
    with WNumber show ?thesis
      using digits_val_show_nat[of "nat (- i)"]
      by (cases "i < 0") (simp_all add: dump_number_def show_not_null show_int_def num_type_show_nat num_type_show_neg
          lexical_cast_int64_def lexical_cast_uint64_def peek_def takeWhile_show_nat digits_val_show_nat num_unsigned_def)
  next
    case (Unsigned_integer k)
    with WNumber show ?thesis
      by (simp add: dump_number_def show_not_null num_type_show_nat lexical_cast_uint64_def
          takeWhile_show_nat digits_val_show_nat num_unsigned_def)
  qed (use WNumber in auto)
next
  case (WList l)
  then show ?case by (auto simp: list_all_iff)
next
  case (WObject m)
  then have conv: "map (\<lambda>(k, v). (k, wv_of_rvalue fp v)) (map (\<lambda>(k, v). (k, rv_of fp v)) m)
      = map (\<lambda>(k, v). (k, wv_unsigned v)) m"
    by (fastforce simp: list_all_iff)
  have "map fst (map (\<lambda>(k, v). (k, wv_unsigned v)) m) = map fst m"
    by (auto simp: case_prod_beta)
  with WObject.prems have "distinct (map fst ([] @ map (\<lambda>(k, v). (k, wv_unsigned v)) m))"
    by (simp only: append_Nil wv_plain.simps)
  from fold_umap_emplace[OF this]
  show ?case by (simp only: rv_of.simps wv_of_rvalue.simps wv_unsigned.simps conv append_Nil)
qed (auto simp: rv_s_escaped)

lemma dump_number_unsigned: "dump_number fp (num_unsigned n) = dump_number fp n"
  by (simp add: num_unsigned_def dump_number_def show_int_def split: json_num.split)

lemma dump_wv_unsigned: "dump_internal fp i sep lvl (wv_unsigned v) = dump_internal fp i sep lvl v"
proof (induction v arbitrary: lvl rule: wvalue.induct)
  case (WList l)
  then have "map (dump_internal fp i sep (lvl + 1)) (map wv_unsigned l) = map (dump_internal fp i sep (lvl + 1)) l"
    by simp
  then show ?case by (simp only: wv_unsigned.simps dump_internal.simps)
next
  case (WObject m)
  let ?g = "\<lambda>(k, v). dump_string k @ '':'' @ (if 0 \<le> i then '' '' else []) @ dump_internal fp i sep (lvl + 1) v"
  have "map ?g (map (\<lambda>(k, v). (k, wv_unsigned v)) m) = map ?g m"
    using WObject by (fastforce simp: case_prod_beta)
  then show ?case by (simp only: wv_unsigned.simps dump_internal.simps)
qed (simp_all add: dump_number_unsigned)

section \<open>The number grammar\<close>

text \<open>The automaton one character at a time; the run that the loop skips stays in the same state.\<close>

fun num_run :: "num_state \<Rightarrow> string \<Rightarrow> bool" where
  "num_run st [] = num_final st"
| "num_run st (c # cs) =
     (st \<noteq> Invalid \<and> (case num_next c st of None \<Rightarrow> False | Some st' \<Rightarrow> num_run st' cs))"

lemma num_run_invalid [simp]: "\<not> num_run Invalid t"
  by (cases t) (simp_all add: num_final_def)

lemma num_run_skip:
  "st \<in> {Digits, DigitsAfterPoints, DigitsAfterE} \<Longrightarrow> num_run st t = num_run st (dropWhile isdigit t)"
proof (induction t)
  case (Cons c t)
  show ?case
  proof (cases "isdigit c")
    case True
    with Cons.prems have "num_next c st = Some st"
      by (auto simp: num_next_def num_row_def num_states_def)
    with Cons True show ?thesis by auto
  qed simp
qed simp

lemma number_loop_run: "number_loop st tx t = Some (v, []) \<longleftrightarrow> num_run st t \<and> v = RNumber (tx @ t)"
proof (induction st tx t rule: number_loop.induct)
  case (1 st tx)
  then show ?case by auto
next
  case (2 st tx c cs)
  show ?case
  proof (cases "st = Invalid \<or> num_next c st = None")
    case True
    then show ?thesis by (cases "st = Invalid") simp_all
  next
    case False
    then obtain st' where st: "st \<noteq> Invalid" "num_next c st = Some st'" by auto
    show ?thesis
    proof (cases "isdigit c \<and> c \<noteq> CHR ''0''")
      case True
      then have "st' \<in> {Digits, DigitsAfterPoints, DigitsAfterE, Invalid}"
        using st by (cases st) (auto simp: num_next_def num_row_def num_states_def)
      then have "num_run st' cs = num_run st' (dropWhile isdigit cs)"
        using num_run_skip[of st' cs] by (cases "st' = Invalid") (simp_all only: num_run_invalid, auto)
      then show ?thesis using st True "2.IH"(1)[OF st True] by auto
    next
      case no: False
      show ?thesis using st no "2.IH"(2)[OF st no] by auto
    qed
  qed
qed

lemma not_digit_marks [simp]:
  "\<not> isdigit (CHR ''.'')" "\<not> isdigit (CHR ''-'')" "\<not> isdigit (CHR ''+'')" "\<not> isdigit (CHR ''e'')"
  "\<not> isdigit (CHR ''E'')" "isdigit (CHR ''0'')"
  by (simp_all add: isdigit_def char_code_def)

lemma number_char_cases:
  obtains (zero) "c = CHR ''0''"
  | (digit) "isdigit c" "c \<noteq> CHR ''0''" "c \<noteq> CHR ''.''" "c \<noteq> CHR ''-''" "c \<noteq> CHR ''+''" "c \<noteq> CHR ''e''" "c \<noteq> CHR ''E''"
  | (point) "c = CHR ''.''" | (minus) "c = CHR ''-''" | (plus) "c = CHR ''+''"
  | (exp) "c = CHR ''e'' \<or> c = CHR ''E''"
  | (other) "\<not> isdigit c" "c \<noteq> CHR ''0''" "c \<noteq> CHR ''.''" "c \<noteq> CHR ''-''" "c \<noteq> CHR ''+''" "c \<noteq> CHR ''e''" "c \<noteq> CHR ''E''"
  by (metis not_digit_marks)

lemma num_run_step:
  "num_run DigitsAfterE (c # t) \<longleftrightarrow> isdigit c \<and> num_run DigitsAfterE t"
  "num_run NE (c # t) \<longleftrightarrow> (isdigit c \<or> c = CHR ''+'' \<or> c = CHR ''-'') \<and> num_run DigitsAfterE t"
  "num_run DigitsAfterPoints (c # t) \<longleftrightarrow>
     isdigit c \<and> num_run DigitsAfterPoints t \<or> (c = CHR ''e'' \<or> c = CHR ''E'') \<and> num_run NE t"
  "num_run Digits (c # t) \<longleftrightarrow>
     isdigit c \<and> num_run Digits t \<or> c = CHR ''.'' \<and> num_run DigitsAfterPoints t
     \<or> (c = CHR ''e'' \<or> c = CHR ''E'') \<and> num_run NE t"
  "num_run ZeroFirst (c # t) \<longleftrightarrow> c = CHR ''.'' \<and> num_run DigitsAfterPoints t"
  "num_run AfterMinus (c # t) \<longleftrightarrow>
     c = CHR ''0'' \<and> num_run ZeroFirst t \<or> isdigit c \<and> c \<noteq> CHR ''0'' \<and> num_run Digits t"
  "num_run NMinus (c # t) \<longleftrightarrow> c = CHR ''-'' \<and> num_run AfterMinus t \<or> num_run AfterMinus (c # t)"
  by (cases c rule: number_char_cases; auto simp: num_next_def num_row_def num_states_def)+

text \<open>The texts read from each state.\<close>

definition digits_only :: "string \<Rightarrow> bool" where
  "digits_only t = list_all isdigit t"

definition num_exp :: "string \<Rightarrow> bool" where
  "num_exp t \<longleftrightarrow> (\<exists>e ds. e \<in> {CHR ''e'', CHR ''E''} \<and> digits_only ds
     \<and> (t = e # ds \<and> ds \<noteq> [] \<or> t = e # CHR ''+'' # ds \<or> t = e # CHR ''-'' # ds))"

lemma run_after_e: "num_run DigitsAfterE t \<longleftrightarrow> digits_only t"
  by (induction t) (simp_all add: num_run_step digits_only_def num_final_def del: num_run.simps(2))

lemma run_e: "num_exp (c # t) \<longleftrightarrow> (c = CHR ''e'' \<or> c = CHR ''E'') \<and> num_run NE t"
proof -
  have "(\<exists>ds. digits_only ds \<and> (t = ds \<and> ds \<noteq> [] \<or> t = CHR ''+'' # ds \<or> t = CHR ''-'' # ds)) = num_run NE t"
  proof (cases t)
    case Nil
    then show ?thesis by (simp add: num_final_def)
  next
    case (Cons d ds)
    have "num_run NE t = ((isdigit d \<or> d = CHR ''+'' \<or> d = CHR ''-'') \<and> digits_only ds)"
      unfolding Cons num_run_step run_after_e ..
    moreover have "(\<exists>es. digits_only es \<and> (t = es \<and> es \<noteq> [] \<or> t = CHR ''+'' # es \<or> t = CHR ''-'' # es)) =
        ((isdigit d \<or> d = CHR ''+'' \<or> d = CHR ''-'') \<and> digits_only ds)"
      (is "?L = _")
    proof -
      have "?L = (digits_only t \<and> t \<noteq> [] \<or> (\<exists>es. digits_only es \<and> t = CHR ''+'' # es) \<or> (\<exists>es. digits_only es \<and> t = CHR ''-'' # es))"
        by blast
      then show ?thesis by (auto simp: Cons digits_only_def)
    qed
    ultimately show ?thesis by simp
  qed
  then show ?thesis unfolding num_exp_def by blast
qed

lemma num_run_digits:
  "digits_only ds \<Longrightarrow> st \<in> {Digits, DigitsAfterPoints, DigitsAfterE} \<Longrightarrow> num_run st (ds @ r) = num_run st r"
  using num_run_skip[of st "ds @ r"] num_run_skip[of st r]
  by (simp add: digits_only_def list_all_iff dropWhile_append)

lemma digits_split: "\<exists>ds r. t = ds @ r \<and> digits_only ds \<and> (r = [] \<or> \<not> isdigit (hd r))"
proof (intro exI conjI)
  show "t = takeWhile isdigit t @ dropWhile isdigit t" by simp
  show "digits_only (takeWhile isdigit t)"
    by (auto simp: digits_only_def list_all_iff dest: set_takeWhileD)
  show "dropWhile isdigit t = [] \<or> \<not> isdigit (hd (dropWhile isdigit t))"
    using hd_dropWhile by blast
qed

lemma num_exp_Nil [simp]: "\<not> num_exp []"
  by (simp add: num_exp_def)

lemma num_exp_head: "num_exp r \<Longrightarrow> \<exists>c t. r = c # t \<and> (c = CHR ''e'' \<or> c = CHR ''E'') \<and> num_run NE t"
  by (cases r) (auto simp: run_e)

lemma run_after_point:
  "num_run DigitsAfterPoints t \<longleftrightarrow> (\<exists>ds ex. t = ds @ ex \<and> digits_only ds \<and> (ex = [] \<or> num_exp ex))"
proof
  assume a: "num_run DigitsAfterPoints t"
  obtain ds r where t: "t = ds @ r" "digits_only ds" "r = [] \<or> \<not> isdigit (hd r)" using digits_split by blast
  with a have "num_run DigitsAfterPoints r" by (simp add: num_run_digits)
  with t(3) have "r = [] \<or> num_exp r"
    by (cases r) (auto simp: num_run_step run_e simp del: num_run.simps(2))
  with t show "\<exists>ds ex. t = ds @ ex \<and> digits_only ds \<and> (ex = [] \<or> num_exp ex)" by blast
next
  assume "\<exists>ds ex. t = ds @ ex \<and> digits_only ds \<and> (ex = [] \<or> num_exp ex)"
  then show "num_run DigitsAfterPoints t"
  proof clarify
    fix ds ex assume "digits_only ds" "ex = [] \<or> num_exp ex"
    then show "num_run DigitsAfterPoints (ds @ ex)"
      using num_run_digits[of ds DigitsAfterPoints ex]
      by (auto simp: num_run_step num_final_def dest!: num_exp_head simp del: num_run.simps(2))
  qed
qed

lemma run_digits:
  "num_run Digits t \<longleftrightarrow> (\<exists>ds fr ex. t = ds @ fr @ ex \<and> digits_only ds
     \<and> (fr = [] \<or> (\<exists>fs. fr = CHR ''.'' # fs \<and> digits_only fs)) \<and> (ex = [] \<or> num_exp ex))"
proof
  assume a: "num_run Digits t"
  obtain ds r where t: "t = ds @ r" "digits_only ds" "r = [] \<or> \<not> isdigit (hd r)" using digits_split by blast
  with a have "num_run Digits r" by (simp add: num_run_digits)
  then consider "r = []" | u where "r = CHR ''.'' # u" "num_run DigitsAfterPoints u" | "num_exp r"
    using t(3) by (cases r) (auto simp: num_run_step run_e simp del: num_run.simps(2))
  then show "\<exists>ds fr ex. t = ds @ fr @ ex \<and> digits_only ds
     \<and> (fr = [] \<or> (\<exists>fs. fr = CHR ''.'' # fs \<and> digits_only fs)) \<and> (ex = [] \<or> num_exp ex)"
  proof cases
    case 2
    then obtain fs ex where "u = fs @ ex" "digits_only fs" "ex = [] \<or> num_exp ex"
      by (auto simp: run_after_point)
    with t 2 show ?thesis
      by (intro exI[of _ ds] exI[of _ "CHR ''.'' # fs"] exI[of _ ex]) auto
  next
    case 1
    with t show ?thesis by (intro exI[of _ ds] exI[of _ "[]"]) simp
  next
    case 3
    with t show ?thesis by (intro exI[of _ ds] exI[of _ "[]"] exI[of _ r]) simp
  qed
next
  assume "\<exists>ds fr ex. t = ds @ fr @ ex \<and> digits_only ds
     \<and> (fr = [] \<or> (\<exists>fs. fr = CHR ''.'' # fs \<and> digits_only fs)) \<and> (ex = [] \<or> num_exp ex)"
  then obtain ds fr ex where t: "t = ds @ fr @ ex" "digits_only ds"
      "fr = [] \<or> (\<exists>fs. fr = CHR ''.'' # fs \<and> digits_only fs)" "ex = [] \<or> num_exp ex" by blast
  have "num_run Digits (fr @ ex)"
  proof (cases "fr = []")
    case True
    with t(4) show ?thesis
      by (auto simp: num_run_step dest!: num_exp_head simp del: num_run.simps(2)) (simp add: num_final_def)
  next
    case False
    with t(3) obtain fs where "fr = CHR ''.'' # fs" "digits_only fs" by blast
    with t(4) show ?thesis
      by (auto simp: num_run_step run_after_point simp del: num_run.simps(2))
  qed
  with t show "num_run Digits t" by (simp add: num_run_digits)
qed

text \<open>The unsigned part of a number.\<close>

definition num_body :: "string \<Rightarrow> bool" where
  "num_body t \<longleftrightarrow> (\<exists>ip fr ex. t = ip @ fr @ ex
     \<and> (ip = ''0'' \<or> ip \<noteq> [] \<and> digits_only ip \<and> hd ip \<noteq> CHR ''0'')
     \<and> (fr = [] \<or> (\<exists>fs. fr = CHR ''.'' # fs \<and> digits_only fs))
     \<and> (ex = [] \<or> num_exp ex) \<and> \<not> (ip = ''0'' \<and> fr = [] \<and> ex \<noteq> []))"

lemma run_zero:
  "num_run ZeroFirst t \<longleftrightarrow> t = [] \<or> (\<exists>fs ex. t = CHR ''.'' # fs @ ex \<and> digits_only fs \<and> (ex = [] \<or> num_exp ex))"
proof (cases t)
  case Nil
  then show ?thesis by (simp add: num_final_def)
next
  case (Cons c u)
  have "num_run ZeroFirst (c # u) \<longleftrightarrow> c = CHR ''.'' \<and> num_run DigitsAfterPoints u"
    by (rule num_run_step)
  then show ?thesis unfolding Cons run_after_point by blast
qed

lemma run_body: "num_run AfterMinus t \<longleftrightarrow> num_body t"
proof (cases t)
  case Nil
  then show ?thesis by (auto simp: num_final_def num_body_def)
next
  case (Cons c u)
  have step: "num_run AfterMinus t \<longleftrightarrow>
      c = CHR ''0'' \<and> num_run ZeroFirst u \<or> isdigit c \<and> c \<noteq> CHR ''0'' \<and> num_run Digits u"
    unfolding Cons by (rule num_run_step)
  show ?thesis
  proof
    assume "num_run AfterMinus t"
    then consider "c = CHR ''0''" "u = []"
      | fs ex where "c = CHR ''0''" "u = CHR ''.'' # fs @ ex" "digits_only fs" "ex = [] \<or> num_exp ex"
      | ds fr ex where "isdigit c" "c \<noteq> CHR ''0''" "u = ds @ fr @ ex" "digits_only ds"
          "fr = [] \<or> (\<exists>fs. fr = CHR ''.'' # fs \<and> digits_only fs)" "ex = [] \<or> num_exp ex"
      unfolding step run_zero run_digits by blast
    then show "num_body t"
    proof cases
      case 1
      then show ?thesis
        unfolding num_body_def Cons by (intro exI[of _ "''0''"] exI[of _ "[]"]) simp
    next
      case (2 fs ex)
      then show ?thesis
        unfolding num_body_def Cons by (intro exI[of _ "''0''"] exI[of _ "CHR ''.'' # fs"] exI[of _ ex]) simp
    next
      case (3 ds fr ex)
      then show ?thesis
        unfolding num_body_def Cons by (intro exI[of _ "c # ds"] exI[of _ fr] exI[of _ ex]) (simp add: digits_only_def)
    qed
  next
    assume "num_body t"
    then obtain ip fr ex where t: "t = ip @ fr @ ex"
      and ip: "ip = ''0'' \<or> ip \<noteq> [] \<and> digits_only ip \<and> hd ip \<noteq> CHR ''0''"
      and fr: "fr = [] \<or> (\<exists>fs. fr = CHR ''.'' # fs \<and> digits_only fs)" and ex: "ex = [] \<or> num_exp ex"
      and zero: "\<not> (ip = ''0'' \<and> fr = [] \<and> ex \<noteq> [])"
      unfolding num_body_def by blast
    from ip show "num_run AfterMinus t"
    proof
      assume z: "ip = ''0''"
      with t Cons have c: "c = CHR ''0''" "u = fr @ ex" by simp_all
      have "num_run ZeroFirst u"
      proof (cases "fr = []")
        case True
        with zero z c(2) show ?thesis by (auto simp: num_final_def)
      next
        case False
        with fr obtain fs where "u = CHR ''.'' # fs @ ex" "digits_only fs" using c(2) by auto
        with ex show ?thesis unfolding run_zero by blast
      qed
      with c show ?thesis unfolding step by blast
    next
      assume a: "ip \<noteq> [] \<and> digits_only ip \<and> hd ip \<noteq> CHR ''0''"
      then obtain ds where ds: "ip = c # ds" using t Cons by (cases ip) auto
      with a have "isdigit c" "c \<noteq> CHR ''0''" "digits_only ds" by (simp_all add: digits_only_def)
      moreover have "u = ds @ fr @ ex" using t Cons ds by simp
      ultimately show ?thesis unfolding step run_digits using fr ex by blast
    qed
  qed
qed

lemma run_number: "num_run NMinus t \<longleftrightarrow> num_body t \<or> (\<exists>u. t = CHR ''-'' # u \<and> num_body u)"
proof (cases t)
  case Nil
  then show ?thesis by (auto simp: num_final_def num_body_def)
next
  case (Cons c u)
  have "num_run NMinus (c # u) \<longleftrightarrow> c = CHR ''-'' \<and> num_run AfterMinus u \<or> num_run AfterMinus (c # u)"
    by (rule num_run_step)
  then show ?thesis unfolding Cons run_body by blast
qed

lemma number_text_examples:
  "decode_number ''1.'' = Some (RNumber ''1.'', [])"
  "decode_number ''2e+'' = Some (RNumber ''2e+'', [])"
  "decode_number ''0e5'' = None"
  by (simp_all add: decode_number_def num_next_def num_row_def num_states_def num_final_def isdigit_def char_code_def)

section \<open>Loading a dumped value\<close>

lemma load_dumped:
  assumes "prints_json fp v" and "nesting v \<le> 5000"
  shows "load (dump fp v) = Some (rv_of fp v)"
proof -
  let ?t = "dump_internal fp (- 1) (CHR '' '') 0 v"
  have "decode_value (length ?t + 1) 0 (?t @ []) = Some (Some (rv_of fp v, []))"
    by (rule decode_dump) (use assms in \<open>simp_all add: stops_def peek_def max_depth_def\<close>)
  moreover have "ws_skip ?t = ?t"
    using value_start_append[OF dump_value_start[OF assms(1)], of "CHR '' ''" 0 "[]"] by simp
  ultimately show ?thesis
    by (simp add: load_def load_fuel_def dump_def dump_indent_def) (simp add: ws_skip_def peek_def)
qed

lemma nesting_list_le: "(\<And>x. x \<in> set xs \<Longrightarrow> nesting (f x) \<le> n) \<Longrightarrow> nesting (WList (map f xs)) \<le> Suc n"
  by (auto intro!: fold_max_least)

section \<open>Properties\<close>

text \<open>C24. The JSON parser returns on every input: with fuel beyond the length of the text the result is
  a value or a syntax error, and it is the one \<open>load\<close> gives.
\<close>

theorem load_total: "load_fuel (length data + 1 + extra) data = Some (load data)"
proof -
  have "decode_value (length data + 1) 0 (ws_skip data) \<noteq> None"
    using decode_value_total[of "ws_skip data" "length data + 1" 0] ws_skip_length[of data] by simp
  then obtain x where x: "decode_value (length data + 1) 0 (ws_skip data) = Some x" by blast
  then have "decode_value (length data + 1 + extra) 0 (ws_skip data) = Some x"
    by (rule decode_value_more_fuel) simp
  with x show ?thesis
    by (auto simp: load_def load_fuel_def split: option.splits)
qed

text \<open>C34. Whatever the input, an accepted value is nested at most 5,000 levels deep: every level of
  brackets raises the depth counter twice, so the bound of 10,000 on the counter, and with it
  the recursion of the parser, is reached at half that nesting.
\<close>

theorem load_nesting_bound: "load data = Some v \<longrightarrow> rv_nesting v \<le> 5000"
proof
  assume "load data = Some v"
  then obtain r where "decode_value (length data + 1) 0 (ws_skip data) = Some (Some (v, r))"
    by (auto simp: load_def load_fuel_def split: option.splits if_splits)
  from decode_value_nesting[OF this] show "rv_nesting v \<le> 5000"
    by (auto simp: max_depth_def)
qed

theorem load_nesting_bound_witness: "rv_nesting (RList [RList []]) \<le> 5000"
proof -
  have "load ''[[]]'' = Some (RList [RList []])"
    by (simp add: load_def load_fuel_def ws_skip_def peek_def decode_list_def consume_def max_depth_def)
  with load_nesting_bound[of "''[[]]''" "RList [RList []]"] show ?thesis by simp
qed

text \<open>C18. Reading what the writer dumped gives the value back: structure and member order are
  unchanged, and every string and key is the original one after unescaping, whatever bytes it
  holds.  This needs the nesting to stay within the parser's bound, no function inside the value, and
  floating-point numbers that print in the parser's number grammar.
\<close>

theorem load_dump:
  assumes "prints_json fp v" and "nesting v \<le> 5000"
  shows "load (dump fp v) = Some (rv_of fp v)"
  using assms by (rule load_dumped)

theorem load_dump_witness:
  "load (dump (real_fp (\<lambda>_. None) (\<lambda>_. [])) (WList [wv_int (- 7), WString [CHR 0x22, CHR 0x0A]])) =
     Some (RList [RNumber ''-7'', RString True (escaped [CHR 0x22, CHR 0x0A])])"
proof -
  have c7: "char_of (55 :: nat) = CHR ''7''"
    by code_simp
  have d: "dump_number (real_fp (\<lambda>_. None) (\<lambda>_. [])) (Signed_integer (- 7)) = ''-7''"
    by (simp add: dump_number_def show_int_def show_nat.simps digit_char_def c7)
  have e: "has_escapes [CHR 0x22, CHR 0x0A]"
    by (simp add: has_escapes_def escape_char_def)
  show ?thesis
    using load_dump[of "real_fp (\<lambda>_. None) (\<lambda>_. [])" "WList [wv_int (- 7), WString [CHR 0x22, CHR 0x0A]]"]
      json_number_show_int[of "- 7"]
    by (simp add: wv_int_def d e) (simp add: show_int_def show_nat.simps digit_char_def c7)
qed

text \<open>A value of null, booleans, 64-bit integers, strings, lists and objects that is dumped, loaded and
  converted back to a write value is the same value, except that integers that are not negative
  come back unsigned; its dump is the same text.
\<close>

theorem reread_plain_value:
  assumes "wv_plain v" and "nesting v \<le> 5000"
  shows "map_option (wv_of_rvalue fp) (load (dump fp v)) = Some (wv_unsigned v)
    \<and> dump fp (wv_unsigned v) = dump fp v"
proof -
  have "prints_json fp v" using assms(1) by (rule wv_plain_prints)
  then have "load (dump fp v) = Some (rv_of fp v)" using assms(2) by (rule load_dumped)
  then show ?thesis
    using assms(1) by (simp add: wv_of_rv_of dump_def dump_indent_def dump_wv_unsigned)
qed

theorem reread_plain_value_witness:
  "map_option (wv_of_rvalue (real_fp (\<lambda>_. None) (\<lambda>_. [])))
     (load (dump (real_fp (\<lambda>_. None) (\<lambda>_. [])) (WObject [(''a'', wv_int 5), (''b'', WList [WNull, wv_int (- 1)])]))) =
   Some (WObject [(''a'', WNumber (Unsigned_integer 5)), (''b'', WList [WNull, wv_int (- 1)])])"
  using reread_plain_value[of "WObject [(''a'', wv_int 5), (''b'', WList [WNull, wv_int (- 1)])]"
      "real_fp (\<lambda>_. None) (\<lambda>_. [])"]
  by (simp add: wv_int_def num_unsigned_def)

text \<open>The number automaton accepts exactly this grammar: an optional minus, a zero or digits without a
  leading zero, an optional point with any number of digits, an optional exponent.  It deviates
  from JSON in three places: no digit is needed after the point or after a signed exponent, and a
  plain zero takes no exponent.
\<close>

theorem number_grammar:
  "decode_number t = Some (v, []) \<longleftrightarrow>
     v = RNumber t \<and> (num_body t \<or> (\<exists>u. t = CHR ''-'' # u \<and> num_body u))"
  by (auto simp: decode_number_def number_loop_run run_number)

end
