(* ===== verification/JsonAccess.thy ===== *)
theory JsonAccess
  imports JsonRead
begin

text \<open>
  The accessors of both halves of crow/json.h.  A read value is the parsed value or the error bit, and
  whether the members of the object have been sorted: the first lookup by key sorts them, the later
  ones only search.  An accessor on a value of another type throws a \<open>runtime_error\<close>, the left side
  of its result.  Of the write values: the estimate of the length that \<open>dump\<close> reserves, and
  \<open>wvalue_reader\<close>.
\<close>

section \<open>Read values and their types\<close>

datatype jtype = Null_type | False_type | True_type | Number_type | String_type | List_type | Object_type | Function_type

definition get_type_str :: "jtype \<Rightarrow> string" where
  "get_type_str t =
     (case t of Number_type \<Rightarrow> ''Number'' | False_type \<Rightarrow> ''False'' | True_type \<Rightarrow> ''True'' | List_type \<Rightarrow> ''List''
      | String_type \<Rightarrow> ''String'' | Object_type \<Rightarrow> ''Object'' | Function_type \<Rightarrow> ''Function'' | Null_type \<Rightarrow> ''Unknown'')"

record read_value =
  rd_value :: "rvalue option"     \<comment> \<open>\<open>None\<close>: the error bit is set\<close>
  rd_cached :: bool

definition rd_of :: "rvalue option \<Rightarrow> read_value" where
  "rd_of v = \<lparr> rd_value = v, rd_cached = False \<rparr>"

fun rv_type :: "rvalue \<Rightarrow> jtype" where
  "rv_type RNull = Null_type" | "rv_type RFalse = False_type" | "rv_type RTrue = True_type"
| "rv_type (RNumber t) = Number_type" | "rv_type (RString esc raw) = String_type"
| "rv_type (RList l) = List_type" | "rv_type (RObject m) = Object_type"

type_synonym 'a access = "string + 'a"

definition rd_t :: "read_value \<Rightarrow> jtype access" where
  "rd_t r = (case rd_value r of None \<Rightarrow> Inl ''invalid json object'' | Some v \<Rightarrow> Inr (rv_type v))"

text \<open>Every accessor asks for the type first.\<close>

definition with_value :: "read_value \<Rightarrow> (rvalue \<Rightarrow> 'a access) \<Rightarrow> 'a access" where
  "with_value r f = (case rd_value r of None \<Rightarrow> Inl ''invalid json object'' | Some v \<Rightarrow> f v)"

section \<open>Scalars\<close>

text \<open>Extraction from a stream: white space, a sign, digits.  A value out of range is the nearest in range.\<close>

definition stream_digits :: "string \<Rightarrow> bool \<times> nat" where
  "stream_digits t =
     (let t = dropWhile isspace t; neg = (peek t = CHR ''-'');
          t = (if neg \<or> peek t = CHR ''+'' then tl t else t)
      in (neg, digits_val 0 (takeWhile isdigit t)))"

definition stream_int64 :: "string \<Rightarrow> int" where
  "stream_int64 t =
     (case stream_digits t of (neg, n) \<Rightarrow>
        max (- (2 ^ 63)) (min (if neg then - int n else int n) (2 ^ 63 - 1)))"

definition stream_uint64 :: "string \<Rightarrow> nat" where
  "stream_uint64 t =
     (case stream_digits t of (neg, n) \<Rightarrow>
        if 2 ^ 64 \<le> n then 2 ^ 64 - 1 else if neg then (2 ^ 64 - n) mod 2 ^ 64 else n)"

definition rd_i :: "read_value \<Rightarrow> int access" where
  "rd_i r = with_value r (\<lambda>v.
     case v of RNumber t \<Rightarrow> Inr (stream_int64 t) | RString esc raw \<Rightarrow> Inr (stream_int64 raw)
     | _ \<Rightarrow> Inl (''expected number, got: '' @ get_type_str (rv_type v)))"

definition rd_u :: "read_value \<Rightarrow> nat access" where
  "rd_u r = with_value r (\<lambda>v.
     case v of RNumber t \<Rightarrow> Inr (stream_uint64 t) | RString esc raw \<Rightarrow> Inr (stream_uint64 raw)
     | _ \<Rightarrow> Inl (''expected number, got: '' @ get_type_str (rv_type v)))"

definition rd_int :: "read_value \<Rightarrow> int access" where
  "rd_int r = map_sum (\<lambda>e. e) to_int32 (rd_i r)"

definition rd_d :: "'d fpops \<Rightarrow> read_value \<Rightarrow> 'd access" where
  "rd_d fp r = with_value r (\<lambda>v. case v of RNumber t \<Rightarrow> Inr (fp_read fp t) | _ \<Rightarrow> Inl ''value is not number'')"

definition rd_b :: "read_value \<Rightarrow> bool access" where
  "rd_b r = with_value r (\<lambda>v.
     case v of RTrue \<Rightarrow> Inr True | RFalse \<Rightarrow> Inr False | _ \<Rightarrow> Inl ''value is not boolean'')"

definition rd_s :: "read_value \<Rightarrow> string access" where
  "rd_s r = with_value r (\<lambda>v. case v of RString esc raw \<Rightarrow> Inr (rv_s esc raw) | _ \<Rightarrow> Inl ''value is not string'')"

definition rd_string :: "read_value \<Rightarrow> string access" where
  "rd_string r = with_value r (\<lambda>v.
     case v of RObject m \<Rightarrow> Inl ''json type container'' | RList l \<Rightarrow> Inl ''json type container''
     | RString esc raw \<Rightarrow> Inr (rv_s esc raw) | RNull \<Rightarrow> Inr ''null'' | RTrue \<Rightarrow> Inr ''true'' | RFalse \<Rightarrow> Inr ''false''
     | RNumber t \<Rightarrow> Inr t)"

section \<open>Containers\<close>

definition rd_lo :: "read_value \<Rightarrow> rvalue list access" where
  "rd_lo r = with_value r (\<lambda>v.
     case v of RObject m \<Rightarrow> Inr (map snd m) | RList l \<Rightarrow> Inr l | _ \<Rightarrow> Inl ''value is not a container'')"

definition rd_size :: "read_value \<Rightarrow> nat access" where
  "rd_size r = with_value r (\<lambda>v.
     case v of RString esc raw \<Rightarrow> Inr (length (rv_s esc raw)) | RObject m \<Rightarrow> Inr (length m) | RList l \<Rightarrow> Inr (length l)
     | _ \<Rightarrow> Inl ''value is not a container'')"

definition rd_at_index :: "int \<Rightarrow> read_value \<Rightarrow> rvalue access" where
  "rd_at_index index r = with_value r (\<lambda>v.
     case v of RList l \<Rightarrow>
       if to_int32 (int (length l)) \<le> index \<or> index < 0 then Inl ''list out of bound'' else Inr (l ! nat index)
     | _ \<Rightarrow> Inl ''value is not a list'')"

definition rd_keys :: "read_value \<Rightarrow> string list access" where
  "rd_keys r = with_value r (\<lambda>v. case v of RObject m \<Rightarrow> Inr (map fst m) | _ \<Rightarrow> Inl ''value is not an object'')"

text \<open>Characters are signed, and so is the order of keys.\<close>

definition schar :: "char \<Rightarrow> int" where
  "schar c = (if char_code c < 128 then int (char_code c) else int (char_code c) - 256)"

definition r_string_less :: "string \<Rightarrow> string \<Rightarrow> bool" where
  "r_string_less l r \<longleftrightarrow> map schar l < map schar r"

definition member_less :: "string \<times> rvalue \<Rightarrow> string \<times> rvalue \<Rightarrow> bool" where
  "member_less l r = r_string_less (fst l) (fst r)"

text \<open>\<open>std::lower_bound\<close>: the first element that is not before the value, by halving.\<close>

function lower_bound :: "('a \<Rightarrow> bool) \<Rightarrow> 'a list \<Rightarrow> nat \<Rightarrow> nat \<Rightarrow> nat" where
  "lower_bound before xs first len =
     (if len = 0 then first
      else let half = len div 2
           in if before (xs ! (first + half)) then lower_bound before xs (first + half + 1) (len - half - 1)
              else lower_bound before xs first half)"
  by pat_completeness auto
termination by (relation "measure (\<lambda>(_, _, _, len). len)") auto

declare lower_bound.simps [simp del]

definition sorted_members :: "bool \<Rightarrow> (string \<times> rvalue) list \<Rightarrow> (string \<times> rvalue) list" where
  "sorted_members cached m = (if cached then m else std_sort member_less m)"

definition search_members :: "string \<Rightarrow> (string \<times> rvalue) list \<Rightarrow> rvalue option" where
  "search_members str m =
     (let it = lower_bound (\<lambda>l. r_string_less (fst l) str) m 0 (length m)
      in if it \<noteq> length m \<and> fst (m ! it) = str then Some (snd (m ! it)) else None)"

text \<open>
  The keys of the elements of a list are never initialised, so \<open>has\<close> on a list that is not empty compares
  unspecified pointers: \<open>None\<close>.
\<close>

definition rd_has :: "string \<Rightarrow> read_value \<Rightarrow> (bool access \<times> read_value) option" where
  "rd_has str r =
     (case rd_value r of
        None \<Rightarrow> Some (Inl ''invalid json object'', r)
      | Some (RObject m) \<Rightarrow>
          (let m = sorted_members (rd_cached r) m
           in Some (Inr (search_members str m \<noteq> None), \<lparr> rd_value = Some (RObject m), rd_cached = True \<rparr>))
      | Some (RList l) \<Rightarrow> if l = [] then Some (Inr False, r\<lparr>rd_cached := True\<rparr>) else None
      | Some _ \<Rightarrow> Some (Inl ''value is not a container'', r))"

definition rd_count :: "string \<Rightarrow> read_value \<Rightarrow> (nat access \<times> read_value) option" where
  "rd_count str r = map_option (map_prod (map_sum (\<lambda>e. e) of_bool) (\<lambda>r. r)) (rd_has str r)"

definition rd_at_key :: "string \<Rightarrow> read_value \<Rightarrow> rvalue access \<times> read_value" where
  "rd_at_key str r =
     (case rd_value r of
        None \<Rightarrow> (Inl ''invalid json object'', r)
      | Some (RObject m) \<Rightarrow>
          (let m = sorted_members (rd_cached r) m
           in (case search_members str m of Some v \<Rightarrow> Inr v | None \<Rightarrow> Inl (''cannot find key: '' @ str),
               \<lparr> rd_value = Some (RObject m), rd_cached = True \<rparr>))
      | Some _ \<Rightarrow> (Inl ''value is not an object'', r))"

text \<open>Printing to a stream: keys are escaped again, strings are not.\<close>

function rv_print :: "'d fpops \<Rightarrow> rvalue \<Rightarrow> string" where
  "rv_print fp RNull = ''null''"
| "rv_print fp RFalse = ''false''"
| "rv_print fp RTrue = ''true''"
| "rv_print fp (RNumber t) =
     (case determine_num_type t of
        Nt_Floating \<Rightarrow> fp_stream fp (fp_read fp t)
      | Nt_Signed \<Rightarrow> show_int (stream_int64 t)
      | Nt_Unsigned \<Rightarrow> show_nat (stream_uint64 t))"
| "rv_print fp (RString esc raw) = CHR 0x22 # rv_s esc raw @ [CHR 0x22]"
| "rv_print fp (RList l) = ''['' @ join_with '','' (map (rv_print fp) l) @ '']''"
| "rv_print fp (RObject m) =
     ''{'' @ join_with '','' (map (\<lambda>(k, v). CHR 0x22 # escape k [] @ [CHR 0x22, CHR '':''] @ rv_print fp v) m) @ ''}''"
  by pat_completeness auto
termination
  by (relation "measure (\<lambda>(fp, v). size v)") (auto simp: termination_simp)

section \<open>Of write values\<close>

function estimate_length :: "'d wvalue \<Rightarrow> nat" where
  "estimate_length WNull = 4"
| "estimate_length WFalse = 5"
| "estimate_length WTrue = 4"
| "estimate_length (WNumber n) = 30"
| "estimate_length (WString s) = 2 + length s + length s div 2"
| "estimate_length (WList l) = sum_list (map (\<lambda>x. 1 + estimate_length x) l) + 2"
| "estimate_length (WObject m) =
     sum_list (map (\<lambda>(k, v). 2 + (2 + length k + length k div 2) + estimate_length v) m) + 2"
| "estimate_length (WFunction f) = 0"
  by pat_completeness auto
termination
  by (relation "measure size") (auto simp: termination_simp)

text \<open>\<open>wvalue_reader::get\<close>, by the type of its fallback; an unsigned number is read as the signed one with its bits.\<close>

definition get_int64 :: "'d wvalue \<Rightarrow> int \<Rightarrow> int" where
  "get_int64 w fallback =
     (case w of WNumber (Signed_integer si) \<Rightarrow> si | WNumber (Unsigned_integer ui) \<Rightarrow> signed_take_bit 63 (int ui)
      | _ \<Rightarrow> fallback)"

definition get_double :: "'d wvalue \<Rightarrow> 'd \<Rightarrow> 'd" where
  "get_double w fallback = (case w of WNumber (Floating_point d) \<Rightarrow> d | _ \<Rightarrow> fallback)"

definition get_bool :: "'d wvalue \<Rightarrow> bool \<Rightarrow> bool" where
  "get_bool w fallback = (case w of WTrue \<Rightarrow> True | WFalse \<Rightarrow> False | _ \<Rightarrow> fallback)"

definition get_string :: "'d wvalue \<Rightarrow> string \<Rightarrow> string" where
  "get_string w fallback = (case w of WString s \<Rightarrow> s | _ \<Rightarrow> fallback)"

section \<open>The search\<close>

text \<open>On a range in which everything before the boundary comes first, halving finds the boundary.\<close>

lemma lower_bound_boundary:
  assumes "\<forall>i < length xs. before (xs ! i) \<longleftrightarrow> i < b" "b \<le> length xs" "first \<le> b" "b \<le> first + len" "first + len \<le> length xs"
  shows "lower_bound before xs first len = b"
  using assms
proof (induction before xs first len rule: lower_bound.induct)
  case (1 before xs first len)
  let ?half = "len div 2"
  show ?case
  proof (cases "len = 0")
    case False
    then have h: "first + ?half < length xs" using "1.prems"(5) by linarith
    then have iff: "before (xs ! (first + ?half)) \<longleftrightarrow> first + ?half < b" using "1.prems"(1) by blast
    show ?thesis
    proof (cases "before (xs ! (first + ?half))")
      case True
      then have "lower_bound before xs (first + ?half + 1) (len - ?half - 1) = b"
        using "1.IH"(1)[OF False refl True] "1.prems" iff by simp
      then show ?thesis using True False by (subst lower_bound.simps) (simp add: Let_def)
    next
      case no: False
      then have "lower_bound before xs first ?half = b" using "1.IH"(2)[OF False refl no] "1.prems" iff by simp
      then show ?thesis using no False by (subst lower_bound.simps) (simp add: Let_def)
    qed
  next
    case True
    then show ?thesis using "1.prems"(3,4) by (subst lower_bound.simps) simp
  qed
qed

definition comes_first :: "('a \<Rightarrow> bool) \<Rightarrow> 'a list \<Rightarrow> bool" where
  "comes_first before xs \<longleftrightarrow> (\<forall>j < length xs. \<forall>i < j. before (xs ! j) \<longrightarrow> before (xs ! i))"

lemma takeWhile_boundary:
  assumes "comes_first before xs" "i < length xs"
  shows "before (xs ! i) \<longleftrightarrow> i < length (takeWhile before xs)"
proof
  assume b: "before (xs ! i)"
  show "i < length (takeWhile before xs)"
  proof (rule ccontr)
    let ?n = "length (takeWhile before xs)"
    assume "\<not> i < ?n"
    then have "?n < length xs" "?n \<le> i" using assms(2) by linarith+
    then have "\<not> before (xs ! ?n)" using nth_length_takeWhile by blast
    moreover have "before (xs ! ?n)"
      using b assms \<open>?n \<le> i\<close> by (cases "?n = i") (auto simp: comes_first_def)
    ultimately show False by blast
  qed
next
  assume "i < length (takeWhile before xs)"
  then show "before (xs ! i)" by (metis nth_mem set_takeWhileD takeWhile_nth)
qed

lemma lower_bound_takeWhile:
  "comes_first before xs \<Longrightarrow> lower_bound before xs 0 (length xs) = length (takeWhile before xs)"
  by (rule lower_bound_boundary) (simp_all add: takeWhile_boundary length_takeWhile_le)

section \<open>Keys in order\<close>

lemma schar_inj: "schar c = schar d \<longleftrightarrow> c = d"
proof -
  have "char_code c < 256" "char_code d < 256" by (simp_all add: char_code_def)
  then have "schar c = schar d \<longleftrightarrow> char_code c = char_code d" unfolding schar_def by presburger
  then show ?thesis by (simp add: char_code_def)
qed

lemma key_inj: "map schar s = map schar t \<longleftrightarrow> s = t"
  by (simp add: inj_map_eq_map inj_def schar_inj)

interpretation member_ord: key_order "\<lambda>m. map schar (fst m)" member_less
  by unfold_locales (simp add: member_less_def r_string_less_def)

abbreviation keys_ascend :: "(string \<times> rvalue) list \<Rightarrow> bool" where
  "keys_ascend m \<equiv> sorted (map (\<lambda>m. map schar (fst m)) m)"

lemma sorted_members_ascend: "(cached \<Longrightarrow> keys_ascend m) \<Longrightarrow> keys_ascend (sorted_members cached m)"
  using member_ord.sort_sorted[of m] by (auto simp: sorted_members_def member_ord.sorted_keys)

lemma sorted_members_mset [simp]: "mset (sorted_members cached m) = mset m"
  by (simp add: sorted_members_def)

text \<open>What a search finds: the first member with the key, if there is one.\<close>

lemma search_finds:
  assumes "keys_ascend m"
  shows "search_members str m = map_of m str"
proof -
  let ?before = "\<lambda>l. r_string_less (fst l) str"
  have "map schar (fst (m ! i)) \<le> map schar (fst (m ! j))" if "i < j" "j < length m" for i j
    using sorted_nth_mono[OF assms, of i j] that by simp
  then have before: "comes_first ?before m"
    unfolding comes_first_def r_string_less_def by (meson order.strict_trans1)
  let ?n = "length (takeWhile ?before m)"
  have n: "search_members str m = (if ?n \<noteq> length m \<and> fst (m ! ?n) = str then Some (snd (m ! ?n)) else None)"
    unfolding search_members_def lower_bound_takeWhile[OF before] Let_def by simp
  have "map_of m str = map_of (takeWhile ?before m @ dropWhile ?before m) str" by simp
  also have "\<dots> = map_of (dropWhile ?before m) str"
  proof -
    have "str \<notin> fst ` set (takeWhile ?before m)" by (auto dest!: set_takeWhileD simp: r_string_less_def)
    then have "map_of (takeWhile ?before m) str = None" by (simp add: map_of_eq_None_iff)
    then show ?thesis unfolding map_of_append map_add_def by (simp split: option.split)
  qed
  also have "dropWhile ?before m = drop ?n m" by (rule dropWhile_eq_drop)
  finally have eq: "map_of m str = map_of (drop ?n m) str" .
  show ?thesis
  proof (cases "?n = length m")
    case False
    then have lt: "?n < length m" using length_takeWhile_le[of ?before m] by linarith
    then have nb: "\<not> ?before (m ! ?n)" by (rule nth_length_takeWhile)
    have d: "drop ?n m = m ! ?n # drop (Suc ?n) m" using lt by (simp add: Cons_nth_drop_Suc)
    have "map_of (drop (Suc ?n) m) str = None" if "fst (m ! ?n) \<noteq> str"
      unfolding map_of_eq_None_iff
    proof
      assume "str \<in> fst ` set (drop (Suc ?n) m)"
      then obtain x where x: "x \<in> set (drop (Suc ?n) m)" "fst x = str" by auto
      then obtain i where i: "i < length m - Suc ?n" "m ! (Suc ?n + i) = x" by (auto simp: in_set_conv_nth)
      then have j: "?n < Suc ?n + i" "Suc ?n + i < length m" "fst (m ! (Suc ?n + i)) = str" using x(2) by simp_all
      then have "map schar (fst (m ! ?n)) \<le> map schar str"
        using sorted_nth_mono[OF assms, of ?n "Suc ?n + i"] by simp
      with nb that show False by (simp add: r_string_less_def key_inj order.order_iff_strict)
    qed
    then show ?thesis unfolding n eq d using False by (cases "m ! ?n") auto
  qed (use n eq in simp)
qed

section \<open>A sequence of lookups\<close>

text \<open>
  Lookups that change the state they search.  The contract: each answers for the map the state stands for,
  and leaves that map as it is.
\<close>

primrec lookups :: "('q \<Rightarrow> 's \<Rightarrow> 'r \<times> 's) \<Rightarrow> 'q list \<Rightarrow> 's \<Rightarrow> 'r list \<times> 's" where
  "lookups look [] s = ([], s)"
| "lookups look (q # qs) s =
     (case look q s of (r, s) \<Rightarrow> case lookups look qs s of (rs, s) \<Rightarrow> (r # rs, s))"

locale lazy_lookup =
  fixes look :: "'q \<Rightarrow> 's \<Rightarrow> 'r \<times> 's" and answer :: "'m \<Rightarrow> 'q \<Rightarrow> 'r" and abs :: "'s \<Rightarrow> 'm" and ok :: "'s \<Rightarrow> bool"
  assumes look_answers: "ok s \<Longrightarrow> fst (look q s) = answer (abs s) q"
    and look_keeps: "ok s \<Longrightarrow> abs (snd (look q s)) = abs s"
    and look_ok: "ok s \<Longrightarrow> ok (snd (look q s))"
begin

lemma lookups_answer:
  "ok s \<Longrightarrow> fst (lookups look qs s) = map (answer (abs s)) qs \<and> abs (snd (lookups look qs s)) = abs s \<and> ok (snd (lookups look qs s))"
proof (induction qs arbitrary: s)
  case (Cons q qs)
  from Cons.IH[OF look_ok[OF Cons.prems, of q]] show ?case
    by (simp add: look_answers[OF Cons.prems] look_keeps[OF Cons.prems] case_prod_beta)
qed simp

end

datatype rd_query = Has string | At string

text \<open>The answer to a query, \<open>None\<close> where the code's behaviour is undefined.\<close>

definition rd_look :: "rd_query \<Rightarrow> read_value \<Rightarrow> (bool access + rvalue access) option \<times> read_value" where
  "rd_look q r =
     (case q of
        Has str \<Rightarrow> (case rd_has str r of None \<Rightarrow> (None, r) | Some (b, r) \<Rightarrow> (Some (Inl b), r))
      | At str \<Rightarrow> (case rd_at_key str r of (v, r) \<Rightarrow> (Some (Inr v), r)))"

text \<open>The map an object stands for, and the answers for it.\<close>

definition object_map :: "read_value \<Rightarrow> string \<Rightarrow> rvalue option" where
  "object_map r = (case rd_value r of Some (RObject m) \<Rightarrow> map_of m | _ \<Rightarrow> (\<lambda>_. None))"

definition object_answer :: "(string \<Rightarrow> rvalue option) \<Rightarrow> rd_query \<Rightarrow> (bool access + rvalue access) option" where
  "object_answer f q =
     (case q of
        Has str \<Rightarrow> Some (Inl (Inr (f str \<noteq> None)))
      | At str \<Rightarrow> Some (Inr (case f str of Some v \<Rightarrow> Inr v | None \<Rightarrow> Inl (''cannot find key: '' @ str))))"

definition object_ok :: "read_value \<Rightarrow> bool" where
  "object_ok r =
     (case rd_value r of Some (RObject m) \<Rightarrow> distinct (map fst m) \<and> (rd_cached r \<longrightarrow> keys_ascend m) | _ \<Rightarrow> False)"

lemma sorted_members_same:
  assumes "distinct (map fst m)"
  shows "map_of (sorted_members cached m) = map_of m" "distinct (map fst (sorted_members cached m))"
proof -
  show "distinct (map fst (sorted_members cached m))"
    using assms by (metis mset_eq_imp_distinct_iff mset_map sorted_members_mset)
  then show "map_of (sorted_members cached m) = map_of m"
    using assms by (intro mset_eq_map_of) simp_all
qed

lemma object_step:
  assumes "rd_value r = Some (RObject m)" "object_ok r"
  defines "m' \<equiv> sorted_members (rd_cached r) m"
  shows "rd_look q r = (object_answer (map_of m) q, \<lparr> rd_value = Some (RObject m'), rd_cached = True \<rparr>)"
    "object_ok \<lparr> rd_value = Some (RObject m'), rd_cached = True \<rparr>" "map_of m' = map_of m"
proof -
  have d: "distinct (map fst m)" and c: "rd_cached r \<Longrightarrow> keys_ascend m" using assms(1,2) by (simp_all add: object_ok_def)
  have a: "keys_ascend m'" unfolding m'_def using c by (rule sorted_members_ascend)
  show "map_of m' = map_of m" unfolding m'_def using d by (rule sorted_members_same)
  then show "rd_look q r = (object_answer (map_of m) q, \<lparr> rd_value = Some (RObject m'), rd_cached = True \<rparr>)"
    using assms(1) search_finds[OF a]
    by (simp add: rd_look_def object_answer_def rd_has_def rd_at_key_def m'_def Let_def split: rd_query.split)
  show "object_ok \<lparr> rd_value = Some (RObject m'), rd_cached = True \<rparr>"
    using a sorted_members_same(2)[OF d] by (simp add: object_ok_def m'_def)
qed

lemma object_ok_cases: "object_ok r \<Longrightarrow> (\<And>m. rd_value r = Some (RObject m) \<Longrightarrow> P) \<Longrightarrow> P"
  by (auto simp: object_ok_def split: option.splits rvalue.splits)

interpretation object_lookup: lazy_lookup rd_look object_answer object_map object_ok
proof (unfold_locales, goal_cases)
  case (1 r q)
  then show ?case by (elim object_ok_cases) (simp add: object_step(1)[OF _ 1] object_map_def)
next
  case (2 r q)
  then show ?case
    by (elim object_ok_cases) (simp add: object_step(1)[OF _ 2] object_step(3)[OF _ 2] object_map_def)
next
  case (3 r q)
  then show ?case by (elim object_ok_cases) (simp add: object_step(1,2)[OF _ 3])
qed

text \<open>Scalars that were written.\<close>

lemma stream_show_int: "- (2 ^ 63) \<le> v \<Longrightarrow> v < 2 ^ 63 \<Longrightarrow> stream_int64 (show_int v) = v"
proof -
  assume v: "- (2 ^ 63) \<le> v" "v < 2 ^ 63"
  have sp: "dropWhile isspace (show_nat n) = show_nat n" for n
    using hd_show_nat[of n] by (cases "show_nat n") (auto dest: isdigit_not_space)
  have sign: "peek (show_nat n) \<noteq> CHR ''-''" "peek (show_nat n) \<noteq> CHR ''+''" for n
    using hd_show_nat[of n] isdigit_not_sign by (cases "show_nat n"; simp add: peek_def)+
  have minus: "\<not> isspace (CHR ''-'')" by (simp add: isspace_def char_code_def)
  show ?thesis
  proof (cases "v < 0")
    case True
    then have "stream_digits (show_int v) = (True, nat (- v))"
      using minus by (simp add: show_int_def stream_digits_def Let_def peek_def takeWhile_show_nat digits_val_show_nat)
    then show ?thesis using True v by (simp add: stream_int64_def)
  next
    case False
    then have "stream_digits (show_int v) = (False, nat v)"
      using sp sign by (simp add: show_int_def stream_digits_def Let_def takeWhile_show_nat digits_val_show_nat)
    then show ?thesis using False v by (simp add: stream_int64_def)
  qed
qed

lemma read_back_string: "rd_s (rd_of (Some (rv_of fp (WString s)))) = Inr s"
  by (simp add: rd_s_def with_value_def rd_of_def rv_s_escaped)

lemma read_back_int: "- (2 ^ 63) \<le> v \<Longrightarrow> v < 2 ^ 63 \<Longrightarrow> rd_i (rd_of (Some (rv_of fp (wv_int v)))) = Inr v"
  by (simp add: rd_i_def with_value_def rd_of_def wv_int_def dump_number_def show_not_null stream_show_int)

lemma read_back_bool: "rd_b (rd_of (Some (rv_of fp (if b then WTrue else WFalse)))) = Inr b"
  by (simp add: rd_b_def with_value_def rd_of_def)

text \<open>A text printed to a stream need not be JSON: a string that holds a quotation mark ends there.\<close>

lemma print_not_json: "load (rv_print fp (rv_of fp (WString [CHR 0x22]))) = None"
proof -
  have "rv_print fp (rv_of fp (WString [CHR 0x22])) = [CHR 0x22, CHR 0x22, CHR 0x22]"
    by (simp add: rv_s_escaped[of "[CHR 0x22]", simplified])
  moreover have "load [CHR 0x22, CHR 0x22, CHR 0x22] = None" by code_simp
  ultimately show ?thesis by simp
qed

section \<open>The estimate\<close>

text \<open>
  Values for which the estimate is meant: no function inside, at most every second character escaped to
  two, and floating-point numbers that print in thirty characters.
\<close>

function modest :: "'d fpops \<Rightarrow> 'd wvalue \<Rightarrow> bool" where
  "modest fp WNull = True"
| "modest fp WFalse = True"
| "modest fp WTrue = True"
| "modest fp (WNumber n) =
     (case n of Signed_integer si \<Rightarrow> - (2 ^ 63) \<le> si \<and> si < 2 ^ 63 | Unsigned_integer ui \<Rightarrow> ui < 2 ^ 64
      | _ \<Rightarrow> length (dump_number fp n) \<le> 30)"
| "modest fp (WString s) = (length (escaped s) \<le> length s + length s div 2)"
| "modest fp (WList l) = list_all (modest fp) l"
| "modest fp (WObject m) = list_all (\<lambda>(k, v). length (escaped k) \<le> length k + length k div 2 \<and> modest fp v) m"
| "modest fp (WFunction f) = False"
  by pat_completeness auto
termination
  by (relation "measure (\<lambda>(fp, v). size v)") (auto simp: termination_simp)

lemma length_show_nat: "n < 10 ^ k \<Longrightarrow> 0 < k \<Longrightarrow> length (show_nat n) \<le> k"
proof (induction n arbitrary: k rule: show_nat.induct)
  case (1 n)
  show ?case
  proof (cases "n < 10")
    case True
    then show ?thesis using "1.prems" by (subst show_nat.simps) simp
  next
    case False
    then obtain k' where k: "k = Suc k'" "0 < k'" using "1.prems" by (cases k; cases "k - 1") auto
    then have "n div 10 < 10 ^ k'" using "1.prems" by (simp add: less_mult_imp_div_less)
    then have "length (show_nat (n div 10)) \<le> k'" using "1.IH"[OF False] k(2) by simp
    then show ?thesis using k False by (subst show_nat.simps) simp
  qed
qed

lemma modest_number: "modest fp (WNumber n) \<Longrightarrow> length (dump_number fp n) \<le> 30"
proof (cases n)
  case (Signed_integer si)
  assume "modest fp (WNumber n)"
  then have "\<bar>si\<bar> < 10 ^ 20" using Signed_integer by (simp add: abs_if)
  then have "nat \<bar>si\<bar> < 10 ^ 20" by (simp add: nat_less_iff)
  from length_show_nat[OF this] have "length (show_int si) \<le> 21" by (cases "si < 0") (simp_all add: show_int_def abs_if)
  then show ?thesis using Signed_integer by (simp add: dump_number_def)
next
  case (Unsigned_integer ui)
  assume "modest fp (WNumber n)"
  then have "ui < 10 ^ 20" using Unsigned_integer by simp
  from length_show_nat[OF this] show ?thesis using Unsigned_integer by (simp add: dump_number_def)
qed simp_all

lemma length_joined:
  "list_all2 (\<lambda>t n. length t \<le> n) ts ns \<Longrightarrow> length (join_with [c] ts) \<le> sum_list (map Suc ns)"
proof (induction "[c]" ts arbitrary: ns rule: join_with.induct)
  case (3 x y ys)
  then obtain n ns' where ns: "ns = n # ns'" "length x \<le> n" "list_all2 (\<lambda>t n. length t \<le> n) (y # ys) ns'"
    by (auto simp: list_all2_Cons1)
  with "3.hyps"[OF ns(3)] show ?case by simp
qed (auto simp: list_all2_Cons1)

lemma length_dump_string: "length (dump_string s) = 2 + length (escaped s)"
  by (simp add: dump_string_def escape_eq)

lemma dump_within: "modest fp v \<Longrightarrow> length (dump_internal fp (- 1) sep lvl v) \<le> estimate_length v"
proof (induction v arbitrary: lvl rule: estimate_length.induct)
  case (6 l)
  let ?ts = "map (dump_internal fp (- 1) sep (lvl + 1)) l"
  have "list_all2 (\<lambda>t n. length t \<le> n) ?ts (map estimate_length l)"
    using 6 by (simp add: list.rel_map list_all2_same list_all_iff)
  from length_joined[OF this] show ?case by (simp add: dump_newline_def comp_def)
next
  case (7 m)
  let ?ts = "map (\<lambda>(k, v). dump_string k @ '':'' @ (if 0 \<le> (- 1 :: int) then '' '' else [])
               @ dump_internal fp (- 1) sep (lvl + 1) v) m"
  have "list_all2 (\<lambda>t n. length t \<le> n) ?ts
      (map (\<lambda>(k, v). 1 + (2 + length k + length k div 2) + estimate_length v) m)"
    unfolding list.rel_map list_all2_same
  proof (clarify)
    fix k v assume kv: "(k, v) \<in> set m"
    then have "modest fp v" "length (escaped k) \<le> length k + length k div 2" using "7.prems" by (auto simp: list_all_iff)
    with "7.IH"[OF kv refl, of "lvl + 1"] show "length (dump_string k @ '':'' @ (if 0 \<le> (- 1 :: int) then '' '' else [])
        @ dump_internal fp (- 1) sep (lvl + 1) v) \<le> 1 + (2 + length k + length k div 2) + estimate_length v"
      by (simp add: length_dump_string)
  qed
  from length_joined[OF this, of "CHR '',''"] show ?case by (simp add: dump_newline_def comp_def split_def)
qed (auto simp: modest_number length_dump_string)

section \<open>Properties\<close>

text \<open>C19. An object that was written is read back by its keys: when an object with distinct keys is dumped and
  loaded, every sequence of lookups, of which the first sorts the members, answers for the object's own
  map, with the written member or the error that names the key; and a string, an integer or a boolean
  so found is the one that was written.\<close>

theorem members_read_back:
  assumes "prints_json fp (WObject m)" and "nesting (WObject m) \<le> 5000" and "distinct (map fst m)" and "- (2 ^ 63) \<le> v" and "v < 2 ^ 63"
  shows "fst (lookups rd_look qs (rd_of (load (dump fp (WObject m))))) = map (object_answer (\<lambda>k. map_option (rv_of fp) (map_of m k))) qs
    \<and> rd_s (rd_of (Some (rv_of fp (WString s)))) = Inr s \<and> rd_i (rd_of (Some (rv_of fp (wv_int v)))) = Inr v
    \<and> rd_b (rd_of (Some (rv_of fp (if b then WTrue else WFalse)))) = Inr b"
proof -
  let ?r = "rd_of (load (dump fp (WObject m)))"
  have r: "?r = rd_of (Some (RObject (map (\<lambda>(k, v). (k, rv_of fp v)) m)))"
    using load_dumped[OF assms(1,2)] by simp
  have "map (fst \<circ> (\<lambda>(k, v). (k, rv_of fp v))) m = map fst m" by (induction m) auto
  with assms(3) have "distinct (map (fst \<circ> (\<lambda>(k, v). (k, rv_of fp v))) m)" by metis
  then have ok: "object_ok ?r" unfolding r by (simp add: object_ok_def rd_of_def)
  have "object_map ?r = (\<lambda>k. map_option (rv_of fp) (map_of m k))"
    unfolding r by (simp add: object_map_def rd_of_def map_of_map fun_eq_iff)
  then have "fst (lookups rd_look qs ?r) = map (object_answer (\<lambda>k. map_option (rv_of fp) (map_of m k))) qs"
    using object_lookup.lookups_answer[OF ok, of qs] by simp
  then show ?thesis using read_back_string read_back_int[OF assms(4,5)] read_back_bool by blast
qed

text \<open>The length reserved for a JSON text is enough: \<open>dump\<close> never exceeds its estimate, unless a value holds a
  function, a string of which more than half must be escaped, or a floating-point number that prints in more
  than thirty characters.\<close>

theorem dump_within_estimate:
  assumes "modest fp v"
  shows "length (dump fp v) \<le> estimate_length v"
  using dump_within[OF assms] by (simp add: dump_def dump_indent_def)

theorem members_read_back_witness:
  "fst (lookups rd_look [Has ''b'', At ''a'', At ''c'']
          (rd_of (load (dump (real_fp (\<lambda>_. None) (\<lambda>_. [])) (WObject [(''b'', WString ''x''), (''a'', WTrue)])))))
     = [Some (Inl (Inr True)), Some (Inr (Inr RTrue)), Some (Inr (Inl ''cannot find key: c''))]"
proof -
  let ?m = "[(''b'', WString ''x''), (''a'', WTrue)] :: (string \<times> real wvalue) list"
  have "distinct (map fst ?m)" by simp
  from members_read_back[of "real_fp (\<lambda>_. None) (\<lambda>_. [])" ?m, OF _ _ this, where v = 0 and qs = "[Has ''b'', At ''a'', At ''c'']"]
  show ?thesis by (simp add: object_answer_def)
qed

theorem dump_within_estimate_witness:
  "length (dump (real_fp (\<lambda>_. None) (\<lambda>_. [])) (WList [wv_int (- 7), WString ''ab''])) \<le> 40"
proof -
  have "modest (real_fp (\<lambda>_. None) (\<lambda>_. [])) (WList [wv_int (- 7), WString ''ab''])"
    by (simp add: wv_int_def escape_char_def char_code_def)
  from dump_within_estimate[OF this] show ?thesis by (simp add: wv_int_def)
qed

end
