(* ===== verification/Response.thy ===== *)
theory Response
  imports JsonWrite
begin

text \<open>
  HTTP responses: case-insensitive header maps (crow/ci_map.h, \<open>string_equals\<close> of crow/utility.h),
  the \<open>response\<close> type of crow/http_response.h with its constructors and header operations, the
  status line and header block it writes, and the exception handler of crow/routing.h.
\<close>

section \<open>Header maps\<close>

definition string_equals :: "string \<Rightarrow> string \<Rightarrow> bool \<Rightarrow> bool" where
  "string_equals l r case_sensitive =
     (if length l \<noteq> length r then False
      else list_all2 (\<lambda>a b. if case_sensitive then a = b else toupper a = toupper b) l r)"

abbreviation ci_key_eq :: "string \<Rightarrow> string \<Rightarrow> bool" where
  "ci_key_eq l r \<equiv> string_equals l r False"

type_synonym ci_map = "(string \<times> string) list"

definition ci_count :: "ci_map \<Rightarrow> string \<Rightarrow> nat" where
  "ci_count hs key = length (filter (\<lambda>(k, v). ci_key_eq k key) hs)"

definition ci_erase :: "string \<Rightarrow> ci_map \<Rightarrow> ci_map" where
  "ci_erase key hs = filter (\<lambda>(k, v). \<not> ci_key_eq k key) hs"

definition ci_emplace :: "string \<Rightarrow> string \<Rightarrow> ci_map \<Rightarrow> ci_map" where
  "ci_emplace key val hs = hs @ [(key, val)]"

definition get_header_value :: "ci_map \<Rightarrow> string \<Rightarrow> string" where
  "get_header_value hs key =
     (if 0 < ci_count hs key then snd (hd (filter (\<lambda>(k, v). ci_key_eq k key) hs)) else [])"

section \<open>Responses\<close>

record response =
  res_code :: int
  res_body :: string
  res_headers :: ci_map
  res_skip_body :: bool
  res_manual_length_header :: bool
  res_completed :: bool
  res_file :: string            \<comment> \<open>\<open>file_info.path\<close>: set for a file that \<open>stat\<close> has found\<close>

definition response_default :: response where
  "response_default = \<lparr> res_code = 200, res_body = [], res_headers = [], res_skip_body = False,
     res_manual_length_header = False, res_completed = False, res_file = [] \<rparr>"

definition set_header :: "string \<Rightarrow> string \<Rightarrow> response \<Rightarrow> response" where
  "set_header key val r = r\<lparr>res_headers := ci_emplace key val (ci_erase key (res_headers r))\<rparr>"

definition add_header :: "string \<Rightarrow> string \<Rightarrow> response \<Rightarrow> response" where
  "add_header key val r = r\<lparr>res_headers := ci_emplace key val (res_headers r)\<rparr>"

definition response_code :: "int \<Rightarrow> response" where
  "response_code code = response_default\<lparr>res_code := code\<rparr>"

definition response_body :: "string \<Rightarrow> response" where
  "response_body body = response_default\<lparr>res_body := body\<rparr>"

definition response_code_body :: "int \<Rightarrow> string \<Rightarrow> response" where
  "response_code_body code body = response_default\<lparr>res_code := code, res_body := body\<rparr>"

text \<open>The constructor from a \<open>returnable\<close>; a write value has the content type application/json.\<close>

definition response_json :: "'d fpops \<Rightarrow> 'd wvalue \<Rightarrow> response" where
  "response_json fp j =
     set_header ''Content-Type'' ''application/json'' (response_default\<lparr>res_body := dump fp j\<rparr>)"

definition response_clear :: "response \<Rightarrow> response" where
  "response_clear r = r\<lparr>res_body := [], res_code := 200, res_headers := [], res_completed := False, res_file := []\<rparr>"

text \<open>Whether the body of the response is a file.\<close>

definition is_static_type :: "response \<Rightarrow> bool" where
  "is_static_type r \<longleftrightarrow> res_file r \<noteq> []"

definition redirect :: "string \<Rightarrow> response \<Rightarrow> response" where
  "redirect location r = set_header ''Location'' location (r\<lparr>res_code := 307\<rparr>)"

definition redirect_perm :: "string \<Rightarrow> response \<Rightarrow> response" where
  "redirect_perm location r = set_header ''Location'' location (r\<lparr>res_code := 308\<rparr>)"

definition moved :: "string \<Rightarrow> response \<Rightarrow> response" where
  "moved location r = set_header ''Location'' location (r\<lparr>res_code := 302\<rparr>)"

definition moved_perm :: "string \<Rightarrow> response \<Rightarrow> response" where
  "moved_perm location r = set_header ''Location'' location (r\<lparr>res_code := 301\<rparr>)"

definition response_write :: "string \<Rightarrow> response \<Rightarrow> response" where
  "response_write part r = r\<lparr>res_body := res_body r @ part\<rparr>"

text \<open>
  \<open>end()\<close>: the response handed to the completion callback, if there is one, and the response
  afterwards.  A second call does nothing.
\<close>

definition response_end :: "bool \<Rightarrow> response \<Rightarrow> response option \<times> response" where
  "response_end has_handler r =
     (if res_completed r then (None, r)
      else let r = r\<lparr>res_completed := True\<rparr>;
               r = (if res_skip_body r
                    then (set_header ''Content-Length'' (show_nat (length (res_body r))) r)
                           \<lparr>res_body := [], res_manual_length_header := True\<rparr>
                    else r)
           in if has_handler then (Some r, r\<lparr>res_manual_length_header := False, res_skip_body := False\<rparr>)
              else (None, r))"

definition valid_parent_types :: "string list" where
  "valid_parent_types = [''application/'', ''audio/'', ''font/'', ''example/'', ''image/'', ''message/'',
     ''model/'', ''multipart/'', ''text/'', ''video/'']"

definition validate_mime_type :: "string \<Rightarrow> bool" where
  "validate_mime_type candidate =
     list_ex (\<lambda>parent. length parent < length candidate \<and> take (length parent) candidate = parent) valid_parent_types"

section \<open>The header block\<close>

definition crlf :: string where "crlf = [CHR 0x0D, CHR 0x0A]"

definition status_codes :: "(int \<times> string) list" where
  "status_codes =
     [(100, ''HTTP/1.1 100 Continue''), (101, ''HTTP/1.1 101 Switching Protocols''),
      (200, ''HTTP/1.1 200 OK''), (201, ''HTTP/1.1 201 Created''), (202, ''HTTP/1.1 202 Accepted''),
      (203, ''HTTP/1.1 203 Non-Authoritative Information''), (204, ''HTTP/1.1 204 No Content''),
      (205, ''HTTP/1.1 205 Reset Content''), (206, ''HTTP/1.1 206 Partial Content''),
      (300, ''HTTP/1.1 300 Multiple Choices''), (301, ''HTTP/1.1 301 Moved Permanently''),
      (302, ''HTTP/1.1 302 Found''), (303, ''HTTP/1.1 303 See Other''), (304, ''HTTP/1.1 304 Not Modified''),
      (307, ''HTTP/1.1 307 Temporary Redirect''), (308, ''HTTP/1.1 308 Permanent Redirect''),
      (400, ''HTTP/1.1 400 Bad Request''), (401, ''HTTP/1.1 401 Unauthorized''), (403, ''HTTP/1.1 403 Forbidden''),
      (404, ''HTTP/1.1 404 Not Found''), (405, ''HTTP/1.1 405 Method Not Allowed''),
      (406, ''HTTP/1.1 406 Not Acceptable''), (407, ''HTTP/1.1 407 Proxy Authentication Required''),
      (409, ''HTTP/1.1 409 Conflict''), (410, ''HTTP/1.1 410 Gone''), (413, ''HTTP/1.1 413 Payload Too Large''),
      (415, ''HTTP/1.1 415 Unsupported Media Type''), (416, ''HTTP/1.1 416 Range Not Satisfiable''),
      (417, ''HTTP/1.1 417 Expectation Failed''), (428, ''HTTP/1.1 428 Precondition Required''),
      (429, ''HTTP/1.1 429 Too Many Requests''), (451, ''HTTP/1.1 451 Unavailable For Legal Reasons''),
      (500, ''HTTP/1.1 500 Internal Server Error''), (501, ''HTTP/1.1 501 Not Implemented''),
      (502, ''HTTP/1.1 502 Bad Gateway''), (503, ''HTTP/1.1 503 Service Unavailable''),
      (504, ''HTTP/1.1 504 Gateway Timeout''), (506, ''HTTP/1.1 506 Variant Also Negotiates'')]"

definition status_line :: "int \<Rightarrow> string" where
  "status_line code = (case map_of status_codes code of Some l \<Rightarrow> l @ crlf | None \<Rightarrow> [])"

definition header_line :: "string \<Rightarrow> string \<Rightarrow> string" where
  "header_line k v = k @ '': '' @ v @ crlf"

text \<open>
  \<open>write_header_into_buffer\<close>: the text of the buffers one after the other, and the response with the
  code and body it settles on.  The \<open>Keep-Alive\<close> line is written in one piece.
\<close>

definition write_header_into_buffer :: "bool \<Rightarrow> string \<Rightarrow> response \<Rightarrow> string \<times> response" where
  "write_header_into_buffer add_keep_alive server_name r =
     (let r = (if map_of status_codes (res_code r) = None then r\<lparr>res_code := 500\<rparr> else r);
          status = status_line (res_code r);
          r = (if 400 \<le> res_code r \<and> res_body r = []
               then r\<lparr>res_body := drop 9 (status_line (res_code r))\<rparr> else r)
      in (status
          @ concat (map (\<lambda>(k, v). header_line k v) (res_headers r))
          @ (if \<not> res_manual_length_header r \<and> ci_count (res_headers r) ''content-length'' = 0
             then header_line ''Content-Length'' (show_nat (length (res_body r))) else [])
          @ (if ci_count (res_headers r) ''server'' = 0 \<and> server_name \<noteq> []
             then header_line ''Server'' server_name else [])
          @ (if add_keep_alive then ''Connection: Keep-Alive'' @ crlf else [])
          @ crlf, r))"

section \<open>Exceptions in handlers\<close>

text \<open>A handler returns a response or leaves by an exception; \<open>bad_request\<close> carries a message.\<close>

datatype cpp_exception = Bad_request string | Std_exception

type_synonym handler_result = "cpp_exception + response"

definition default_exception_handler :: "cpp_exception \<Rightarrow> response" where
  "default_exception_handler e =
     (case e of Bad_request msg \<Rightarrow> (response_code 400)\<lparr>res_body := msg\<rparr> | Std_exception \<Rightarrow> response_code 500)"

definition handled :: "handler_result \<Rightarrow> response" where
  "handled h = (case h of Inl e \<Rightarrow> default_exception_handler e | Inr r \<Rightarrow> r)"

section \<open>Header lookups\<close>

lemma string_equals_upper: "ci_key_eq l r \<longleftrightarrow> upper_string l = upper_string r"
  by (auto simp: string_equals_def list_all2_conv_all_nth list_eq_iff_nth_eq)

lemma ci_key_eq_refl [simp]: "ci_key_eq k k"
  by (simp add: string_equals_upper)

lemma get_header_set: "get_header_value (res_headers (set_header k v r)) k' =
   (if ci_key_eq k k' then v else get_header_value (res_headers r) k')"
proof -
  have same: "filter (\<lambda>(j, w). ci_key_eq j k') (ci_erase k hs) = (if ci_key_eq k k' then []
      else filter (\<lambda>(j, w). ci_key_eq j k') hs)" for hs
    by (induction hs) (auto simp: ci_erase_def string_equals_upper)
  show ?thesis
    by (simp add: set_header_def get_header_value_def ci_count_def ci_emplace_def same)
qed

lemma response_json_simps [simp]:
  "res_code (response_json fp j) = 200" "res_body (response_json fp j) = dump fp j"
  "res_headers (response_json fp j) = [(''Content-Type'', ''application/json'')]"
  by (simp_all add: response_json_def response_default_def set_header_def ci_emplace_def ci_erase_def)

section \<open>Reading a header block\<close>

text \<open>A client's view: cut at each line end up to the empty line, then each line at the first colon.\<close>

fun cut_lines :: "string \<Rightarrow> string \<Rightarrow> string list \<times> string" where
  "cut_lines cur [] = ([], [])"
| "cut_lines cur (c # s) =
     (case s of
        [] \<Rightarrow> ([], [])
      | d # s' \<Rightarrow>
          if c = CHR 0x0D \<and> d = CHR 0x0A
          then (if cur = [] then ([], s') else (case cut_lines [] s' of (ls, rest) \<Rightarrow> (rev cur # ls, rest)))
          else cut_lines (c # cur) s)"

definition split_header :: "string \<Rightarrow> string \<times> string" where
  "split_header l = (takeWhile (\<lambda>c. c \<noteq> CHR '':'') l, drop 2 (dropWhile (\<lambda>c. c \<noteq> CHR '':'') l))"

definition read_head :: "string \<Rightarrow> string \<times> ci_map \<times> string" where
  "read_head s = (case cut_lines [] s of (ls, rest) \<Rightarrow> (hd ls, map split_header (tl ls), rest))"

definition header_ok :: "string \<times> string \<Rightarrow> bool" where
  "header_ok kv \<longleftrightarrow> CHR '':'' \<notin> set (fst kv) \<and> CHR 0x0D \<notin> set (fst kv) \<and> CHR 0x0D \<notin> set (snd kv)"

lemma cut_line: "CHR 0x0D \<notin> set l \<Longrightarrow> rev cur @ l \<noteq> [] \<Longrightarrow>
   cut_lines cur (l @ crlf @ s) = (case cut_lines [] s of (ls, rest) \<Rightarrow> ((rev cur @ l) # ls, rest))"
proof (induction l arbitrary: cur)
  case Nil
  then show ?case by (simp add: crlf_def)
next
  case (Cons c l)
  then have "cut_lines cur (c # (l @ crlf @ s)) = cut_lines (c # cur) (l @ crlf @ s)"
    by (cases "l @ crlf @ s") (auto simp: crlf_def)
  with Cons show ?case by simp
qed

lemma cut_header_lines:
  assumes "\<forall>kv \<in> set hs. header_ok kv"
  shows "cut_lines [] (concat (map (\<lambda>(k, v). header_line k v) hs) @ s) =
     (case cut_lines [] s of (ls, rest) \<Rightarrow> (map (\<lambda>(k, v). k @ '': '' @ v) hs @ ls, rest))"
  using assms
proof (induction hs)
  case (Cons kv hs)
  obtain k v where kv: "kv = (k, v)" by (cases kv)
  have "header_line k v @ t = (k @ '': '' @ v) @ crlf @ t" for t
    by (simp add: header_line_def)
  moreover have "CHR 0x0D \<notin> set (k @ '': '' @ v)" using Cons.prems by (simp add: kv header_ok_def)
  ultimately show ?case
    using Cons cut_line[of "k @ '': '' @ v" "[]"] by (simp add: kv split: prod.splits)
qed simp

lemma split_header_line: "header_ok (k, v) \<Longrightarrow> split_header (k @ '': '' @ v) = (k, v)"
proof -
  assume "header_ok (k, v)"
  then have k: "\<And>c. c \<in> set k \<Longrightarrow> c \<noteq> CHR '':''" by (auto simp: header_ok_def)
  have "takeWhile (\<lambda>c. c \<noteq> CHR '':'') (k @ '': '' @ v) = k"
    by (rule takeWhile_append_stop) (use k in auto)
  moreover have "dropWhile (\<lambda>c. c \<noteq> CHR '':'') (k @ '': '' @ v) = '': '' @ v"
    by (rule dropWhile_append_stop) (use k in auto)
  ultimately show ?thesis by (simp add: split_header_def)
qed

lemma status_codes_plain: "list_all (\<lambda>(c, l). l \<noteq> [] \<and> CHR 0x0D \<notin> set l) status_codes"
  by (simp add: status_codes_def)

lemma status_line_plain:
  "map_of status_codes c = Some l \<Longrightarrow> status_line c = l @ crlf \<and> l \<noteq> [] \<and> CHR 0x0D \<notin> set l"
  using status_codes_plain by (auto simp: status_line_def list_all_iff dest!: map_of_SomeD)

lemma status_500: "map_of status_codes 500 = Some ''HTTP/1.1 500 Internal Server Error''"
  by (simp add: status_codes_def)

text \<open>The headers that the writer adds to those of the response.\<close>

definition extra_headers :: "bool \<Rightarrow> string \<Rightarrow> response \<Rightarrow> ci_map" where
  "extra_headers keep server r =
     (if \<not> res_manual_length_header r \<and> ci_count (res_headers r) ''content-length'' = 0
      then [(''Content-Length'', show_nat (length (res_body r)))] else [])
     @ (if ci_count (res_headers r) ''server'' = 0 \<and> server \<noteq> [] then [(''Server'', server)] else [])
     @ (if keep then [(''Connection'', ''Keep-Alive'')] else [])"

text \<open>The response as it is sent: known code, and a body for an error without one.\<close>

definition sent :: "response \<Rightarrow> response" where
  "sent r =
     (let r = (if map_of status_codes (res_code r) = None then r\<lparr>res_code := 500\<rparr> else r)
      in if 400 \<le> res_code r \<and> res_body r = [] then r\<lparr>res_body := drop 9 (status_line (res_code r))\<rparr> else r)"

lemma sent_simps [simp]:
  "res_headers (sent r) = res_headers r" "res_manual_length_header (sent r) = res_manual_length_header r"
  by (simp_all add: sent_def Let_def)

lemma sent_code: "\<exists>l. map_of status_codes (res_code (sent r)) = Some l"
  by (auto simp: sent_def Let_def status_500)

lemma write_header_eq:
  "write_header_into_buffer keep server r =
     (status_line (res_code (sent r))
      @ concat (map (\<lambda>(k, v). header_line k v) (res_headers r @ extra_headers keep server (sent r))) @ crlf, sent r)"
  by (simp add: write_header_into_buffer_def sent_def extra_headers_def header_line_def Let_def)

lemma show_nat_no_cr: "CHR 0x0D \<notin> set (show_nat n)"
  using show_nat_digits[of "CHR 0x0D" n] by (auto simp: isdigit_def char_code_def)

lemma extra_headers_ok: "CHR 0x0D \<notin> set server \<Longrightarrow> \<forall>kv \<in> set (extra_headers keep server r). header_ok kv"
  by (auto simp: extra_headers_def header_ok_def show_nat_no_cr)

lemma map_split_headers: "\<forall>kv \<in> set hs. header_ok kv \<Longrightarrow> map split_header (map (\<lambda>(k, v). k @ '': '' @ v) hs) = hs"
  by (induction hs) (auto simp: split_header_line[simplified])

lemma read_written_head:
  assumes "\<forall>kv \<in> set (res_headers r). header_ok kv" and "CHR 0x0D \<notin> set server"
  shows "\<exists>status. status_line (res_code (sent r)) = status @ crlf \<and>
     read_head (fst (write_header_into_buffer keep server r) @ rest) =
       (status, res_headers r @ extra_headers keep server (sent r), rest)"
proof -
  obtain l where "map_of status_codes (res_code (sent r)) = Some l" using sent_code by blast
  from status_line_plain[OF this] have l: "status_line (res_code (sent r)) = l @ crlf" "l \<noteq> []" "CHR 0x0D \<notin> set l"
    by simp_all
  let ?hs = "res_headers r @ extra_headers keep server (sent r)"
  have ok: "\<forall>kv \<in> set ?hs. header_ok kv"
    using assms extra_headers_ok by auto
  have "cut_lines [] (crlf @ rest) = ([], rest)" by (simp add: crlf_def)
  then have "cut_lines [] (concat (map (\<lambda>(k, v). header_line k v) ?hs) @ crlf @ rest) =
      (map (\<lambda>(k, v). k @ '': '' @ v) ?hs, rest)"
    using cut_header_lines[OF ok, of "crlf @ rest"] by simp
  then have "cut_lines [] (l @ crlf @ concat (map (\<lambda>(k, v). header_line k v) ?hs) @ crlf @ rest) =
      (l # map (\<lambda>(k, v). k @ '': '' @ v) ?hs, rest)"
    using cut_line[OF l(3), of "[]"] l(2) by simp
  then show ?thesis
    using map_split_headers[OF ok] by (intro exI[of _ l]) (simp add: write_header_eq read_head_def l(1))
qed

lemma header_names_any_case:
  "ci_count hs ''content-length'' = ci_count hs ''Content-Length''" "ci_count hs ''server'' = ci_count hs ''Server''"
proof -
  have "upper_string ''content-length'' = upper_string ''Content-Length''" "upper_string ''server'' = upper_string ''Server''"
    by code_simp+
  then show "ci_count hs ''content-length'' = ci_count hs ''Content-Length''" "ci_count hs ''server'' = ci_count hs ''Server''"
    by (simp_all add: ci_count_def string_equals_upper)
qed

lemma status_codes_long: "list_all (\<lambda>(c, l). 9 \<le> length l) status_codes"
  by (simp add: status_codes_def)

lemma sent_parts:
  assumes l: "map_of status_codes (res_code (sent r)) = Some l"
  shows "res_code (sent r) = (if res_code r \<in> fst ` set status_codes then res_code r else 500)"
    "(res_code (sent r), l) \<in> set status_codes"
    "res_body (sent r) = (if 400 \<le> res_code (sent r) \<and> res_body r = [] then drop 9 l @ crlf else res_body r)"
    "sent r = r\<lparr>res_code := res_code (sent r), res_body := res_body (sent r)\<rparr>"
proof -
  show "res_code (sent r) = (if res_code r \<in> fst ` set status_codes then res_code r else 500)"
    by (simp add: sent_def Let_def map_of_eq_None_iff)
  show mem: "(res_code (sent r), l) \<in> set status_codes" using l by (rule map_of_SomeD)
  then have "9 \<le> length l" using status_codes_long by (auto simp: list_all_iff)
  moreover have "status_line (res_code (sent r)) = l @ crlf" using status_line_plain[OF l] by simp
  ultimately have "drop 9 (status_line (res_code (sent r))) = drop 9 l @ crlf" by simp
  moreover have "res_body (sent r) = (if 400 \<le> res_code (sent r) \<and> res_body r = []
      then drop 9 (status_line (res_code (sent r))) else res_body r)"
    by (simp add: sent_def Let_def)
  ultimately show "res_body (sent r) = (if 400 \<le> res_code (sent r) \<and> res_body r = [] then drop 9 l @ crlf else res_body r)"
    by simp
  show "sent r = r\<lparr>res_code := res_code (sent r), res_body := res_body (sent r)\<rparr>"
    by (simp add: sent_def Let_def)
qed

lemma length_added:
  assumes "\<not> res_manual_length_header r" "ci_count (res_headers r) ''Content-Length'' = 0"
  shows "ci_count (res_headers r @ extra_headers keep server r) ''Content-Length'' = 1"
    "get_header_value (res_headers r @ extra_headers keep server r) ''Content-Length'' = show_nat (length (res_body r))"
proof -
  let ?es = "(if ci_count (res_headers r) ''server'' = 0 \<and> server \<noteq> [] then [(''Server'', server)] else [])
     @ (if keep then [(''Connection'', ''Keep-Alive'')] else [])"
  have ex: "extra_headers keep server r = (''Content-Length'', show_nat (length (res_body r))) # ?es"
    using assms by (simp add: extra_headers_def header_names_any_case)
  have es: "ci_count ?es ''Content-Length'' = 0" by (simp add: ci_count_def string_equals_def)
  show "ci_count (res_headers r @ extra_headers keep server r) ''Content-Length'' = 1"
    "get_header_value (res_headers r @ extra_headers keep server r) ''Content-Length'' = show_nat (length (res_body r))"
    using assms(2) es unfolding ex by (simp_all add: ci_count_def get_header_value_def)
qed

section \<open>Properties\<close>

text \<open>C27. The header block frames the body: a client that cuts the sent text at line ends reads back the
  status line, exactly the headers of the response and the added ones, and exactly the body after the empty
  line.  Added are Content-Length, unless the handler supplied a length, Server, unless the handler set one
  or the name is empty, and Connection: Keep-Alive when asked for.  What is sent is the response with an
  unknown code made 500, and with the text of its status as the body where an error has none; and a
  length that is added is the only one and holds the length of that body.
  This needs header names without a colon and header text without a carriage return.\<close>

theorem response_framing:
  assumes "\<forall>kv \<in> set (res_headers r). header_ok kv" and "CHR 0x0D \<notin> set server"
  shows "case write_header_into_buffer keep server r of (txt, r') \<Rightarrow>
     (case read_head (txt @ res_body r') of (status, hs, body) \<Rightarrow>
        res_code r' = (if res_code r \<in> fst ` set status_codes then res_code r else 500)
        \<and> (res_code r', status) \<in> set status_codes
        \<and> body = (if 400 \<le> res_code r' \<and> res_body r = [] then drop 9 status @ crlf else res_body r)
        \<and> r' = r\<lparr>res_code := res_code r', res_body := body\<rparr>
        \<and> hs = res_headers r
            @ (if res_manual_length_header r \<or> ci_count (res_headers r) ''Content-Length'' \<noteq> 0 then []
               else [(''Content-Length'', show_nat (length body))])
            @ (if server = [] \<or> ci_count (res_headers r) ''Server'' \<noteq> 0 then [] else [(''Server'', server)])
            @ (if keep then [(''Connection'', ''Keep-Alive'')] else [])
        \<and> (\<not> res_manual_length_header r \<and> ci_count (res_headers r) ''Content-Length'' = 0 \<longrightarrow>
            ci_count hs ''Content-Length'' = 1 \<and> get_header_value hs ''Content-Length'' = show_nat (length body)))"
proof -
  obtain l where l: "map_of status_codes (res_code (sent r)) = Some l" using sent_code by blast
  then have line: "status_line (res_code (sent r)) = l @ crlf" using status_line_plain by blast
  from read_written_head[OF assms, of keep "res_body (sent r)"] line
  have head: "read_head (fst (write_header_into_buffer keep server r) @ res_body (sent r)) =
      (l, res_headers r @ extra_headers keep server (sent r), res_body (sent r))"
    by auto
  show ?thesis
    using head sent_parts[OF l] length_added[of "sent r" keep server]
    by (simp add: write_header_eq) (auto simp: extra_headers_def header_names_any_case)
qed

theorem response_framing_witness:
  "read_head (fst (write_header_into_buffer True ''Crow'' (response_code 404)) @ ''404 Not Found'' @ crlf) =
     (''HTTP/1.1 404 Not Found'',
      [(''Content-Length'', ''15''), (''Server'', ''Crow''), (''Connection'', ''Keep-Alive'')], ''404 Not Found'' @ crlf)"
proof -
  let ?sent = "write_header_into_buffer True ''Crow'' (response_code 404)" and ?body = "''404 Not Found'' @ crlf"
  have w: "res_body (snd ?sent) = ?body" "res_code (snd ?sent) = 404" by code_simp+
  obtain status hs body where head: "read_head (fst ?sent @ ?body) = (status, hs, body)" by (metis prod_cases3)
  have h: "\<forall>kv \<in> set (res_headers (response_code 404)). header_ok kv" "CHR 0x0D \<notin> set ''Crow''"
      "ci_count (res_headers (response_code 404)) k = 0" "\<not> res_manual_length_header (response_code 404)" "res_body (response_code 404) = []" for k
    by (simp_all add: response_code_def response_default_def ci_count_def)
  from response_framing[OF h(1,2), of True] head w h(3-5)
  have "(404, status) \<in> set status_codes" "body = drop 9 status @ crlf"
      "hs = res_headers (response_code 404) @ [(''Content-Length'', show_nat (length body)), (''Server'', ''Crow''), (''Connection'', ''Keep-Alive'')]"
    by (auto split: prod.splits)
  moreover from this(1) have "status = ''HTTP/1.1 404 Not Found''" by (simp add: status_codes_def)
  moreover have "show_nat (length ?body) = ''15''" by code_simp
  ultimately show ?thesis using head by (simp add: response_code_def response_default_def)
qed

end
