(* ===== verification/Files.thy ===== *)
theory Files
  imports Response
begin

text \<open>
  Files served by the framework: the names it accepts (\<open>normalize_path\<close> and \<open>sanitize_filename\<close> of
  crow/utility.h), the types by extension (crow/mime_types.h), a file as the body of a response
  (\<open>set_static_file_info\<close> of crow/http_response.h), and the handler of the route for static files
  (\<open>add_static_dir\<close> of crow/app.h).  The file system gives the contents of the regular files.
\<close>

section \<open>Names of files\<close>

definition is_separator :: "char \<Rightarrow> bool" where
  "is_separator c \<longleftrightarrow> c = CHR ''/'' \<or> c = CHR 0x5C"

definition normalize_path :: "string \<Rightarrow> string" where
  "normalize_path directory =
     (let p = map (\<lambda>c. if c = CHR 0x5C then CHR ''/'' else c) directory
      in if p \<noteq> [] \<and> last p \<noteq> CHR ''/'' then p @ ''/'' else p)"

text \<open>
  \<open>sanitizeSpecialFile\<close> on the name from its offset on: the whole match is replaced by one character when
  the name ends after it, or goes on with one of the four characters that still mean the device.
\<close>

definition special_file :: "string \<Rightarrow> bool \<Rightarrow> char \<Rightarrow> string \<Rightarrow> string" where
  "special_file pattern number replacement s =
     (let n = length pattern; m = (if number then n + 1 else n)
      in if map toupper (take n s) \<noteq> pattern then s
         else if number \<and> \<not> (n < length s \<and> CHR ''1'' \<le> s ! n \<and> s ! n \<le> CHR ''9'') then s
         else if length s \<le> m \<or> s ! m = CHR ''.'' \<or> s ! m = CHR '':'' \<or> is_separator (s ! m) then replacement # drop m s
         else s)"

text \<open>The switch on the first character of a part.\<close>

definition special_entry :: "char \<Rightarrow> string \<Rightarrow> string" where
  "special_entry replacement s =
     (let c = toupper (hd s); special = (\<lambda>p number. special_file p number replacement)
      in if c = CHR ''A'' then special ''AUX'' False s
         else if c = CHR ''C'' then special ''COM'' True (special ''CON'' False s)
         else if c = CHR ''L'' then special ''LPT'' True s
         else if c = CHR ''N'' then special ''NUL'' False s
         else if c = CHR ''P'' then special ''PRN'' False s
         else if c = CHR ''.'' then special ''..'' False s
         else s)"

definition forbidden_char :: "char \<Rightarrow> bool" where
  "forbidden_char c \<longleftrightarrow> char_code c < 32 \<or> 128 \<le> char_code c \<and> char_code c \<le> 159 \<or> c \<in> set ''?<>:*|'' \<or> c = CHR 0x22"

lemma special_file_length:
  assumes "p \<noteq> []" "s \<noteq> []"
  shows "length (special_file p number r s) \<le> length s \<and> special_file p number r s \<noteq> []"
  using assms by (cases p; cases s) (auto simp: special_file_def Let_def)

lemma special_entry_length:
  assumes "s \<noteq> []"
  shows "length (special_entry r s) \<le> length s \<and> special_entry r s \<noteq> []"
proof -
  note f = special_file_length[OF list.distinct(2) assms, of _ _ _ r]
  have "length (special_file ''COM'' True r (special_file ''CON'' False r s)) \<le> length s"
      "special_file ''COM'' True r (special_file ''CON'' False r s) \<noteq> []"
    using special_file_length[of "''COM''" "special_file ''CON'' False r s" True r] special_file_length[of "''CON''" s False r] assms
    by auto
  with f assms show ?thesis unfolding special_entry_def Let_def by simp
qed

lemma entry_shrinks: "length (special_entry r (c # cs)) - Suc 0 < Suc (length cs)"
  using special_entry_length[of "c # cs" r] by (simp del: length_0_conv) linarith

text \<open>
  The loop of \<open>sanitize_filename\<close> from the character at the index on.  Erasing only touches what comes
  after the index; the first flag says that it is zero.
\<close>

function sanitize_loop :: "char \<Rightarrow> bool \<Rightarrow> bool \<Rightarrow> string \<Rightarrow> string" where
  "sanitize_loop replacement first special [] = []"
| "sanitize_loop replacement first special (c # cs) =
     (let s = (if special then special_entry replacement (c # cs) else c # cs); c = hd s
      in if forbidden_char c then replacement # sanitize_loop replacement False False (tl s)
         else if is_separator c then
           (if first then replacement # sanitize_loop replacement False False (tl s)
            else c # sanitize_loop replacement False True (tl s))
         else c # sanitize_loop replacement False False (tl s))"
  by pat_completeness auto
termination
  by (relation "measure (\<lambda>(_, _, _, s). length s)") (simp_all add: entry_shrinks)

declare sanitize_loop.simps(2) [simp del]

definition sanitize_filename :: "string \<Rightarrow> char \<Rightarrow> string" where
  "sanitize_filename data replacement = sanitize_loop replacement True True (take 255 data)"

section \<open>What a sanitized name can be\<close>

text \<open>The parts of a path between separators of either kind.\<close>

fun path_parts :: "string \<Rightarrow> string list" where
  "path_parts [] = [[]]"
| "path_parts (c # cs) = (if is_separator c then [] # path_parts cs
     else case path_parts cs of p # ps \<Rightarrow> (c # p) # ps | [] \<Rightarrow> [[c]])"

text \<open>A part that names a device, with or without an extension, or goes up in the tree.\<close>

definition device_names :: "string set" where
  "device_names = {''AUX'', ''CON'', ''NUL'', ''PRN''} \<union> (\<lambda>d. ''COM'' @ [d]) ` {d. CHR ''1'' \<le> d \<and> d \<le> CHR ''9''}
     \<union> (\<lambda>d. ''LPT'' @ [d]) ` {d. CHR ''1'' \<le> d \<and> d \<le> CHR ''9''}"

definition device_part :: "string \<Rightarrow> bool" where
  "device_part p \<longleftrightarrow> map toupper (takeWhile (\<lambda>c. c \<noteq> CHR ''.'' \<and> c \<noteq> CHR '':'') p) \<in> device_names"

definition special_part :: "char \<Rightarrow> string \<Rightarrow> string" where
  "special_part replacement p = (if p = [] then [] else special_entry replacement p)"

definition clean_part :: "char \<Rightarrow> string \<Rightarrow> string" where
  "clean_part replacement p = map (\<lambda>c. if forbidden_char c then replacement else c) (special_part replacement p)"

lemma toupper_separator: "is_separator (toupper c) \<longleftrightarrow> is_separator c"
proof -
  have "toupper c \<noteq> x" if "97 \<le> char_code c" "char_code c \<le> 122" "char_code x < 65 \<or> 90 < char_code x" for x
  proof
    assume "toupper c = x"
    then have "char_code x = char_code c - 32" using that(1,2) by (auto simp: toupper_def char_code_def)
    with that show False by arith
  qed
  moreover have "char_code (CHR ''/'') < 65" "90 < char_code (CHR 0x5C)" by (simp_all add: char_code_def)
  ultimately show ?thesis
    unfolding is_separator_def by (cases "97 \<le> char_code c \<and> char_code c \<le> 122") (auto simp: toupper_def char_code_def)
qed

lemma separator_not_digit: "is_separator c \<Longrightarrow> \<not> (CHR ''1'' \<le> c \<and> c \<le> CHR ''9'')"
  by (auto simp: is_separator_def less_eq_char_def)

lemma special_file_part:
  assumes p: "list_all (\<lambda>c. \<not> is_separator c) p" and w: "list_all (\<lambda>c. \<not> is_separator c) w" "w \<noteq> []"
    and rest: "rest = [] \<or> is_separator (hd rest)"
  shows "special_file w number r (p @ rest) = special_file w number r p @ rest"
proof -
  let ?n = "length w" and ?m = "if number then length w + 1 else length w"
  consider "?m \<le> length p" | "length p < ?n" "rest \<noteq> []" | "rest = []" | "length p = ?n" "number" "rest \<noteq> []"
    by (cases number) force+
  then show ?thesis
  proof cases
    case 1
    then show ?thesis using rest by (cases rest) (auto simp: special_file_def nth_append Let_def)
  next
    case 2
    then obtain c cs where c: "rest = c # cs" "is_separator c" using rest by (cases rest) auto
    have "map toupper (take ?n (p @ rest)) \<noteq> w"
    proof
      assume eq: "map toupper (take ?n (p @ rest)) = w"
      have "c \<in> set (take ?n (p @ rest))" using 2(1) c(1) by (simp add: take_Cons')
      then have "toupper c \<in> set (map toupper (take ?n (p @ rest)))" unfolding set_map by (rule imageI)
      then have "toupper c \<in> set w" unfolding eq .
      with w(1) c(2) show False by (auto simp: list_all_iff toupper_separator)
    qed
    moreover have "map toupper (take ?n p) \<noteq> w" using 2(1) by (metis length_map length_take min.strict_order_iff nat_neq_iff min_def)
    ultimately show ?thesis by (simp add: special_file_def)
  next
    case 3
    then show ?thesis by simp
  next
    case 4
    then obtain c cs where c: "rest = c # cs" "is_separator c" using rest by (cases rest) auto
    with 4 separator_not_digit[OF c(2)] show ?thesis by (auto simp: special_file_def Let_def)
  qed
qed

lemma special_file_no_separator:
  "list_all (\<lambda>c. \<not> is_separator c) p \<Longrightarrow> \<not> is_separator r \<Longrightarrow> list_all (\<lambda>c. \<not> is_separator c) (special_file w number r p)"
  by (auto simp: special_file_def list_all_iff Let_def dest: in_set_dropD)

lemma special_entry_part:
  assumes p: "list_all (\<lambda>c. \<not> is_separator c) p" "p \<noteq> []" and rest: "rest = [] \<or> is_separator (hd rest)" and r: "\<not> is_separator r"
  shows "special_entry r (p @ rest) = special_entry r p @ rest"
proof -
  have names: "list_all (\<lambda>c. \<not> is_separator c) w \<and> w \<noteq> []" if "w \<in> {''AUX'', ''CON'', ''COM'', ''LPT'', ''NUL'', ''PRN'', ''..''}" for w
    using that by (auto simp: is_separator_def)
  have part: "special_file w number r (u @ rest) = special_file w number r u @ rest"
    if "list_all (\<lambda>c. \<not> is_separator c) u" "w \<in> {''AUX'', ''CON'', ''COM'', ''LPT'', ''NUL'', ''PRN'', ''..''}" for w number u
    using special_file_part[OF that(1) _ _ rest, of w number r] names[OF that(2)] by blast
  have con: "list_all (\<lambda>c. \<not> is_separator c) (special_file ''CON'' False r p)" using special_file_no_separator[OF p(1) r] .
  have eqs: "special_file ''AUX'' False r (p @ rest) = special_file ''AUX'' False r p @ rest"
    "special_file ''CON'' False r (p @ rest) = special_file ''CON'' False r p @ rest"
    "special_file ''COM'' True r (special_file ''CON'' False r p @ rest) = special_file ''COM'' True r (special_file ''CON'' False r p) @ rest"
    "special_file ''LPT'' True r (p @ rest) = special_file ''LPT'' True r p @ rest"
    "special_file ''NUL'' False r (p @ rest) = special_file ''NUL'' False r p @ rest"
    "special_file ''PRN'' False r (p @ rest) = special_file ''PRN'' False r p @ rest"
    "special_file ''..'' False r (p @ rest) = special_file ''..'' False r p @ rest"
    by ((rule part[OF p(1)] part[OF con]), simp)+
  have "hd (p @ rest) = hd p" using p(2) by simp
  then show ?thesis unfolding special_entry_def Let_def by (simp only: eqs if_distrib[of "\<lambda>x. x @ rest"])
qed

text \<open>The loop goes through a path part by part.\<close>

lemma loop_in_part:
  "list_all (\<lambda>c. \<not> is_separator c) p \<Longrightarrow> sanitize_loop r first False (p @ rest) =
    map (\<lambda>c. if forbidden_char c then r else c) p @ sanitize_loop r (first \<and> p = []) False rest"
proof (induction p arbitrary: first)
  case (Cons c p)
  then show ?case using Cons.IH[of False] by (simp add: sanitize_loop.simps(2) Let_def)
qed simp

lemma loop_special:
  assumes "s \<noteq> []"
  shows "sanitize_loop r first True s = sanitize_loop r first False (special_entry r s)"
proof -
  obtain c cs d v where s: "s = c # cs" "special_entry r s = d # v"
    using assms special_entry_length[OF assms] by (metis list.exhaust)
  then show ?thesis unfolding s(2) unfolding s(1) by (simp add: sanitize_loop.simps(2) s(2)[unfolded s(1)])
qed

lemma loop_part:
  assumes p: "list_all (\<lambda>c. \<not> is_separator c) p" "p \<noteq> []" and rest: "rest = [] \<or> is_separator (hd rest)" and r: "\<not> is_separator r"
  shows "sanitize_loop r first True (p @ rest) = clean_part r p @ sanitize_loop r False False rest"
proof -
  have ne: "special_entry r p \<noteq> []" using special_entry_length[OF p(2)] by blast
  have sep: "list_all (\<lambda>c. \<not> is_separator c) (special_entry r p)"
    using p(1) r special_file_no_separator[OF p(1) r] special_file_no_separator[OF special_file_no_separator[OF p(1) r] r]
    unfolding special_entry_def Let_def by simp
  have "sanitize_loop r first True (p @ rest) = sanitize_loop r first False (special_entry r (p @ rest))"
    using p(2) by (intro loop_special) simp
  also have "\<dots> = clean_part r p @ sanitize_loop r False False rest"
    unfolding special_entry_part[OF p rest r] using loop_in_part[OF sep, of r first rest] ne p(2)
    by (simp add: clean_part_def special_part_def)
  finally show ?thesis .
qed

lemma parts_sep_free: "list_all (\<lambda>c. \<not> is_separator c) p \<Longrightarrow> path_parts p = [p]"
  by (induction p) auto

lemma parts_append: "list_all (\<lambda>c. \<not> is_separator c) p \<Longrightarrow> is_separator c \<Longrightarrow> path_parts (p @ c # s) = p # path_parts s"
  by (induction p) auto

lemma special_part_no_separator:
  assumes p: "list_all (\<lambda>c. \<not> is_separator c) p" and r: "\<not> is_separator r"
  shows "list_all (\<lambda>c. \<not> is_separator c) (special_part r p)"
  using p special_file_no_separator[OF p r] special_file_no_separator[OF special_file_no_separator[OF p r] r]
  unfolding special_part_def special_entry_def Let_def by simp

lemma clean_part_no_separator:
  assumes "list_all (\<lambda>c. \<not> is_separator c) p" "\<not> is_separator r"
  shows "list_all (\<lambda>c. \<not> is_separator c) (clean_part r p)"
  using special_part_no_separator[OF assms] assms(2) by (auto simp: clean_part_def list_all_iff)

lemma separator_allowed: "is_separator c \<Longrightarrow> \<not> forbidden_char c"
  by (auto simp: is_separator_def forbidden_char_def char_code_def)

lemma part_split: "\<exists>p rest. s = p @ rest \<and> list_all (\<lambda>c. \<not> is_separator c) p \<and> (rest = [] \<or> is_separator (hd rest))"
  using takeWhile_dropWhile_id[of "\<lambda>c. \<not> is_separator c" s] hd_dropWhile[of "\<lambda>c. \<not> is_separator c" s]
  by (intro exI[of _ "takeWhile (\<lambda>c. \<not> is_separator c) s"] exI[of _ "dropWhile (\<lambda>c. \<not> is_separator c) s"])
    (auto simp: list_all_iff dest: set_takeWhileD)

lemma separator_not_special: "is_separator c \<Longrightarrow> special_entry r (c # cs) = c # cs"
  unfolding is_separator_def by (erule disjE) (simp_all add: special_entry_def toupper_def char_code_def)

lemma loop_separator: "is_separator c \<Longrightarrow> sanitize_loop r False special (c # cs) = c # sanitize_loop r False True cs"
  using separator_allowed[of c] by (simp add: sanitize_loop.simps(2) separator_not_special Let_def)

lemma loop_parts:
  assumes r: "\<not> is_separator r"
  shows "path_parts (sanitize_loop r False True s) = map (clean_part r) (path_parts s)"
proof (induction "length s" arbitrary: s rule: less_induct)
  case less
  obtain p rest where s: "s = p @ rest" "list_all (\<lambda>c. \<not> is_separator c) p" "rest = [] \<or> is_separator (hd rest)"
    using part_split by blast
  have out: "sanitize_loop r False True s = clean_part r p @ sanitize_loop r False True rest"
  proof (cases "p = []")
    case True
    then show ?thesis by (simp add: s(1) clean_part_def special_part_def)
  next
    case False
    have "sanitize_loop r False False rest = sanitize_loop r False True rest"
      using s(3) loop_separator by (cases rest) auto
    with loop_part[OF s(2) False s(3) r, of False] show ?thesis by (simp add: s(1))
  qed
  note clean = clean_part_no_separator[OF s(2) r]
  show ?case
  proof (cases rest)
    case Nil
    then show ?thesis using out parts_sep_free[OF clean] parts_sep_free[OF s(2)] by (simp add: s(1))
  next
    case (Cons c cs)
    then have c: "is_separator c" using s(3) by simp
    then have "sanitize_loop r False True rest = c # sanitize_loop r False True cs"
      using loop_separator Cons by simp
    moreover have "path_parts (sanitize_loop r False True cs) = map (clean_part r) (path_parts cs)"
      using Cons s(1) by (intro less) simp
    ultimately show ?thesis
      using out parts_append[OF clean c] parts_append[OF s(2) c] Cons by (simp add: s(1))
  qed
qed

text \<open>When a name is special.\<close>

definition fires :: "string \<Rightarrow> bool \<Rightarrow> string \<Rightarrow> bool" where
  "fires w number s \<longleftrightarrow> (let n = length w; m = (if number then n + 1 else n)
     in map toupper (take n s) = w \<and> (number \<longrightarrow> n < length s \<and> CHR ''1'' \<le> s ! n \<and> s ! n \<le> CHR ''9'')
        \<and> (length s \<le> m \<or> s ! m = CHR ''.'' \<or> s ! m = CHR '':'' \<or> is_separator (s ! m)))"

lemma special_file_fires: "special_file w number r s =
   (if fires w number s then r # drop (if number then length w + 1 else length w) s else s)"
  by (auto simp: special_file_def fires_def Let_def)

lemma fires_hd: "fires w number s \<Longrightarrow> w \<noteq> [] \<Longrightarrow> toupper (hd s) = hd w"
  by (cases s; cases w) (auto simp: fires_def Let_def)

definition specials :: "(string \<times> bool) set" where
  "specials = {(''AUX'', False), (''CON'', False), (''COM'', True), (''LPT'', True), (''NUL'', False), (''PRN'', False), (''..'', False)}"

lemma fired: "fires w number s \<Longrightarrow> special_file w number r s = r # drop (if number then length w + 1 else length w) s"
  by (simp add: special_file_fires)

lemma unfired: "\<not> fires w number s \<Longrightarrow> special_file w number r s = s"
  by (simp add: special_file_fires)

lemma entry_fired:
  assumes "(w, number) \<in> specials" "fires w number p"
  shows "hd (special_entry (CHR ''_'') p) = CHR ''_''"
proof -
  have h: "toupper (hd p) = hd w" using assms by (intro fires_hd) (auto simp: specials_def)
  have com: "special_file ''COM'' True (CHR ''_'') (CHR ''_'' # s) = CHR ''_'' # s" for s
    by (simp add: special_file_def toupper_def char_code_def)
  consider "w = ''CON''" | "w = ''COM''" | "w \<noteq> ''CON''" "w \<noteq> ''COM''" by blast
  then show ?thesis
  proof cases
    case 1
    then have "special_file ''CON'' False (CHR ''_'') p = CHR ''_'' # drop 3 p" using assms fired[of "''CON''" False p] by (auto simp: specials_def eval_nat_numeral)
    then show ?thesis using h 1 com by (simp add: special_entry_def)
  next
    case 2
    then have f: "special_file ''COM'' True (CHR ''_'') p = CHR ''_'' # drop 4 p" using assms fired[of "''COM''" True p] by (auto simp: specials_def eval_nat_numeral)
    show ?thesis
      using h 2 com f by (cases "fires ''CON'' False p") (simp_all add: special_entry_def fired unfired)
  next
    case 3
    have e: "special_entry (CHR ''_'') p = special_file w number (CHR ''_'') p"
      using assms(1) h 3 unfolding specials_def by (elim insertE emptyE) (simp_all add: special_entry_def Let_def)
    show ?thesis unfolding e fired[OF assms(2)] by simp
  qed
qed

lemma entry_unfired:
  assumes "\<And>w number. (w, number) \<in> specials \<Longrightarrow> \<not> fires w number p"
  shows "special_entry r p = p"
proof -
  have "special_file w number r p = p" if "(w, number) \<in> specials" for w number
    using unfired[OF assms[OF that]] .
  note this[of "''AUX''" False] this[of "''CON''" False] this[of "''COM''" True] this[of "''LPT''" True]
    this[of "''NUL''" False] this[of "''PRN''" False] this[of "''..''" False]
  then show ?thesis unfolding specials_def special_entry_def Let_def by simp
qed

definition safe_part :: "string \<Rightarrow> bool" where
  "safe_part p \<longleftrightarrow> list_all (\<lambda>c. \<not> forbidden_char c \<and> \<not> is_separator c) p \<and> \<not> device_part p \<and> p \<noteq> ''..''"

lemma toupper_digit: "toupper c = d \<Longrightarrow> CHR ''1'' \<le> d \<and> d \<le> CHR ''9'' \<Longrightarrow> c = d"
proof -
  assume d: "toupper c = d" "CHR ''1'' \<le> d \<and> d \<le> CHR ''9''"
  have "char_code d \<le> 57" using d(2) by (auto simp: less_eq_char_def char_code_def)
  moreover have "char_code (toupper c) = char_code c - 32" if "97 \<le> char_code c" "char_code c \<le> 122"
    using that by (simp add: toupper_def char_code_def)
  ultimately show ?thesis using d(1) by (auto simp: toupper_def split: if_splits)
qed

lemma device_fires:
  assumes up: "map toupper (take (length w) p) = w" and w: "w \<in> device_names" and stop: "length p \<le> length w \<or> p ! length w = CHR ''.''"
  shows "\<exists>(v, number) \<in> specials. fires v number p"
proof -
  consider "w \<in> {''AUX'', ''CON'', ''NUL'', ''PRN''}"
    | v d where "v \<in> {''COM'', ''LPT''}" "w = v @ [d]" "CHR ''1'' \<le> d \<and> d \<le> CHR ''9''"
    using w unfolding device_names_def by blast
  then show ?thesis
  proof cases
    case 1
    then have "(w, False) \<in> specials" by (auto simp: specials_def)
    moreover have "fires w False p" using up stop by (auto simp: fires_def)
    ultimately show ?thesis by blast
  next
    case (2 v d)
    then have v: "(v, True) \<in> specials" by (auto simp: specials_def)
    have len: "length v < length p" and d: "toupper (p ! length v) = d" and "map toupper (take (length v) p) = v"
    proof -
      have l: "length (take (length w) p) = length w" using up by (metis length_map)
      then show "length v < length p" using 2(2) by simp
      have "map toupper (take (length w) p) ! length v = d" using up 2(2) by simp
      then show "toupper (p ! length v) = d" using l 2(2) by simp
      have "take (length v) (map toupper (take (length w) p)) = v" using up 2(2) by simp
      then show "map toupper (take (length v) p) = v" using 2(2) by (simp add: take_map min_def)
    qed
    moreover have "p ! length v = d" using toupper_digit[OF d 2(3)] .
    ultimately have "fires v True p" using stop 2(2,3) by (auto simp: fires_def)
    with v show ?thesis by blast
  qed
qed

lemma uncleaned_stem:
  "CHR ''_'' \<notin> set (map toupper st) \<Longrightarrow> st = take (length st) (map (\<lambda>c. if forbidden_char c then CHR ''_'' else c) p) \<Longrightarrow>
    st = take (length st) p"
proof (induction st arbitrary: p)
  case (Cons x st)
  have up: "toupper (CHR ''_'') = CHR ''_''" by (simp add: toupper_def char_code_def)
  obtain c q where p: "p = c # q" using Cons.prems(2) by (cases p) auto
  have x: "x = (if forbidden_char c then CHR ''_'' else c)"
    and st: "st = take (length st) (map (\<lambda>c. if forbidden_char c then CHR ''_'' else c) q)"
    using Cons.prems(2) unfolding p by simp_all
  have "x = c" using x Cons.prems(1) up by (auto split: if_splits)
  moreover have "st = take (length st) q" using Cons.IH[OF _ st] Cons.prems(1) by simp
  ultimately show ?case by (simp add: p)
qed simp

lemma clean_part_safe:
  assumes p: "list_all (\<lambda>c. \<not> is_separator c) p"
  shows "safe_part (clean_part (CHR ''_'') p)"
proof -
  let ?san = "\<lambda>c. if forbidden_char c then CHR ''_'' else c" and ?q = "special_part (CHR ''_'') p"
  let ?out = "map ?san ?q"
  have out: "clean_part (CHR ''_'') p = ?out" by (simp add: clean_part_def)
  have u: "\<not> forbidden_char (CHR ''_'')" "\<not> is_separator (CHR ''_'')" by (simp_all add: forbidden_char_def is_separator_def char_code_def)
  have chars: "list_all (\<lambda>c. \<not> forbidden_char c \<and> \<not> is_separator c) ?out"
    using special_part_no_separator[OF p u(2)] u by (auto simp: list_all_iff)
  have letters: "CHR ''_'' \<notin> set w" if "w \<in> device_names" for w
    using that by (auto simp: device_names_def less_eq_char_def)
  have up: "toupper (CHR ''_'') = CHR ''_''" by (simp add: toupper_def char_code_def)
  have "\<not> device_part ?out \<and> ?out \<noteq> ''..''"
  proof (cases "p \<noteq> [] \<and> hd ?q = CHR ''_''")
    case True
    then have "?q \<noteq> []" using special_entry_length[of p] by (simp add: special_part_def)
    then obtain v where q: "?q = CHR ''_'' # v" using True by (cases ?q) auto
    have "CHR ''_'' \<in> set (map toupper (takeWhile (\<lambda>c. c \<noteq> CHR ''.'' \<and> c \<noteq> CHR '':'') ?out))"
      using u(1) up by (simp add: q)
    then have "\<not> device_part ?out" using letters unfolding device_part_def by blast
    moreover have "?out \<noteq> ''..''" using u(1) by (simp add: q)
    ultimately show ?thesis by blast
  next
    case False
    have unf: "\<not> fires w number p" if "(w, number) \<in> specials" for w number
      using entry_fired[OF that] False fires_def[of w number p] that
      by (cases "p = []") (auto simp: special_part_def specials_def)
    have q: "?q = p" using entry_unfired[OF unf] by (simp add: special_part_def)
    have "?out \<noteq> ''..''"
    proof
      assume "?out = ''..''"
      then have "p = ''..''" unfolding q by (auto simp: map_eq_Cons_conv split: if_splits)
      then have "fires ''..'' False p" by (simp add: fires_def toupper_def char_code_def)
      with unf[of "''..''" False] show False by (simp add: specials_def)
    qed
    moreover have "\<not> device_part ?out"
    proof
      let ?stem = "takeWhile (\<lambda>c. c \<noteq> CHR ''.'' \<and> c \<noteq> CHR '':'') ?out"
      let ?w = "map toupper ?stem"
      assume "device_part ?out"
      then have w: "?w \<in> device_names" by (simp add: device_part_def)
      have len: "length ?stem \<le> length p" using length_takeWhile_le[of _ ?out] by (simp add: q)
      have stem: "?stem = take (length ?stem) (map ?san p)" unfolding q by (rule takeWhile_eq_take)
      have "?stem = take (length ?stem) p"
        using uncleaned_stem[OF _ stem] letters[OF w] up by simp
      then have "map toupper (take (length ?w) p) = ?w" by simp
      moreover have "length p \<le> length ?w \<or> p ! length ?w = CHR ''.''"
      proof (cases "length p \<le> length ?w")
        case False
        then have l: "length ?stem < length ?out" by (simp add: q)
        then have "?out ! length ?stem = CHR ''.'' \<or> ?out ! length ?stem = CHR '':''"
          using nth_length_takeWhile[OF l] by auto
        moreover have "?out ! length ?stem = ?san (p ! length ?stem)" using l by (simp add: q)
        moreover have "forbidden_char (CHR '':'')" by (simp add: forbidden_char_def)
        ultimately show ?thesis by (auto split: if_splits)
      qed simp
      ultimately show False using device_fires[of ?w p] w unf by blast
    qed
    ultimately show ?thesis by blast
  qed
  with chars out show ?thesis by (simp add: safe_part_def)
qed

lemma part_free: "p \<in> set (path_parts s) \<Longrightarrow> list_all (\<lambda>c. \<not> is_separator c) p"
  by (induction s arbitrary: p rule: path_parts.induct) (auto split: if_splits list.splits)

lemma marked_part_safe:
  assumes "list_all (\<lambda>c. \<not> is_separator c) p"
  shows "safe_part (CHR ''_'' # map (\<lambda>c. if forbidden_char c then CHR ''_'' else c) p)"
proof -
  have u: "\<not> forbidden_char (CHR ''_'')" "\<not> is_separator (CHR ''_'')" "toupper (CHR ''_'') = CHR ''_''"
    by (simp_all add: forbidden_char_def is_separator_def toupper_def char_code_def)
  let ?out = "CHR ''_'' # map (\<lambda>c. if forbidden_char c then CHR ''_'' else c) p"
  have "CHR ''_'' \<notin> set w" if "w \<in> device_names" for w
    using that by (auto simp: device_names_def less_eq_char_def)
  moreover have "CHR ''_'' \<in> set (map toupper (takeWhile (\<lambda>c. c \<noteq> CHR ''.'' \<and> c \<noteq> CHR '':'') ?out))"
    using u(3) by simp
  ultimately have "\<not> device_part ?out" unfolding device_part_def by blast
  then show ?thesis using assms u by (auto simp: safe_part_def list_all_iff)
qed

lemma loop_length: "length (sanitize_loop r first special s) \<le> length s"
proof (induction "length s" arbitrary: first special s rule: less_induct)
  case less
  show ?case
  proof (cases s)
    case (Cons c cs)
    define u where "u = tl (if special then special_entry r (c # cs) else c # cs)"
    have u: "length u \<le> length cs" using entry_shrinks[of r c cs] by (simp add: u_def)
    have "length (sanitize_loop r f sp u) \<le> length cs" for f sp
      using less[of u f sp] u Cons by simp
    then show ?thesis unfolding Cons sanitize_loop.simps(2) Let_def u_def[symmetric] by simp
  qed simp
qed

lemma absolute_parts:
  assumes "is_separator c"
  shows "\<exists>p ps. path_parts (sanitize_loop (CHR ''_'') True True (c # cs)) = (CHR ''_'' # p) # ps
    \<and> safe_part (CHR ''_'' # p) \<and> (\<forall>q \<in> set ps. safe_part q)"
proof -
  let ?r = "CHR ''_''"
  have r: "\<not> is_separator ?r" by (simp add: is_separator_def)
  obtain p rest where s: "cs = p @ rest" "list_all (\<lambda>c. \<not> is_separator c) p" "rest = [] \<or> is_separator (hd rest)"
    using part_split by blast
  let ?p = "map (\<lambda>c. if forbidden_char c then ?r else c) p"
  have out: "sanitize_loop ?r True True (c # cs) = (?r # ?p) @ sanitize_loop ?r False True rest"
  proof -
    have "sanitize_loop ?r True True (c # cs) = ?r # sanitize_loop ?r False False cs"
      using assms separator_allowed[OF assms] by (simp add: sanitize_loop.simps(2) separator_not_special Let_def)
    also have "sanitize_loop ?r False False cs = ?p @ sanitize_loop ?r False True rest"
      using loop_in_part[OF s(2), of ?r False rest] s(3) loop_separator by (cases rest) (auto simp: s(1))
    finally show ?thesis by simp
  qed
  have free: "list_all (\<lambda>c. \<not> is_separator c) (?r # ?p)" using s(2) r by (auto simp: list_all_iff)
  show ?thesis
  proof (cases rest)
    case Nil
    then show ?thesis using out parts_sep_free[OF free] marked_part_safe[OF s(2)] by auto
  next
    case (Cons d ds)
    then have d: "is_separator d" using s(3) by simp
    have "path_parts (sanitize_loop ?r True True (c # cs)) = (?r # ?p) # path_parts (sanitize_loop ?r False True ds)"
      using parts_append[OF free d] loop_separator[OF d, of ?r True ds] out Cons by simp
    moreover have "\<forall>q \<in> set (path_parts (sanitize_loop ?r False True ds)). safe_part q"
      unfolding loop_parts[OF r] using clean_part_safe part_free by auto
    ultimately show ?thesis using marked_part_safe[OF s(2)] by auto
  qed
qed

section \<open>Types of content\<close>

definition mime_types :: "(string \<times> string) list" where
  "mime_types =
    [(''gz'', ''application/gzip''), (''shtml'', ''text/html''), (''htm'', ''text/html''), (''html'', ''text/html''),
     (''css'', ''text/css''), (''xml'', ''text/xml''), (''gif'', ''image/gif''), (''jpg'', ''image/jpeg''),
     (''jpeg'', ''image/jpeg''), (''js'', ''application/javascript''), (''atom'', ''application/atom+xml''),
     (''rss'', ''application/rss+xml''), (''mml'', ''text/mathml''), (''txt'', ''text/plain''),
     (''jad'', ''text/vnd.sun.j2me.app-descriptor''), (''wml'', ''text/vnd.wap.wml''),
     (''htc'', ''text/x-component''), (''avif'', ''image/avif''), (''png'', ''image/png''),
     (''svgz'', ''image/svg+xml''), (''svg'', ''image/svg+xml''), (''tiff'', ''image/tiff''),
     (''tif'', ''image/tiff''), (''wbmp'', ''image/vnd.wap.wbmp''), (''webp'', ''image/webp''),
     (''ico'', ''image/x-icon''), (''jng'', ''image/x-jng''), (''bmp'', ''image/x-ms-bmp''),
     (''woff'', ''font/woff''), (''woff2'', ''font/woff2''), (''ear'', ''application/java-archive''),
     (''war'', ''application/java-archive''), (''jar'', ''application/java-archive''),
     (''json'', ''application/json''), (''hqx'', ''application/mac-binhex40''), (''doc'', ''application/msword''),
     (''pdf'', ''application/pdf''), (''ai'', ''application/postscript''), (''eps'', ''application/postscript''),
     (''ps'', ''application/postscript''), (''rtf'', ''application/rtf''),
     (''m3u8'', ''application/vnd.apple.mpegurl''), (''kml'', ''application/vnd.google-earth.kml+xml''),
     (''kmz'', ''application/vnd.google-earth.kmz''), (''xls'', ''application/vnd.ms-excel''),
     (''eot'', ''application/vnd.ms-fontobject''), (''ppt'', ''application/vnd.ms-powerpoint''),
     (''odg'', ''application/vnd.oasis.opendocument.graphics''),
     (''odp'', ''application/vnd.oasis.opendocument.presentation''),
     (''ods'', ''application/vnd.oasis.opendocument.spreadsheet''),
     (''odt'', ''application/vnd.oasis.opendocument.text''),
     (''pptx'', ''application/vnd.openxmlformats-officedocument.presentationml.presentation''),
     (''xlsx'', ''application/vnd.openxmlformats-officedocument.spreadsheetml.sheet''),
     (''docx'', ''application/vnd.openxmlformats-officedocument.wordprocessingml.document''),
     (''wmlc'', ''application/vnd.wap.wmlc''), (''wasm'', ''application/wasm''),
     (''7z'', ''application/x-7z-compressed''), (''cco'', ''application/x-cocoa''),
     (''jardiff'', ''application/x-java-archive-diff''), (''jnlp'', ''application/x-java-jnlp-file''),
     (''run'', ''application/x-makeself''), (''pm'', ''application/x-perl''), (''pl'', ''application/x-perl''),
     (''pdb'', ''application/x-pilot''), (''prc'', ''application/x-pilot''),
     (''rar'', ''application/x-rar-compressed''), (''rpm'', ''application/x-redhat-package-manager''),
     (''sea'', ''application/x-sea''), (''swf'', ''application/x-shockwave-flash''),
     (''sit'', ''application/x-stuffit''), (''tk'', ''application/x-tcl''), (''tcl'', ''application/x-tcl''),
     (''crt'', ''application/x-x509-ca-cert''), (''pem'', ''application/x-x509-ca-cert''),
     (''der'', ''application/x-x509-ca-cert''), (''xpi'', ''application/x-xpinstall''),
     (''xhtml'', ''application/xhtml+xml''), (''xspf'', ''application/xspf+xml''), (''zip'', ''application/zip''),
     (''dll'', ''application/octet-stream''), (''exe'', ''application/octet-stream''),
     (''bin'', ''application/octet-stream''), (''deb'', ''application/octet-stream''),
     (''dmg'', ''application/octet-stream''), (''img'', ''application/octet-stream''),
     (''iso'', ''application/octet-stream''), (''msm'', ''application/octet-stream''),
     (''msp'', ''application/octet-stream''), (''msi'', ''application/octet-stream''), (''kar'', ''audio/midi''),
     (''midi'', ''audio/midi''), (''mid'', ''audio/midi''), (''mp3'', ''audio/mpeg''), (''ogg'', ''audio/ogg''),
     (''m4a'', ''audio/x-m4a''), (''ra'', ''audio/x-realaudio''), (''3gp'', ''video/3gpp''),
     (''3gpp'', ''video/3gpp''), (''ts'', ''video/mp2t''), (''mp4'', ''video/mp4''), (''mpg'', ''video/mpeg''),
     (''mpeg'', ''video/mpeg''), (''mov'', ''video/quicktime''), (''webm'', ''video/webm''),
     (''flv'', ''video/x-flv''), (''m4v'', ''video/x-m4v''), (''mng'', ''video/x-mng''),
     (''asf'', ''video/x-ms-asf''), (''asx'', ''video/x-ms-asf''), (''wmv'', ''video/x-ms-wmv''),
     (''avi'', ''video/x-msvideo'')]"

definition get_mime_type :: "string \<Rightarrow> string" where
  "get_mime_type content_type =
     (case map_of mime_types content_type of
        Some t \<Rightarrow> t
      | None \<Rightarrow> if validate_mime_type content_type then content_type else ''text/plain'')"

section \<open>Files as bodies\<close>

text \<open>The text after the last dot, the whole text without one.\<close>

definition extension_of :: "string \<Rightarrow> string" where
  "extension_of path = rev (takeWhile (\<lambda>c. c \<noteq> CHR ''.'') (rev path))"

definition set_static_file_info_unsafe :: "(string \<Rightarrow> string option) \<Rightarrow> string \<Rightarrow> string \<Rightarrow> response \<Rightarrow> response" where
  "set_static_file_info_unsafe fs path content_type r =
     (case fs path of
        None \<Rightarrow> r\<lparr>res_code := 404, res_file := []\<rparr>
      | Some content \<Rightarrow>
          (let r = add_header ''Content-Length'' (show_nat (length content)) (r\<lparr>res_code := 200, res_file := path\<rparr>);
               extension = extension_of path
           in if content_type \<noteq> [] then add_header ''Content-Type'' content_type r
              else if extension \<noteq> [] then add_header ''Content-Type'' (get_mime_type extension) r
              else r))"

definition set_static_file_info :: "(string \<Rightarrow> string option) \<Rightarrow> string \<Rightarrow> string \<Rightarrow> response \<Rightarrow> response" where
  "set_static_file_info fs path content_type r =
     set_static_file_info_unsafe fs (sanitize_filename path (CHR ''_'')) content_type r"

text \<open>The directory and the handler of \<open>add_static_dir\<close>, with the settings of crow/settings.h.\<close>

definition static_dir :: string where "static_dir = normalize_path ''static/''"

definition static_path :: "string \<Rightarrow> string" where
  "static_path partial = static_dir @ sanitize_filename partial (CHR ''_'')"

definition static_handler :: "(string \<Rightarrow> string option) \<Rightarrow> string \<Rightarrow> response \<Rightarrow> response" where
  "static_handler fs partial r = set_static_file_info_unsafe fs (static_path partial) [] r"

section \<open>Properties\<close>

text \<open>C31. Sanitized names stay inside their directory: the result has at most 255 characters, is not absolute,
  and none of its parts between slashes or backslashes is \<open>..\<close>, names a device (with or without an
  extension) or has a character that file systems forbid.  A short relative name is cleaned part by part.\<close>

theorem sanitize_safe:
  shows "length (sanitize_filename s (CHR ''_'')) \<le> 255
    \<and> (\<forall>p \<in> set (path_parts (sanitize_filename s (CHR ''_''))). safe_part p)
    \<and> (sanitize_filename s (CHR ''_'') = [] \<or> \<not> is_separator (hd (sanitize_filename s (CHR ''_''))))
    \<and> (length s \<le> 255 \<and> (s = [] \<or> \<not> is_separator (hd s)) \<longrightarrow>
        path_parts (sanitize_filename s (CHR ''_'')) = map (clean_part (CHR ''_'')) (path_parts s))"
proof -
  let ?r = "CHR ''_''" and ?t = "take 255 s"
  have r: "\<not> is_separator ?r" by (simp add: is_separator_def)
  have len: "length (sanitize_filename s ?r) \<le> 255"
    using loop_length[of ?r True True ?t] by (simp add: sanitize_filename_def)
  have rel: "sanitize_loop ?r True True t = sanitize_loop ?r False True t" if "t = [] \<or> \<not> is_separator (hd t)" for t
  proof -
    obtain p rest where s: "t = p @ rest" "list_all (\<lambda>c. \<not> is_separator c) p" "rest = [] \<or> is_separator (hd rest)"
      using part_split by blast
    show ?thesis
    proof (cases "p = []")
      case True
      then have "t = []" using s that by auto
      then show ?thesis by simp
    next
      case False
      then show ?thesis using loop_part[OF s(2) False s(3) r] by (simp add: s(1))
    qed
  qed
  show ?thesis
  proof (cases "?t = [] \<or> \<not> is_separator (hd ?t)")
    case True
    have out: "sanitize_filename s ?r = sanitize_loop ?r False True ?t"
      using rel[OF True] by (simp add: sanitize_filename_def)
    have parts: "path_parts (sanitize_filename s ?r) = map (clean_part ?r) (path_parts ?t)"
      unfolding out by (rule loop_parts[OF r])
    have safe: "\<forall>p \<in> set (path_parts (sanitize_filename s ?r)). safe_part p"
      unfolding parts using clean_part_safe part_free by auto
    have "sanitize_filename s ?r = [] \<or> \<not> is_separator (hd (sanitize_filename s ?r))"
    proof -
      obtain p rest where s: "?t = p @ rest" "list_all (\<lambda>c. \<not> is_separator c) p" "rest = [] \<or> is_separator (hd rest)"
        using part_split by blast
      show ?thesis
      proof (cases "p = []")
        case True
        then show ?thesis using s \<open>?t = [] \<or> \<not> is_separator (hd ?t)\<close> by (auto simp: out)
      next
        case False
        have "clean_part ?r p \<noteq> []" using special_entry_length[OF False] False by (simp add: clean_part_def special_part_def)
        moreover have "list_all (\<lambda>c. \<not> is_separator c) (clean_part ?r p)" by (rule clean_part_no_separator[OF s(2) r])
        ultimately show ?thesis using loop_part[OF s(2) False s(3) r, of False] out s(1) by (cases "clean_part ?r p") auto
      qed
    qed
    with len safe parts show ?thesis by auto
  next
    case False
    then obtain c cs where c: "?t = c # cs" "is_separator c" by (cases ?t) auto
    then have "\<not> (s = [] \<or> \<not> is_separator (hd s))" by (cases s) auto
    moreover obtain p ps where "path_parts (sanitize_filename s ?r) = (?r # p) # ps" "safe_part (?r # p)" "\<forall>q \<in> set ps. safe_part q"
      using absolute_parts[OF c(2), of cs] c(1) by (auto simp: sanitize_filename_def)
    moreover have "sanitize_filename s ?r = [] \<or> \<not> is_separator (hd (sanitize_filename s ?r))"
      using c r separator_allowed[OF c(2)]
      by (simp add: sanitize_filename_def sanitize_loop.simps(2) separator_not_special Let_def)
    ultimately show ?thesis using len by auto
  qed
qed

theorem sanitize_safe_witness:
  "list_all safe_part (path_parts (sanitize_filename ''../con.txt'' (CHR ''_'')))
    \<and> path_parts (sanitize_filename ''../con.txt'' (CHR ''_'')) = [''_'', ''_.txt'']"
proof -
  have "map (clean_part (CHR ''_'')) (path_parts ''../con.txt'') = [''_'', ''_.txt'']" by code_simp
  moreover have "length ''../con.txt'' \<le> 255" "\<not> is_separator (hd ''../con.txt'')" by (simp_all add: is_separator_def)
  ultimately show ?thesis using sanitize_safe[of "''../con.txt''"] unfolding list_all_iff by metis
qed

end
