(* ===== verification/Reports.thy ===== *)
theory Reports
  imports AirDb Response JsonRead
begin

text \<open>
  The reports of server.cpp: the JSON form of the records (airdp.cpp, \<open>toJSON\<close>), the two count
  reports (airports of an airline, airlines of an airport) and the listings by IATA code, each
  as JSON and as CSV.  The sort comparators are instances of the comparator contract.
\<close>

section \<open>Records as JSON\<close>

text \<open>Consecutive assignments \<open>j["k"] = v\<close>.\<close>

definition wv_assign :: "(string \<times> 'd wvalue) list \<Rightarrow> 'd wvalue \<Rightarrow> 'd wvalue" where
  "wv_assign kvs w = fold (\<lambda>(k, v). wv_set k v) kvs w"

definition airline_toJSON :: "Airline \<Rightarrow> 'd wvalue" where
  "airline_toJSON a = wv_assign
     [(''id'', wv_int (al_id a)), (''name'', WString (al_name a)), (''alias'', WString (al_alias a)),
      (''iata'', WString (al_iata a)), (''icao'', WString (al_icao a)),
      (''callsign'', WString (al_callsign a)), (''country'', WString (al_country a)),
      (''active'', WString (al_active a))] WNull"

definition airport_toJSON :: "'d Airport \<Rightarrow> 'd wvalue" where
  "airport_toJSON ap = wv_assign
     [(''id'', wv_int (ap_id ap)), (''name'', WString (ap_name ap)), (''city'', WString (ap_city ap)),
      (''country'', WString (ap_country ap)), (''iata'', WString (ap_iata ap)), (''icao'', WString (ap_icao ap)),
      (''latitude'', wv_double (ap_latitude ap)), (''longitude'', wv_double (ap_longitude ap)),
      (''altitude_ft'', wv_int (ap_altitude_ft ap)), (''tz_offset'', wv_double (ap_tz_offset ap)),
      (''dst'', WString (ap_dst ap)), (''tz_db'', WString (ap_tz_db ap)),
      (''type'', WString (ap_type ap)), (''source'', WString (ap_source ap))] WNull"

definition route_toJSON :: "Route \<Rightarrow> 'd wvalue" where
  "route_toJSON r = wv_assign
     [(''airline_iata'', WString (rt_airline_iata r)), (''airline_id'', wv_int (rt_airline_id r)),
      (''src_iata'', WString (rt_src_iata r)), (''src_id'', wv_int (rt_src_id r)),
      (''dst_iata'', WString (rt_dst_iata r)), (''dst_id'', wv_int (rt_dst_id r)),
      (''codeshare'', WString (rt_codeshare r)), (''stops'', wv_int (rt_stops r)),
      (''equipment'', WString (rt_equipment r))] WNull"

section \<open>Count reports\<close>

record report_row =
  row_iata :: string
  row_name :: string
  row_n :: int

definition row_less :: "report_row \<Rightarrow> report_row \<Rightarrow> bool" where
  "row_less a b = (if row_n a \<noteq> row_n b then row_n b < row_n a else row_iata a < row_iata b)"

text \<open>
  \<open>++counts[k]\<close>.  A count is an \<open>int\<close> of the source; it is bounded by twice the number of routes, so
  it cannot wrap for a routes file that fits in memory as 32-bit indices.
\<close>

definition count_up :: "string \<Rightarrow> (string, int) umap \<Rightarrow> (string, int) umap" where
  "count_up k counts = umap_modify 0 k (\<lambda>n. n + 1) counts"

text \<open>The \<open>out["items"][idx++] = it\<close> loops.\<close>

definition set_items :: "('a \<Rightarrow> 'd wvalue) \<Rightarrow> 'a list \<Rightarrow> 'd wvalue \<Rightarrow> 'd wvalue" where
  "set_items item xs out =
     snd (fold (\<lambda>x (idx, out). (idx + 1, wv_at_key ''items'' (wv_at_index idx (\<lambda>_. item x)) out)) xs (0, out))"

definition airline_airport_counts :: "'d AirTravelDB \<Rightarrow> string \<Rightarrow> (string, int) umap" where
  "airline_airport_counts db airline_iata =
     fold (\<lambda>r counts. if rt_airline_iata r \<noteq> airline_iata then counts
                       else count_up (rt_dst_iata r) (count_up (rt_src_iata r) counts))
       (SearchRoutes db airline_iata) []"

definition airport_row :: "'d AirTravelDB \<Rightarrow> string \<times> int \<Rightarrow> report_row" where
  "airport_row db kv =
     \<lparr> row_iata = fst kv,
       row_name = (case GetAirportByIATA db (fst kv) of Some ap \<Rightarrow> ap_name ap | None \<Rightarrow> []),
       row_n = snd kv \<rparr>"

definition airline_report_rows :: "'d AirTravelDB \<Rightarrow> string \<Rightarrow> report_row list" where
  "airline_report_rows db airline_iata =
     std_sort row_less (map (airport_row db) (airline_airport_counts db airline_iata))"

definition report_airline_json :: "'d fpops \<Rightarrow> 'd AirTravelDB \<Rightarrow> string \<Rightarrow> response" where
  "report_airline_json fp db airline_iata =
     (let rows = airline_report_rows db airline_iata;
          airline_name = (case GetAirlineByIATA db airline_iata of Some a \<Rightarrow> al_name a | None \<Rightarrow> []);
          out = wv_assign [(''airline_iata'', WString airline_iata), (''airline_name'', WString airline_name),
                           (''items'', WList [])] WNull
      in response_json fp
           (set_items (\<lambda>r. wv_assign [(''airport_iata'', WString (row_iata r)), (''airport_name'', WString (row_name r)),
                                       (''routes_count'', wv_int (row_n r))] WNull) rows out))"

text \<open>One line of a CSV reply: the escaped fields, then the plain ones.\<close>

definition csv_reply :: "string \<Rightarrow> ('a \<Rightarrow> string) \<Rightarrow> 'a list \<Rightarrow> string \<Rightarrow> response" where
  "csv_reply head line rows filename =
     add_header ''Content-Disposition'' (''attachment; filename='' @ [CHR 0x22] @ filename @ [CHR 0x22])
       (add_header ''Content-Type'' ''text/csv; charset=utf-8''
         (response_body (head @ crlf @ concat (map line rows))))"

definition row_csv :: "report_row \<Rightarrow> string" where
  "row_csv r = csv_escape (row_iata r) @ '','' @ csv_escape (row_name r) @ '','' @ show_int (row_n r) @ crlf"

definition report_airline_csv :: "'d AirTravelDB \<Rightarrow> string \<Rightarrow> response" where
  "report_airline_csv db airline_iata =
     csv_reply ''airport_iata,airport_name,routes_count'' row_csv (airline_report_rows db airline_iata)
       (''airline_'' @ airline_iata @ ''_airports.csv'')"

definition airport_airline_counts :: "'d AirTravelDB \<Rightarrow> string \<Rightarrow> (string, int) umap" where
  "airport_airline_counts db airport_iata =
     fold (\<lambda>r counts. if rt_src_iata r = airport_iata \<or> rt_dst_iata r = airport_iata
                       then count_up (rt_airline_iata r) counts else counts)
       (SearchRoutes db airport_iata) []"

definition airline_row :: "'d AirTravelDB \<Rightarrow> string \<times> int \<Rightarrow> report_row" where
  "airline_row db kv =
     \<lparr> row_iata = fst kv,
       row_name = (case GetAirlineByIATA db (fst kv) of Some al \<Rightarrow> al_name al | None \<Rightarrow> []),
       row_n = snd kv \<rparr>"

definition airport_report_rows :: "'d AirTravelDB \<Rightarrow> string \<Rightarrow> report_row list" where
  "airport_report_rows db airport_iata =
     std_sort row_less (map (airline_row db) (airport_airline_counts db airport_iata))"

definition report_airport_json :: "'d fpops \<Rightarrow> 'd AirTravelDB \<Rightarrow> string \<Rightarrow> response" where
  "report_airport_json fp db airport_iata =
     (let rows = airport_report_rows db airport_iata;
          airport_name = (case GetAirportByIATA db airport_iata of Some ap \<Rightarrow> ap_name ap | None \<Rightarrow> []);
          out = wv_assign [(''airport_iata'', WString airport_iata), (''airport_name'', WString airport_name),
                           (''items'', WList [])] WNull
      in response_json fp
           (set_items (\<lambda>r. wv_assign [(''airline_iata'', WString (row_iata r)), (''airline_name'', WString (row_name r)),
                                       (''routes_count'', wv_int (row_n r))] WNull) rows out))"

definition report_airport_csv :: "'d AirTravelDB \<Rightarrow> string \<Rightarrow> response" where
  "report_airport_csv db airport_iata =
     csv_reply ''airline_iata,airline_name,routes_count'' row_csv (airport_report_rows db airport_iata)
       (''airport_'' @ airport_iata @ ''_airlines.csv'')"

section \<open>Listings by IATA code\<close>

definition blank_code :: "string \<Rightarrow> bool" where
  "blank_code s \<longleftrightarrow> s = [] \<or> s = null_mark"

definition airline_iata_less :: "Airline \<Rightarrow> Airline \<Rightarrow> bool" where
  "airline_iata_less a b =
     (let ae = blank_code (al_iata a); be = blank_code (al_iata b)
      in if ae \<noteq> be then \<not> ae else al_iata a < al_iata b)"

definition airport_iata_less :: "'d Airport \<Rightarrow> 'd Airport \<Rightarrow> bool" where
  "airport_iata_less a b =
     (let ae = blank_code (ap_iata a); be = blank_code (ap_iata b)
      in if ae \<noteq> be then \<not> ae else ap_iata a < ap_iata b)"

definition airlines_by_iata_rows :: "'d AirTravelDB \<Rightarrow> Airline list" where
  "airlines_by_iata_rows db = std_sort airline_iata_less (GetAllAirlines db)"

definition airports_by_iata_rows :: "'d AirTravelDB \<Rightarrow> 'd Airport list" where
  "airports_by_iata_rows db = std_sort airport_iata_less (GetAllAirports db)"

definition report_airlines_json :: "'d fpops \<Rightarrow> 'd AirTravelDB \<Rightarrow> response" where
  "report_airlines_json fp db =
     response_json fp
       (fold (\<lambda>a. wv_push (wv_assign
            [(''iata'', WString (al_iata a)), (''icao'', WString (al_icao a)), (''name'', WString (al_name a)),
             (''alias'', WString (al_alias a)), (''country'', WString (al_country a)), (''active'', WString (al_active a))] WNull))
         (airlines_by_iata_rows db) (WList []))"

definition report_airlines_csv :: "'d AirTravelDB \<Rightarrow> response" where
  "report_airlines_csv db =
     csv_reply ''iata,icao,name,alias,country,active''
       (\<lambda>a. csv_escape (al_iata a) @ '','' @ csv_escape (al_icao a) @ '','' @ csv_escape (al_name a) @ '',''
            @ csv_escape (al_alias a) @ '','' @ csv_escape (al_country a) @ '','' @ csv_escape (al_active a) @ crlf)
       (airlines_by_iata_rows db) ''all_airlines_by_iata.csv''"

definition report_airports_json :: "'d fpops \<Rightarrow> 'd AirTravelDB \<Rightarrow> response" where
  "report_airports_json fp db =
     response_json fp (fold (\<lambda>ap. wv_push (airport_toJSON ap)) (airports_by_iata_rows db) (WList []))"

definition report_airports_csv :: "'d fpops \<Rightarrow> 'd AirTravelDB \<Rightarrow> response" where
  "report_airports_csv fp db =
     csv_reply ''iata,icao,name,city,country,latitude,longitude''
       (\<lambda>ap. csv_escape (ap_iata ap) @ '','' @ csv_escape (ap_icao ap) @ '','' @ csv_escape (ap_name ap) @ '',''
            @ csv_escape (ap_city ap) @ '','' @ csv_escape (ap_country ap) @ '',''
            @ fp_stream fp (ap_latitude ap) @ '','' @ fp_stream fp (ap_longitude ap) @ crlf)
       (airports_by_iata_rows db) ''all_airports_by_iata.csv''"

section \<open>Comparators\<close>

interpretation row_ord: key_order "\<lambda>r. (- row_n r, row_iata r)" row_less
  by unfold_locales (auto simp: row_less_def)

interpretation airline_iata_ord: key_order "\<lambda>a. (blank_code (al_iata a), al_iata a)" airline_iata_less
  by unfold_locales (auto simp: airline_iata_less_def Let_def)

interpretation airport_iata_ord: key_order "\<lambda>a. (blank_code (ap_iata a), ap_iata a)" airport_iata_less
  by unfold_locales (auto simp: airport_iata_less_def Let_def)

section \<open>Building objects and lists\<close>

lemma wv_set_object [simp]: "wv_set k v (WObject m) = WObject (umap_put k v m)"
  by (simp add: wv_at_key_def umap_modify_def)

lemma wv_set_null [simp]: "wv_set k v WNull = WObject [(k, v)]"
  by (simp add: wv_at_key_def umap_modify_def umap_put_def)

lemma wv_assign_object:
  "distinct (map fst (m @ kvs)) \<Longrightarrow> fold (\<lambda>(k, v). wv_set k v) kvs (WObject m) = WObject (m @ kvs)"
proof (induction kvs arbitrary: m)
  case (Cons kv kvs)
  obtain k v where kv: "kv = (k, v)" by (cases kv)
  have "k \<notin> fst ` set m" using Cons.prems by (auto simp: kv)
  then have "umap_put k v m = m @ [(k, v)]"
    by (simp add: umap_put_def update_triv map_of_eq_None_iff update_nonempty AList.update_keys)
      (induction m, auto)
  with Cons show ?case by (simp add: kv)
qed simp

lemma wv_assign_null: "distinct (map fst kvs) \<Longrightarrow> kvs \<noteq> [] \<Longrightarrow> wv_assign kvs WNull = WObject kvs"
  using wv_assign_object[of "[hd kvs]" "tl kvs"] by (cases kvs) (auto simp: wv_assign_def)

lemma umap_put_last: "k \<notin> fst ` set m \<Longrightarrow> umap_put k v (m @ [(k, w)]) = m @ [(k, v)]"
  unfolding umap_put_def by (induction m) auto

lemma set_items_list:
  fixes m :: "(string \<times> 'd wvalue) list"
  assumes "''items'' \<notin> fst ` set m"
  shows "set_items item xs (WObject (m @ [(''items'', WList [])])) = WObject (m @ [(''items'', WList (map item xs))])"
proof -
  have find: "map_of (m @ [(''items'', w)]) ''items'' = Some w" for w :: "'d wvalue"
    using assms by (induction m) auto
  have step: "wv_at_key ''items'' (wv_at_index (length l) (\<lambda>_. v)) (WObject (m @ [(''items'', WList l)]))
      = WObject (m @ [(''items'', WList (l @ [v]))])" for l and v :: "'d wvalue"
    using assms umap_put_last[of "''items''" m]
    by (simp add: wv_at_key_def umap_modify_def umap_find_def find wv_at_index_next del: map_of_append)
  have "fold (\<lambda>x (idx, out). (idx + 1, wv_at_key ''items'' (wv_at_index idx (\<lambda>_. item x)) out)) xs
      (length l, WObject (m @ [(''items'', WList l)])) = (length l + length xs, WObject (m @ [(''items'', WList (l @ map item xs))]))"
    for l
  proof (induction xs arbitrary: l)
    case (Cons x xs)
    from Cons.IH[of "l @ [item x]"] show ?case by (simp add: step)
  qed simp
  from this[of "[]"] show ?thesis by (simp add: set_items_def)
qed

lemma set_items_two:
  "k1 \<noteq> ''items'' \<Longrightarrow> k2 \<noteq> ''items'' \<Longrightarrow>
   set_items item xs (WObject [(k1, a), (k2, b), (''items'', WList [])]) =
     WObject [(k1, a), (k2, b), (''items'', WList (map item xs))]"
  using set_items_list[of "[(k1, a), (k2, b)]" item xs] by simp

section \<open>Counting\<close>

definition count_of :: "(string, int) umap \<Rightarrow> string \<Rightarrow> int" where
  "count_of m k = (case umap_find m k of None \<Rightarrow> 0 | Some n \<Rightarrow> n)"

definition counts_ok :: "(string, int) umap \<Rightarrow> bool" where
  "counts_ok m \<longleftrightarrow> umap_ok m \<and> list_all (\<lambda>(k, n). 0 < n) m"

lemma counts_ok_iff: "counts_ok m \<longleftrightarrow> umap_ok m \<and> (\<forall>k n. umap_find m k = Some n \<longrightarrow> 0 < n)"
  by (auto simp: counts_ok_def list_all_iff umap_find_mem)

lemma counts_ok_up: "counts_ok m \<Longrightarrow> counts_ok (count_up k m)"
  by (auto simp: counts_ok_iff count_up_def umap_ok_modify umap_find_modify split: option.splits dest!: spec intro: less_imp_le)

lemma count_of_up: "count_of (count_up k m) k' = count_of m k' + (if k' = k then 1 else 0)"
  by (auto simp: count_of_def count_up_def umap_find_modify split: option.splits)

lemma sum_count_up: "sum_list (map snd (count_up k m)) = sum_list (map snd m) + 1"
proof (induction m)
  case Nil
  then show ?case by (simp add: count_up_def umap_modify_def umap_put_def)
next
  case (Cons p m)
  then show ?case
    by (cases p) (auto simp: count_up_def umap_modify_def umap_put_def umap_find_def)
qed

lemma counts_mem: "counts_ok m \<Longrightarrow> (k, n) \<in> set m \<longleftrightarrow> n = count_of m k \<and> 0 < n"
  by (auto simp: counts_ok_iff count_of_def umap_find_mem[symmetric] split: option.splits)

lemma counts_fold:
  fixes ks :: "Route \<Rightarrow> string list"
  assumes "counts_ok m"
  shows "counts_ok (fold (\<lambda>r m. fold count_up (ks r) m) rs m)
    \<and> count_of (fold (\<lambda>r m. fold count_up (ks r) m) rs m) k = count_of m k + int (count_list (concat (map ks rs)) k)
    \<and> sum_list (map snd (fold (\<lambda>r m. fold count_up (ks r) m) rs m)) = sum_list (map snd m) + int (length (concat (map ks rs)))"
proof -
  have "fold (\<lambda>r m. fold count_up (ks r) m) rs m = fold count_up (concat (map ks rs)) m"
    by (induction rs arbitrary: m) auto
  moreover have "counts_ok (fold count_up l m) \<and> count_of (fold count_up l m) k = count_of m k + int (count_list l k)
    \<and> sum_list (map snd (fold count_up l m)) = sum_list (map snd m) + int (length l)" for l
    using assms by (induction l arbitrary: m) (auto simp: counts_ok_up count_of_up sum_count_up)
  ultimately show ?thesis by simp
qed

lemma counts_ok_Nil [simp]: "counts_ok []" "count_of [] k = 0"
  by (simp_all add: counts_ok_def count_of_def)

text \<open>Both count tables are a count of codes over the matching routes of the whole database.\<close>

definition airline_routes :: "'d AirTravelDB \<Rightarrow> string \<Rightarrow> Route list" where
  "airline_routes db code = filter (\<lambda>r. rt_airline_iata r = code) (routes db)"

definition airport_routes :: "'d AirTravelDB \<Rightarrow> string \<Rightarrow> Route list" where
  "airport_routes db code = filter (\<lambda>r. rt_src_iata r = code \<or> rt_dst_iata r = code) (routes db)"

lemma fold_if_filter: "fold (\<lambda>x s. if P x then f x s else s) xs s = fold f (filter P xs) s"
  by (induction xs arbitrary: s) auto

lemma airline_counts_eq:
  "airline_airport_counts db code =
     fold (\<lambda>r m. fold count_up [rt_src_iata r, rt_dst_iata r] m) (airline_routes db code) []"
proof -
  have "airline_airport_counts db code = fold (\<lambda>r m. if rt_airline_iata r = code
      then fold count_up [rt_src_iata r, rt_dst_iata r] m else m) (SearchRoutes db code) []"
    unfolding airline_airport_counts_def by (rule fold_cong) (auto intro!: ext)
  then show ?thesis
    unfolding fold_if_filter airline_routes_def by (simp add: SearchRoutes_filter_exact)
qed

lemma airport_counts_eq:
  "airport_airline_counts db code =
     fold (\<lambda>r m. fold count_up [rt_airline_iata r] m) (airport_routes db code) []"
proof -
  have "airport_airline_counts db code = fold (\<lambda>r m. if rt_src_iata r = code \<or> rt_dst_iata r = code
      then fold count_up [rt_airline_iata r] m else m) (SearchRoutes db code) []"
    unfolding airport_airline_counts_def by (rule fold_cong) (auto intro!: ext)
  then show ?thesis
    unfolding fold_if_filter airport_routes_def by (simp add: SearchRoutes_filter_exact)
qed

lemma count_list_pairs:
  "count_list (concat (map (\<lambda>r. [f r, g r]) rs)) k =
     length (filter (\<lambda>r. f r = k) rs) + length (filter (\<lambda>r. g r = k) rs)"
  by (induction rs) auto

lemma count_list_singles: "count_list (concat (map (\<lambda>r. [f r]) rs)) k = length (filter (\<lambda>r. f r = k) rs)"
  by (induction rs) auto

lemma length_pairs: "length (concat (map (\<lambda>r. [f r, g r]) rs)) = 2 * length rs"
  by (induction rs) auto

lemma length_singles: "length (concat (map (\<lambda>r. [f r]) rs)) = length rs"
  by (induction rs) auto

lemma airline_counts:
  "counts_ok (airline_airport_counts db code)"
  "count_of (airline_airport_counts db code) k =
     int (length (filter (\<lambda>r. rt_src_iata r = k) (airline_routes db code))
       + length (filter (\<lambda>r. rt_dst_iata r = k) (airline_routes db code)))"
  "sum_list (map snd (airline_airport_counts db code)) = 2 * int (length (airline_routes db code))"
  unfolding airline_counts_eq
  using counts_fold[OF counts_ok_Nil(1), of "\<lambda>r. [rt_src_iata r, rt_dst_iata r]" "airline_routes db code" k]
  by (simp_all only: count_list_pairs length_pairs counts_ok_Nil add_0 list.map sum_list.Nil of_nat_mult of_nat_numeral)

lemma airport_counts:
  "counts_ok (airport_airline_counts db code)"
  "count_of (airport_airline_counts db code) k =
     int (length (filter (\<lambda>r. rt_airline_iata r = k) (airport_routes db code)))"
  "sum_list (map snd (airport_airline_counts db code)) = int (length (airport_routes db code))"
  unfolding airport_counts_eq
  using counts_fold[OF counts_ok_Nil(1), of "\<lambda>r. [rt_airline_iata r]" "airport_routes db code" k]
  by (simp_all only: count_list_singles length_singles counts_ok_Nil add_0 list.map sum_list.Nil)

lemma sorted_report:
  fixes row :: "string \<times> int \<Rightarrow> report_row"
  assumes "counts_ok m" and row: "\<And>k n. row_iata (row (k, n)) = k \<and> row_n (row (k, n)) = n"
  shows "sorted (map (\<lambda>r. (- row_n r, row_iata r)) (std_sort row_less (map row m)))"
    and "distinct (map row_iata (std_sort row_less (map row m)))"
    and "r \<in> set (std_sort row_less (map row m)) \<longleftrightarrow>
      row_n r = count_of m (row_iata r) \<and> 0 < row_n r \<and> r = row (row_iata r, row_n r)"
    and "sum_list (map row_n (std_sort row_less (map row m))) = sum_list (map snd m)"
proof -
  have keys: "map row_iata (map row m) = map fst m" "map row_n (map row m) = map snd m"
    using row by auto
  show "sorted (map (\<lambda>r. (- row_n r, row_iata r)) (std_sort row_less (map row m)))"
    using row_ord.sort_sorted[of "map row m"] by (simp only: row_ord.sorted_keys)
  have "mset (map row_iata (std_sort row_less (map row m))) = mset (map row_iata (map row m))"
    unfolding mset_map by simp
  then show "distinct (map row_iata (std_sort row_less (map row m)))"
    using assms(1) keys(1) by (metis counts_ok_def mset_eq_imp_distinct_iff)
  have "r \<in> row ` set m \<longleftrightarrow> (row_iata r, row_n r) \<in> set m \<and> r = row (row_iata r, row_n r)"
    using row by force
  then show "r \<in> set (std_sort row_less (map row m)) \<longleftrightarrow>
      row_n r = count_of m (row_iata r) \<and> 0 < row_n r \<and> r = row (row_iata r, row_n r)"
    using counts_mem[OF assms(1)] by auto
  have "mset (map row_n (std_sort row_less (map row m))) = mset (map row_n (map row m))"
    unfolding mset_map by simp
  then have "sum_list (map row_n (std_sort row_less (map row m))) = sum_list (map row_n (map row m))"
    by (metis sum_mset_sum_list)
  then show "sum_list (map row_n (std_sort row_less (map row m))) = sum_list (map snd m)"
    by (simp only: keys)
qed

section \<open>Listings with blank codes last\<close>

lemma sorted_blank_last:
  assumes "sorted (map (\<lambda>a. (blank a, key a)) xs)"
  shows "xs = filter (\<lambda>a. \<not> blank a) xs @ filter blank xs \<and> sorted (map key (filter (\<lambda>a. \<not> blank a) xs))"
  using assms
proof (induction xs)
  case (Cons x xs)
  show ?case
  proof (cases "blank x")
    case True
    with Cons.prems have "\<forall>y \<in> set xs. blank y" by auto
    with True show ?thesis by simp
  next
    case False
    with Cons have "xs = filter (\<lambda>a. \<not> blank a) xs @ filter blank xs"
      "sorted (map key (filter (\<lambda>a. \<not> blank a) xs))" by auto
    with False Cons.prems show ?thesis by auto
  qed
qed simp

lemma csv_reply_body: "res_body (csv_reply head line rows name) = head @ crlf @ concat (map line rows)"
  by (simp add: csv_reply_def add_header_def response_body_def)

text \<open>A printed number needs no quotes.\<close>

lemma csv_escape_show_int: "csv_escape (show_int v) = show_int v"
proof -
  have "c \<notin> set (show_int v)" if "c \<in> {CHR '','', CHR 0x22, CHR 0x0A, CHR 0x0D}" for c
    using that set_show_int[of c v] by (auto simp: isdigit_def char_code_def)
  then show ?thesis by (auto simp: csv_escape_eq need_quotes_def list_ex_iff)
qed

lemma row_csv_parses:
  "\<exists>l. row_csv r = l @ crlf \<and> parseCSVLine l = [row_iata r, row_name r, show_int (row_n r)]"
proof (intro exI conjI)
  let ?f = "[row_iata r, row_name r, show_int (row_n r)]"
  show "row_csv r = csv_join (map csv_escape ?f) @ crlf"
    by (simp add: row_csv_def csv_escape_show_int)
  show "parseCSVLine (csv_join (map csv_escape ?f)) = ?f"
    by (simp add: parseCSVLine_def parse_loop_row del: list.map)
qed

lemma rows_csv_parse:
  "\<exists>ls. concat (map row_csv rows) = concat (map (\<lambda>l. l @ crlf) ls)
     \<and> map parseCSVLine ls = map (\<lambda>r. [row_iata r, row_name r, show_int (row_n r)]) rows"
proof (induction rows)
  case (Cons r rows)
  then obtain ls where ls: "concat (map row_csv rows) = concat (map (\<lambda>l. l @ crlf) ls)"
    "map parseCSVLine ls = map (\<lambda>r. [row_iata r, row_name r, show_int (row_n r)]) rows" by blast
  from row_csv_parses[of r] obtain l where l: "row_csv r = l @ crlf"
    "parseCSVLine l = [row_iata r, row_name r, show_int (row_n r)]" by blast
  with ls show ?case by (intro exI[of _ "l # ls"]) simp
qed simp

section \<open>The JSON text of a count report\<close>

definition row_object :: "string \<Rightarrow> string \<Rightarrow> report_row \<Rightarrow> 'd wvalue" where
  "row_object k1 k2 r = WObject [(k1, WString (row_iata r)), (k2, WString (row_name r)),
     (''routes_count'', wv_int (row_n r))]"

definition report_object :: "string \<Rightarrow> string \<Rightarrow> string \<Rightarrow> string \<Rightarrow> 'd wvalue list \<Rightarrow> 'd wvalue" where
  "report_object k1 k2 code name items =
     WObject [(k1, WString code), (k2, WString name), (''items'', WList items)]"

lemma report_airline_json_object:
  fixes fp :: "'d fpops"
  shows "report_airline_json fp db code = response_json fp (report_object ''airline_iata'' ''airline_name'' code
     (case GetAirlineByIATA db code of Some a \<Rightarrow> al_name a | None \<Rightarrow> [])
     (map (row_object ''airport_iata'' ''airport_name'') (airline_report_rows db code)))"
  by (simp add: report_airline_json_def set_items_two wv_assign_null report_object_def row_object_def[abs_def] Let_def)

lemma report_airport_json_object:
  fixes fp :: "'d fpops"
  shows "report_airport_json fp db code = response_json fp (report_object ''airport_iata'' ''airport_name'' code
     (case GetAirportByIATA db code of Some a \<Rightarrow> ap_name a | None \<Rightarrow> [])
     (map (row_object ''airline_iata'' ''airline_name'') (airport_report_rows db code)))"
  by (simp add: report_airport_json_def set_items_two wv_assign_null report_object_def row_object_def[abs_def] Let_def)

lemma report_object_loads:
  fixes fp :: "'d fpops"
  shows "load (dump fp (report_object k1 k2 code name (map (row_object k3 k4) rows))) =
     Some (rv_of fp (report_object k1 k2 code name (map (row_object k3 k4) rows)))"
proof (rule load_dumped)
  show "prints_json fp (report_object k1 k2 code name (map (row_object k3 k4) rows))"
    by (simp add: report_object_def row_object_def list_all_iff wv_int_def dump_number_def json_number_show_int)
  have "nesting (WList (map (row_object k3 k4) rows) :: 'd wvalue) \<le> Suc 1"
    by (rule nesting_list_le) (simp add: row_object_def wv_int_def)
  then show "nesting (report_object k1 k2 code name (map (row_object k3 k4) rows) :: 'd wvalue) \<le> 5000"
    by (simp add: report_object_def del: nesting.simps(1))
qed

section \<open>Properties\<close>

text \<open>C21. The airports report of an airline counts every route of the airline in the whole database once at
  its source and once at its destination, although it only looks at the result of a substring
  search: a row for exactly the airports with a positive count, with the airport's name,
  ordered by falling count and then by code; the counts add up to twice the number of routes.
\<close>

theorem airline_report_exact:
  "let rows = airline_report_rows db code;
       rs = filter (\<lambda>r. rt_airline_iata r = code) (routes db);
       cnt = (\<lambda>k. length (filter (\<lambda>r. rt_src_iata r = k) rs) + length (filter (\<lambda>r. rt_dst_iata r = k) rs))
   in (row \<in> set rows \<longleftrightarrow> row_n row = int (cnt (row_iata row)) \<and> 0 < row_n row
         \<and> row = airport_row db (row_iata row, row_n row))
     \<and> distinct (map row_iata rows) \<and> sorted (map (\<lambda>r. (- row_n r, row_iata r)) rows)
     \<and> sum_list (map row_n rows) = 2 * int (length rs)"
proof -
  have row: "row_iata (airport_row db (k, n)) = k \<and> row_n (airport_row db (k, n)) = n" for k n
    by (simp add: airport_row_def)
  note facts = sorted_report[where row = "airport_row db", OF airline_counts(1)[of db code] row]
  show ?thesis
    unfolding Let_def airline_report_rows_def
    by (intro conjI facts(1,2)) (simp_all only: facts(3,4) airline_counts(2,3) airline_routes_def)
qed

text \<open>The airlines report of an airport counts every route of the whole database that starts or ends
  there once, for its airline: a row for exactly the airline codes with a positive count, ordered
  by falling count and then by code; the counts add up to the number of those routes.
\<close>

theorem airport_report_exact:
  "let rows = airport_report_rows db code;
       rs = filter (\<lambda>r. rt_src_iata r = code \<or> rt_dst_iata r = code) (routes db)
   in (row \<in> set rows \<longleftrightarrow> row_n row = int (length (filter (\<lambda>r. rt_airline_iata r = row_iata row) rs))
         \<and> 0 < row_n row \<and> row = airline_row db (row_iata row, row_n row))
     \<and> distinct (map row_iata rows) \<and> sorted (map (\<lambda>r. (- row_n r, row_iata r)) rows)
     \<and> sum_list (map row_n rows) = int (length rs)"
proof -
  have row: "row_iata (airline_row db (k, n)) = k \<and> row_n (airline_row db (k, n)) = n" for k n
    by (simp add: airline_row_def)
  note facts = sorted_report[where row = "airline_row db", OF airport_counts(1)[of db code] row]
  show ?thesis
    unfolding Let_def airport_report_rows_def
    by (intro conjI facts(1,2)) (simp_all only: facts(3,4) airport_counts(2,3) airport_routes_def)
qed

text \<open>The order of both count reports does not depend on the iteration order of the hash table nor
  on the sorting algorithm: for any iteration order of the count table, any permutation of its
  rows that the comparator accepts as sorted is the report.
\<close>

theorem report_order_unique:
  assumes "umap_equiv c (airline_airport_counts db code)" and "mset ys = mset (map (airport_row db) c)"
    and "is_sorted_by row_less ys"
    and "umap_equiv c' (airport_airline_counts db code)" and "mset ys' = mset (map (airline_row db) c')"
    and "is_sorted_by row_less ys'"
  shows "ys = airline_report_rows db code \<and> ys' = airport_report_rows db code"
proof
  have uniq: "x = y" if "x \<in> f ` A" "y \<in> f ` A" "\<not> row_less x y" "\<not> row_less y x"
      "\<And>k n. row_iata (f (k, n)) = k \<and> row_n (f (k, n)) = n" for x y and f :: "string \<times> int \<Rightarrow> report_row" and A
    using row_ord.incomparable_key[OF that(3,4)] that(1,2,5) by force
  have m: "mset ys = mset (map (airport_row db) (airline_airport_counts db code))"
    "mset ys' = mset (map (airline_row db) (airport_airline_counts db code))"
    using assms by simp_all
  show "ys = airline_report_rows db code"
    unfolding airline_report_rows_def
  proof (rule row_ord.sort_unique[OF assms(3) row_ord.sort_sorted])
    show "x = y" if "x \<in> set ys" "y \<in> set ys" "\<not> row_less x y" "\<not> row_less y x" for x y
      using uniq[of x "airport_row db" "set (airline_airport_counts db code)" y] that mset_eq_setD[OF m(1)]
      by (simp add: airport_row_def)
  qed (use m in simp)
  show "ys' = airport_report_rows db code"
    unfolding airport_report_rows_def
  proof (rule row_ord.sort_unique[OF assms(6) row_ord.sort_sorted])
    show "x = y" if "x \<in> set ys'" "y \<in> set ys'" "\<not> row_less x y" "\<not> row_less y x" for x y
      using uniq[of x "airline_row db" "set (airport_airline_counts db code)" y] that mset_eq_setD[OF m(2)]
      by (simp add: airline_row_def)
  qed (use m in simp)
qed

theorem report_order_unique_witness:
  "airline_report_rows (empty_db :: real AirTravelDB) ''AA'' = [] \<and> airport_report_rows (empty_db :: real AirTravelDB) ''JFK'' = []"
  using report_order_unique[of "[]" "empty_db :: real AirTravelDB" "''AA''" "[]" "[]" "[]"]
    report_order_unique[of "[]" "empty_db :: real AirTravelDB" "''JFK''" "[]" "[]" "[]"]
  by (simp add: airline_airport_counts_def airport_airline_counts_def SearchRoutes_def empty_db_def)

text \<open>The listings by IATA code hold every record of the identifier index exactly once: first the
  records with a code, in the order of their codes, then those with a blank code or the
  missing-value mark.
\<close>

theorem listings_blank_last:
  "(let rows = airlines_by_iata_rows db; coded = filter (\<lambda>a. \<not> blank_code (al_iata a)) rows
    in mset rows = mset (umap_values (airlines_by_id db)) \<and> sorted (map al_iata coded)
       \<and> rows = coded @ filter (\<lambda>a. blank_code (al_iata a)) rows)
   \<and> (let rows = airports_by_iata_rows db; coded = filter (\<lambda>a. \<not> blank_code (ap_iata a)) rows
    in mset rows = mset (umap_values (airports_by_id db)) \<and> sorted (map ap_iata coded)
       \<and> rows = coded @ filter (\<lambda>a. blank_code (ap_iata a)) rows)"
proof -
  have "sorted (map (\<lambda>a. (blank_code (al_iata a), al_iata a)) (airlines_by_iata_rows db))"
    using airline_iata_ord.sort_sorted by (simp only: airlines_by_iata_rows_def airline_iata_ord.sorted_keys)
  note al = sorted_blank_last[OF this]
  have "sorted (map (\<lambda>a. (blank_code (ap_iata a), ap_iata a)) (airports_by_iata_rows db))"
    using airport_iata_ord.sort_sorted by (simp only: airports_by_iata_rows_def airport_iata_ord.sorted_keys)
  note ap = sorted_blank_last[OF this]
  have m: "mset (airlines_by_iata_rows db) = mset (umap_values (airlines_by_id db))"
    "mset (airports_by_iata_rows db) = mset (umap_values (airports_by_id db))"
    by (simp_all add: airlines_by_iata_rows_def airports_by_iata_rows_def GetAllAirlines_def GetAllAirports_def)
  show ?thesis
    unfolding Let_def by (intro conjI al[THEN conjunct1] al[THEN conjunct2] ap[THEN conjunct1] ap[THEN conjunct2] m)
qed

text \<open>The JSON count reports are read back by the JSON reader, whatever characters the codes and names
  hold: an object with the code, its name and the list of rows in report order.
\<close>

theorem report_json_readable:
  "load (res_body (report_airline_json fp db code)) =
     Some (rv_of fp (report_object ''airline_iata'' ''airline_name'' code
       (case GetAirlineByIATA db code of Some a \<Rightarrow> al_name a | None \<Rightarrow> [])
       (map (row_object ''airport_iata'' ''airport_name'') (airline_report_rows db code))))
   \<and> load (res_body (report_airport_json fp db code)) =
     Some (rv_of fp (report_object ''airport_iata'' ''airport_name'' code
       (case GetAirportByIATA db code of Some a \<Rightarrow> ap_name a | None \<Rightarrow> [])
       (map (row_object ''airline_iata'' ''airline_name'') (airport_report_rows db code))))"
  by (simp only: report_airline_json_object report_airport_json_object response_json_simps report_object_loads)

text \<open>The CSV count reports are a heading and one line per report row, and the program's own CSV parser
  reads each line back to the code, the name and the count, whatever commas and quotes the
  name holds.
\<close>

theorem report_csv_readable:
  "(\<exists>ls. res_body (report_airline_csv db code) =
        ''airport_iata,airport_name,routes_count'' @ crlf @ concat (map (\<lambda>l. l @ crlf) ls)
      \<and> map parseCSVLine ls = map (\<lambda>r. [row_iata r, row_name r, show_int (row_n r)]) (airline_report_rows db code))
   \<and> (\<exists>ls. res_body (report_airport_csv db code) =
        ''airline_iata,airline_name,routes_count'' @ crlf @ concat (map (\<lambda>l. l @ crlf) ls)
      \<and> map parseCSVLine ls = map (\<lambda>r. [row_iata r, row_name r, show_int (row_n r)]) (airport_report_rows db code))"
  unfolding report_airline_csv_def report_airport_csv_def csv_reply_body
  using rows_csv_parse[of "airline_report_rows db code"] rows_csv_parse[of "airport_report_rows db code"]
  by auto

end
