(* ===== verification/Server.thy ===== *)
theory Server
  imports Geo Reports Zip
begin

text \<open>
  The rest of server.cpp: start-up, static files, the source archive and the source page, the
  airline and airport lookups and suggestions, the one-hop search and the small endpoints.  A
  handler is a function of the database, of the file system \<open>fs\<close> (the content of each readable
  file) and of its path or query parameters; one that can throw returns an exception or a
  response.  The comparators are instances of the comparator contract.
\<close>

section \<open>Start-up and files\<close>

definition server_db :: "'d fpops \<Rightarrow> (string \<Rightarrow> string option) \<Rightarrow> 'd AirTravelDB" where
  "server_db fp fs =
     (let (_, _, db) = LoadAirlinesCSV fs ''airlines.dat'' empty_db;
          (_, _, db) = LoadAirportsCSV fp fs ''airports.dat'' db;
          (_, _, db) = LoadRoutesCSV fs ''routes.dat'' db
      in db)"

definition read_file_strict :: "(string \<Rightarrow> string option) \<Rightarrow> string \<Rightarrow> string \<Rightarrow> bool \<times> string" where
  "read_file_strict fs path out = (case fs path of None \<Rightarrow> (False, out) | Some content \<Rightarrow> (True, content))"

definition read_file :: "(string \<Rightarrow> string option) \<Rightarrow> string \<Rightarrow> string" where
  "read_file fs path = (case read_file_strict fs path [] of (ok, data) \<Rightarrow> if \<not> ok then [] else data)"

definition not_found :: "string \<Rightarrow> response" where
  "not_found msg = response_code_body 404 msg"

definition h_index :: "(string \<Rightarrow> string option) \<Rightarrow> response" where
  "h_index fs =
     (let html = read_file fs ''index.html''
      in if html = [] then response_code_body 500 ''index.html missing''
         else add_header ''Content-Type'' ''text/html; charset=utf-8'' (response_body html))"

definition h_style_css :: "(string \<Rightarrow> string option) \<Rightarrow> response" where
  "h_style_css fs =
     (let css = read_file fs ''style.css''
      in if css = [] then response_code 404
         else add_header ''Content-Type'' ''text/css; charset=utf-8'' (response_body css))"

definition h_app_js :: "(string \<Rightarrow> string option) \<Rightarrow> response" where
  "h_app_js fs =
     (let js = read_file fs ''app.js''
      in if js = [] then response_code 404
         else add_header ''Content-Type'' ''application/javascript; charset=utf-8'' (response_body js))"

definition source_files :: "string list" where
  "source_files = [''server.cpp'', ''airdp.cpp'', ''airdb.h'', ''index.html'', ''style.css'', ''app.js'']"

definition h_download_source :: "(string \<Rightarrow> string option) \<Rightarrow> response" where
  "h_download_source fs =
     (let zipped = build_zip_from_files fs source_files
      in if zipped = [] then response_code_body 500 ''Source zip unavailable''
         else add_header ''Content-Disposition''
                (''attachment; filename='' @ [CHR 0x22] @ ''air-travel-source.zip'' @ [CHR 0x22])
                (add_header ''Content-Type'' ''application/zip'' (response_body zipped)))"

text \<open>The source page; the frame around a file name is in UTF-8 box-drawing characters.\<close>

definition box_char :: "nat \<Rightarrow> string" where
  "box_char c = [CHR 0xE2, CHR 0x95, char_of c]"

definition box_bar :: string where
  "box_bar = concat (replicate 48 (box_char 0x90))"

definition source_page_entry :: "(string \<Rightarrow> string option) \<Rightarrow> string \<Rightarrow> string" where
  "source_page_entry fs filename =
     (let content = read_file fs filename; nl = [CHR 0x0A]
      in nl @ nl @ box_char 0x94 @ box_bar @ box_char 0x97 @ nl
         @ box_char 0x91 @ ''  FILE: '' @ filename @ replicate (38 - length filename) (CHR '' '') @ box_char 0x91 @ nl
         @ box_char 0x9A @ box_bar @ box_char 0x9D @ nl @ nl
         @ (if content \<noteq> [] then content @ nl
            else ''// [File not found or could not be read]'' @ nl))"

definition h_source_code :: "(string \<Rightarrow> string option) \<Rightarrow> response" where
  "h_source_code fs =
     (let nl = [CHR 0x0A]; bar = replicate 49 (CHR ''='') @ nl;
          combined = bar @ ''  Air Travel Database - Complete Source Code'' @ nl
            @ ''  CIS 22C Capstone Project'' @ nl @ bar @ nl
            @ concat (map (source_page_entry fs)
                [''server.cpp'', ''airdb.h'', ''airdp.cpp'', ''index.html'', ''style.css''])
            @ nl @ nl @ bar @ ''  End of Source Code'' @ nl @ bar
      in add_header ''Content-Disposition'' (''inline; filename='' @ [CHR 0x22] @ ''airdb_source.txt'' @ [CHR 0x22])
           (add_header ''Content-Type'' ''text/plain; charset=utf-8'' (response_body combined)))"

definition h_student_id :: "'d fpops \<Rightarrow> response" where
  "h_student_id fp = response_json fp (wv_assign
     [(''student_id'', WString ''20612701''), (''name'', WString ''Vaishak Renjith''),
      (''course'', WString ''CIS 22C''), (''project'', WString ''Air Travel Database Capstone''),
      (''quarter'', WString ''Fall 2024'')] WNull)"

definition h_code :: response where
  "h_code = response_body ''Use /api/source-code to view the complete source code.''"

section \<open>Lookups\<close>

definition name_matches :: "string \<Rightarrow> string \<Rightarrow> bool" where
  "name_matches ql name = str_contains (lower_string name) ql"

definition h_airline :: "'d fpops \<Rightarrow> 'd AirTravelDB \<Rightarrow> string \<Rightarrow> response" where
  "h_airline fp db term =
     (case GetAirlineByIATA db term of
        Some a \<Rightarrow> response_json fp (airline_toJSON a)
      | None \<Rightarrow>
          (case (if length term = 3 then GetAirlineByICAO db term else None) of
             Some a \<Rightarrow> response_json fp (airline_toJSON a)
           | None \<Rightarrow>
               (case find (\<lambda>a. name_matches (lower_string term) (al_name a)) (GetAllAirlines db) of
                  Some a \<Rightarrow> response_json fp (wv_assign
                    [(''id'', wv_int (al_id a)), (''name'', WString (al_name a)), (''alias'', WString (al_alias a)),
                     (''iata'', WString (al_iata a)), (''icao'', WString (al_icao a)),
                     (''callsign'', WString (al_callsign a)), (''country'', WString (al_country a)),
                     (''active'', WString (al_active a))] WNull)
                | None \<Rightarrow> not_found ''Airline not found'')))"

definition h_airline_by_icao :: "'d fpops \<Rightarrow> 'd AirTravelDB \<Rightarrow> string \<Rightarrow> response" where
  "h_airline_by_icao fp db icao =
     (case GetAirlineByICAO db icao of
        Some a \<Rightarrow> response_json fp (airline_toJSON a)
      | None \<Rightarrow> response_code 404)"

text \<open>The lookup after the attempt by number.\<close>

definition airport_by_code_or_name :: "'d fpops \<Rightarrow> 'd AirTravelDB \<Rightarrow> string \<Rightarrow> response" where
  "airport_by_code_or_name fp db term =
     (case GetAirportByIATA db term of
        Some ap \<Rightarrow> response_json fp (airport_toJSON ap)
      | None \<Rightarrow>
          (case (if length term = 4 then GetAirportByICAO db term else None) of
             Some ap \<Rightarrow> response_json fp (airport_toJSON ap)
           | None \<Rightarrow>
               (case find (\<lambda>ap. name_matches (lower_string term) (ap_name ap)
                              \<or> name_matches (lower_string term) (ap_city ap)) (GetAllAirports db) of
                  Some ap \<Rightarrow> response_json fp (airport_toJSON ap)
                | None \<Rightarrow> not_found ''Airport not found'')))"

definition h_airport :: "'d fpops \<Rightarrow> 'd AirTravelDB \<Rightarrow> string \<Rightarrow> handler_result" where
  "h_airport fp db term =
     (if term \<noteq> [] \<and> list_all isdigit term then
        (case stoi term of
           None \<Rightarrow> Inl Std_exception
         | Some i \<Rightarrow>
             (case GetAirportByID db i of
                Some ap \<Rightarrow> Inr (response_json fp (airport_toJSON ap))
              | None \<Rightarrow> Inr (airport_by_code_or_name fp db term)))
      else Inr (airport_by_code_or_name fp db term))"

section \<open>Suggestions\<close>

record airline_item =
  ali_name :: string
  ali_iata :: string
  ali_icao :: string

record airport_item =
  api_name :: string
  api_city :: string
  api_country :: string
  api_iata :: string
  api_icao :: string

definition suggest_limit :: nat where "suggest_limit = 10"

definition airline_matches :: "string \<Rightarrow> Airline \<Rightarrow> bool" where
  "airline_matches ql a \<longleftrightarrow>
     name_matches ql (al_name a) \<or> name_matches ql (al_iata a) \<or> name_matches ql (al_icao a)"

definition airline_items :: "'d AirTravelDB \<Rightarrow> string \<Rightarrow> airline_item list" where
  "airline_items db q =
     (let ql = lower_string q;
          items = map (\<lambda>a. \<lparr> ali_name = al_name a, ali_iata = al_iata a, ali_icao = al_icao a \<rparr>)
                    (filter (airline_matches ql) (GetAllAirlines db));
          items = std_sort (\<lambda>a b. ali_name a < ali_name b) items
      in if suggest_limit < length items then take suggest_limit items else items)"

text \<open>The query parameter is a C string, null when the query has no \<open>q\<close>.\<close>

definition h_airlines_suggest :: "'d fpops \<Rightarrow> 'd AirTravelDB \<Rightarrow> string option \<Rightarrow> response" where
  "h_airlines_suggest fp db qit =
     (let out = wv_assign [(''items'', WList [])] WNull
      in case qit of
           None \<Rightarrow> response_json fp out
         | Some q \<Rightarrow>
             if q = [] then response_json fp out
             else response_json fp (set_items (\<lambda>it. wv_assign
                    [(''name'', WString (ali_name it)), (''iata'', WString (ali_iata it)),
                     (''icao'', WString (ali_icao it))] WNull) (airline_items db q) out))"

definition airport_matches :: "string \<Rightarrow> 'd Airport \<Rightarrow> bool" where
  "airport_matches ql ap \<longleftrightarrow>
     name_matches ql (ap_name ap) \<or> name_matches ql (ap_city ap) \<or> name_matches ql (ap_country ap)
     \<or> name_matches ql (ap_iata ap) \<or> name_matches ql (ap_icao ap)"

definition airport_items :: "'d AirTravelDB \<Rightarrow> string \<Rightarrow> airport_item list" where
  "airport_items db q =
     (let ql = lower_string q;
          items = map (\<lambda>ap. \<lparr> api_name = ap_name ap, api_city = ap_city ap, api_country = ap_country ap,
                               api_iata = ap_iata ap, api_icao = ap_icao ap \<rparr>)
                    (filter (airport_matches ql) (GetAllAirports db));
          items = std_sort (\<lambda>a b. api_name a < api_name b) items
      in if suggest_limit < length items then take suggest_limit items else items)"

definition h_airports_suggest :: "'d fpops \<Rightarrow> 'd AirTravelDB \<Rightarrow> string option \<Rightarrow> response" where
  "h_airports_suggest fp db qit =
     (let out = wv_assign [(''items'', WList [])] WNull
      in case qit of
           None \<Rightarrow> response_json fp out
         | Some q \<Rightarrow>
             if q = [] then response_json fp out
             else response_json fp (set_items (\<lambda>it. wv_assign
                    [(''name'', WString (api_name it)), (''city'', WString (api_city it)),
                     (''country'', WString (api_country it)), (''iata'', WString (api_iata it)),
                     (''icao'', WString (api_icao it))] WNull) (airport_items db q) out))"

section \<open>Routes and one-hop connections\<close>

definition h_routes :: "'d fpops \<Rightarrow> 'd AirTravelDB \<Rightarrow> string \<Rightarrow> string \<Rightarrow> response" where
  "h_routes fp db src dst =
     response_json fp (fold (\<lambda>r. wv_push (route_toJSON r)) (GetRoutesFromTo db src dst) (WList []))"

record one_hop =
  oh_src :: string
  oh_via :: string
  oh_dst :: string
  oh_leg1_airline :: string
  oh_leg2_airline :: string
  oh_miles :: int

definition hop_miles :: "'d fpops \<Rightarrow> 'd Airport \<Rightarrow> 'd Airport \<Rightarrow> 'd Airport \<Rightarrow> int" where
  "hop_miles fp src_ap via_ap dst_ap =
     (let d1_km = CalculateDistanceKm fp (ap_latitude src_ap) (ap_longitude src_ap) (ap_latitude via_ap) (ap_longitude via_ap);
          d2_km = CalculateDistanceKm fp (ap_latitude via_ap) (ap_longitude via_ap) (ap_latitude dst_ap) (ap_longitude dst_ap)
      in to_int32 (fp_lround fp (fp_mul fp (fp_add fp d1_km d2_km) (fp_lit fp 621371 6))))"

definition first_legs :: "'d AirTravelDB \<Rightarrow> string \<Rightarrow> string \<Rightarrow> Route list" where
  "first_legs db src dst =
     filter (\<lambda>r. rt_src_iata r = src \<and> rt_dst_iata r \<noteq> dst \<and> rt_stops r = 0) (SearchRoutes db src)"

definition hop_results :: "'d fpops \<Rightarrow> 'd AirTravelDB \<Rightarrow> 'd Airport \<Rightarrow> 'd Airport \<Rightarrow> string \<Rightarrow> string \<Rightarrow> one_hop list" where
  "hop_results fp db src_ap dst_ap src dst =
     concat (map (\<lambda>leg1.
       let to_dst = filter (\<lambda>r. \<not> rt_stops r \<noteq> 0) (GetRoutesFromTo db (rt_dst_iata leg1) dst)
       in if to_dst = [] then []
          else case GetAirportByIATA db (rt_dst_iata leg1) of
                 None \<Rightarrow> []
               | Some via_ap \<Rightarrow>
                   map (\<lambda>leg2. \<lparr> oh_src = rt_src_iata leg1, oh_via = rt_dst_iata leg1, oh_dst = rt_dst_iata leg2,
                                 oh_leg1_airline = rt_airline_iata leg1, oh_leg2_airline = rt_airline_iata leg2,
                                 oh_miles = hop_miles fp src_ap via_ap dst_ap \<rparr>) to_dst)
       (first_legs db src dst))"

definition hop_less :: "one_hop \<Rightarrow> one_hop \<Rightarrow> bool" where
  "hop_less a b \<longleftrightarrow> oh_miles a < oh_miles b"

definition hop_json :: "one_hop \<Rightarrow> 'd wvalue" where
  "hop_json r = wv_assign
     [(''src'', WString (oh_src r)), (''via'', WString (oh_via r)), (''dst'', WString (oh_dst r)),
      (''leg1_airline'', WString (oh_leg1_airline r)), (''leg2_airline'', WString (oh_leg2_airline r)),
      (''total_miles'', wv_int (oh_miles r))] WNull"

definition h_onehop :: "'d fpops \<Rightarrow> 'd AirTravelDB \<Rightarrow> string \<Rightarrow> string \<Rightarrow> response" where
  "h_onehop fp db src dst =
     (if src = dst then response_json fp (WList [])
      else case (GetAirportByIATA db src, GetAirportByIATA db dst) of
             (Some src_ap, Some dst_ap) \<Rightarrow>
               response_json fp (fold (\<lambda>r. wv_push (hop_json r))
                 (std_sort hop_less (hop_results fp db src_ap dst_ap src dst)) (WList []))
           | _ \<Rightarrow> not_found ''Source or destination airport not found'')"

section \<open>Comparators\<close>

interpretation airline_item_ord: key_order ali_name "\<lambda>a b. ali_name a < ali_name b"
  by unfold_locales simp

interpretation airport_item_ord: key_order api_name "\<lambda>a b. api_name a < api_name b"
  by unfold_locales simp

interpretation hop_ord: key_order oh_miles hop_less
  by unfold_locales (simp add: hop_less_def)

section \<open>Start-up\<close>

lemma db_ok_route_rows: "db_ok db \<Longrightarrow> db_ok (db\<lparr>routes := routes db @ route_rows c\<rparr>)"
  using route_rows_ok[of c] by (simp add: db_ok_def)

lemma db_ok_loads:
  assumes "db_ok db"
  shows "db_ok (snd (snd (LoadAirlinesCSV fs path db)))" "db_ok (snd (snd (LoadAirportsCSV fp fs path db)))"
    "db_ok (snd (snd (LoadRoutesCSV fs path db)))"
  using assms by (auto simp: LoadAirlinesCSV_def LoadAirportsCSV_def LoadRoutesCSV_def fold_load_airlines
      fold_load_airports fold_load_routes fold_insert_route db_ok_airlines airline_rows_id
      db_ok_airports airport_rows_id db_ok_route_rows split: option.split)

lemma server_db_steps:
  "server_db fp fs = snd (snd (LoadRoutesCSV fs ''routes.dat''
     (snd (snd (LoadAirportsCSV fp fs ''airports.dat'' (snd (snd (LoadAirlinesCSV fs ''airlines.dat'' empty_db))))))))"
  by (simp add: server_db_def case_prod_beta Let_def)

lemma server_db_ok: "db_ok (server_db fp fs)"
  unfolding server_db_steps by (intro db_ok_loads db_ok_empty)

section \<open>First match in name order\<close>

lemma find_sorted_least:
  assumes "sorted (map key xs)" and "find P xs = Some x" and "y \<in> set xs" and "P y"
  shows "key x \<le> (key y :: 'k :: linorder)"
proof -
  obtain i where i: "i < length xs" "P (xs ! i)" "x = xs ! i" "\<forall>j < i. \<not> P (xs ! j)"
    using assms(2) by (auto simp: find_Some_iff)
  obtain j where j: "j < length xs" "y = xs ! j" using assms(3) by (auto simp: in_set_conv_nth)
  with i(4) assms(4) have "i \<le> j" by (meson not_less)
  with assms(1) i j show ?thesis by (simp add: sorted_iff_nth_mono)
qed

lemma GetAllAirlines_props:
  "sorted (map (\<lambda>a. (al_name a, al_iata a)) (GetAllAirlines db))"
  "set (GetAllAirlines db) = set (umap_values (airlines_by_id db))"
  using airline_ord.sort_sorted by (simp_all add: GetAllAirlines_def airline_ord.sorted_keys)

lemma GetAllAirports_props:
  "sorted (map (\<lambda>a. (ap_name a, ap_iata a)) (GetAllAirports db))"
  "set (GetAllAirports db) = set (umap_values (airports_by_id db))"
  using airport_ord.sort_sorted by (simp_all add: GetAllAirports_def airport_ord.sorted_keys)

text \<open>The airline a lookup answers with, as a relation between term and record.\<close>

definition airline_answer :: "'d AirTravelDB \<Rightarrow> string \<Rightarrow> Airline \<Rightarrow> bool" where
  "airline_answer db term a \<longleftrightarrow>
     al_iata a = term \<and> GetAirlineByIATA db term = Some a
     \<or> al_icao a = term \<and> length term = 3 \<and> GetAirlineByIATA db term = None \<and> GetAirlineByICAO db term = Some a
     \<or> a \<in> set (umap_values (airlines_by_id db)) \<and> sublist (lower_string term) (lower_string (al_name a))
        \<and> GetAirlineByIATA db term = None \<and> (length term = 3 \<longrightarrow> GetAirlineByICAO db term = None)
        \<and> (\<forall>b \<in> set (umap_values (airlines_by_id db)). sublist (lower_string term) (lower_string (al_name b))
             \<longrightarrow> (al_name a, al_iata a) \<le> (al_name b, al_iata b))"

lemma airline_by_name:
  "case find (\<lambda>a. name_matches (lower_string t) (al_name a)) (GetAllAirlines db) of
     None \<Rightarrow> \<forall>a \<in> set (umap_values (airlines_by_id db)). \<not> sublist (lower_string t) (lower_string (al_name a))
   | Some a \<Rightarrow> a \<in> set (umap_values (airlines_by_id db)) \<and> sublist (lower_string t) (lower_string (al_name a))
        \<and> (\<forall>b \<in> set (umap_values (airlines_by_id db)). sublist (lower_string t) (lower_string (al_name b))
             \<longrightarrow> (al_name a, al_iata a) \<le> (al_name b, al_iata b))"
proof (cases "find (\<lambda>a. name_matches (lower_string t) (al_name a)) (GetAllAirlines db)")
  case None
  then have "\<forall>a \<in> set (GetAllAirlines db). \<not> name_matches (lower_string t) (al_name a)"
    by (simp add: find_None_iff)
  then show ?thesis
    unfolding None by (simp add: GetAllAirlines_props name_matches_def cpp_string)
next
  case (Some a)
  then have "a \<in> set (GetAllAirlines db)" "name_matches (lower_string t) (al_name a)"
    by (auto simp: find_Some_iff)
  with find_sorted_least[OF GetAllAirlines_props(1) Some] show ?thesis
    unfolding Some by (simp add: GetAllAirlines_props(2) name_matches_def cpp_string)
qed

lemma airline_object: "wv_assign
     [(''id'', wv_int (al_id a)), (''name'', WString (al_name a)), (''alias'', WString (al_alias a)),
      (''iata'', WString (al_iata a)), (''icao'', WString (al_icao a)),
      (''callsign'', WString (al_callsign a)), (''country'', WString (al_country a)),
      (''active'', WString (al_active a))] WNull = airline_toJSON a"
  by (simp only: airline_toJSON_def)

text \<open>The same for airports; \<open>airport_named\<close> is the search in names and cities.\<close>

definition airport_named :: "string \<Rightarrow> 'd Airport \<Rightarrow> bool" where
  "airport_named term a \<longleftrightarrow>
     sublist (lower_string term) (lower_string (ap_name a)) \<or> sublist (lower_string term) (lower_string (ap_city a))"

definition airport_answer :: "'d AirTravelDB \<Rightarrow> string \<Rightarrow> 'd Airport \<Rightarrow> bool" where
  "airport_answer db term a \<longleftrightarrow>
     (let numeric = (term \<noteq> [] \<and> list_all isdigit term); n = int (digits_val 0 term);
          no_id = (numeric \<longrightarrow> GetAirportByID db n = None);
          no_code = (GetAirportByIATA db term = None \<and> (length term = 4 \<longrightarrow> GetAirportByICAO db term = None))
      in numeric \<and> ap_id a = n \<and> GetAirportByID db n = Some a
         \<or> no_id \<and> ap_iata a = term \<and> GetAirportByIATA db term = Some a
         \<or> no_id \<and> ap_icao a = term \<and> length term = 4 \<and> GetAirportByIATA db term = None \<and> GetAirportByICAO db term = Some a
         \<or> no_id \<and> no_code \<and> a \<in> set (umap_values (airports_by_id db)) \<and> airport_named term a
            \<and> (\<forall>b \<in> set (umap_values (airports_by_id db)). airport_named term b
                 \<longrightarrow> (ap_name a, ap_iata a) \<le> (ap_name b, ap_iata b)))"

lemma airport_by_name:
  "case find (\<lambda>a. name_matches (lower_string t) (ap_name a) \<or> name_matches (lower_string t) (ap_city a)) (GetAllAirports db) of
     None \<Rightarrow> \<forall>a \<in> set (umap_values (airports_by_id db)). \<not> airport_named t a
   | Some a \<Rightarrow> a \<in> set (umap_values (airports_by_id db)) \<and> airport_named t a
        \<and> (\<forall>b \<in> set (umap_values (airports_by_id db)). airport_named t b
             \<longrightarrow> (ap_name a, ap_iata a) \<le> (ap_name b, ap_iata b))"
proof -
  have named: "(\<lambda>a. name_matches (lower_string t) (ap_name a) \<or> name_matches (lower_string t) (ap_city a)) = airport_named t"
    by (simp add: fun_eq_iff airport_named_def name_matches_def cpp_string)
  show ?thesis
  proof (cases "find (airport_named t) (GetAllAirports db)")
    case None
    then have "\<forall>a \<in> set (GetAllAirports db). \<not> airport_named t a" by (simp add: find_None_iff)
    then show ?thesis unfolding named None by (simp add: GetAllAirports_props)
  next
    case (Some a)
    then have "a \<in> set (GetAllAirports db)" "airport_named t a" by (auto simp: find_Some_iff)
    with find_sorted_least[OF GetAllAirports_props(1) Some] show ?thesis
      unfolding named Some by (simp add: GetAllAirports_props(2))
  qed
qed

section \<open>Numbers as airport identifiers\<close>

lemma stoi_digits:
  assumes "t \<noteq> []" and "list_all isdigit t"
  shows "stoi t = (if int (digits_val 0 t) \<le> int_max then Some (int (digits_val 0 t)) else None)"
proof -
  obtain c cs where t: "t = c # cs" using assms(1) by (cases t) auto
  have c: "isdigit c" using assms(2) t by simp
  then have "\<not> isspace c" "c \<noteq> CHR ''-''" "c \<noteq> CHR ''+''"
    using not_digit_marks by (auto simp: isdigit_def isspace_def)
  moreover have "takeWhile isdigit t = t"
    using assms(2) by (simp add: takeWhile_eq_all_conv list_all_iff)
  moreover have "int_min \<le> int (digits_val 0 t)" by (simp add: int_min_def)
  ultimately show ?thesis
    using assms(1) by (simp add: stoi_def t in_int32_def)
qed

section \<open>Suggestions\<close>

lemma take_limit: "(if n < length xs then take n xs else xs) = take n xs"
  by simp

lemma mset_map_filter_perm: "mset xs = mset ys \<Longrightarrow> mset (map f (filter P xs)) = mset (map f (filter P ys))"
  by (simp add: filter_mset_set_eq)

section \<open>One-hop connections\<close>

lemma first_legs_eq:
  "first_legs db src dst =
     filter (\<lambda>r. rt_src_iata r = src \<and> rt_dst_iata r \<noteq> dst \<and> rt_stops r = 0) (routes db)"
  unfolding first_legs_def by (rule SearchRoutes_filter_exact) simp

text \<open>The connection made of two legs through an airport.\<close>

definition hop_of :: "'d fpops \<Rightarrow> 'd Airport \<Rightarrow> 'd Airport \<Rightarrow> 'd Airport \<Rightarrow> Route \<Rightarrow> Route \<Rightarrow> one_hop" where
  "hop_of fp s v d leg1 leg2 =
     \<lparr> oh_src = rt_src_iata leg1, oh_via = rt_dst_iata leg1, oh_dst = rt_dst_iata leg2,
       oh_leg1_airline = rt_airline_iata leg1, oh_leg2_airline = rt_airline_iata leg2,
       oh_miles = hop_miles fp s v d \<rparr>"

lemma hop_results_iff:
  "h \<in> set (hop_results fp db s d src dst) \<longleftrightarrow>
     (\<exists>leg1 \<in> set (routes db). \<exists>leg2 \<in> set (routes db). \<exists>v.
        rt_src_iata leg1 = src \<and> rt_dst_iata leg1 \<noteq> dst \<and> rt_stops leg1 = 0 \<and>
        rt_src_iata leg2 = rt_dst_iata leg1 \<and> rt_dst_iata leg2 = dst \<and> rt_stops leg2 = 0 \<and>
        GetAirportByIATA db (rt_dst_iata leg1) = Some v \<and> h = hop_of fp s v d leg1 leg2)"
proof -
  have leg: "h \<in> set (let to_dst = filter (\<lambda>r. \<not> rt_stops r \<noteq> 0) (GetRoutesFromTo db (rt_dst_iata leg1) dst)
       in if to_dst = [] then []
          else case GetAirportByIATA db (rt_dst_iata leg1) of
                 None \<Rightarrow> []
               | Some via_ap \<Rightarrow> map (\<lambda>leg2. hop_of fp s via_ap d leg1 leg2) to_dst) \<longleftrightarrow>
     (\<exists>leg2 \<in> set (routes db). \<exists>v. rt_src_iata leg2 = rt_dst_iata leg1 \<and> rt_dst_iata leg2 = dst \<and> rt_stops leg2 = 0 \<and>
        GetAirportByIATA db (rt_dst_iata leg1) = Some v \<and> h = hop_of fp s v d leg1 leg2)" for leg1
    by (cases "GetAirportByIATA db (rt_dst_iata leg1)")
      (auto simp: GetRoutesFromTo_def Let_def filter_empty_conv)
  show ?thesis
    unfolding hop_results_def hop_of_def[symmetric] first_legs_eq
    by (simp only: set_concat set_map UN_iff set_filter bex_simps leg) blast
qed

lemma hop_miles_real:
  "hop_miles (real_fp rd sh) s v d =
     real_lround ((great_circle_km (ap_latitude s) (ap_longitude s) (ap_latitude v) (ap_longitude v)
       + great_circle_km (ap_latitude v) (ap_longitude v) (ap_latitude d) (ap_longitude d)) * (621371 / 10 ^ 6))"
  (is "_ = real_lround ?x")
proof -
  have b: "0 \<le> ?x"
    using great_circle_bounds(1) by (intro mult_nonneg_nonneg add_nonneg_nonneg) auto
  have "great_circle_km (ap_latitude s) (ap_longitude s) (ap_latitude v) (ap_longitude v)
       + great_circle_km (ap_latitude v) (ap_longitude v) (ap_latitude d) (ap_longitude d) \<le> 25484 + 25484"
    using great_circle_below less_imp_le by (intro add_mono) blast+
  then have "?x \<le> 50968 * (621371 / 10 ^ 6)"
    by (intro mult_right_mono) simp_all
  then have "?x \<le> 2147483646" by simp
  from round_km_real[OF b this, of rd sh] show ?thesis
    by (simp add: hop_miles_def round_km_def CalculateDistanceKm_real Let_def) (simp add: real_fp_def)
qed

lemma great_circle_triangle:
  "great_circle_km a1 b1 a3 b3 \<le> great_circle_km a1 b1 a2 b2 + great_circle_km a2 b2 a3 b3"
  using central_angle_triangle[of "rad a1" "rad b1" "rad a3" "rad b3" "rad a2" "rad b2"]
  by (simp add: great_circle_km_def)

section \<open>Properties\<close>

text \<open>Whatever the three data files hold, and whether or not they can be read, the server starts with
  a database in which every table entry sits under the key of its record and every number is in
  range.
\<close>

theorem startup_invariant: "db_ok (server_db fp fs)"
  by (rule server_db_ok)

text \<open>C33. The airline lookup on a well-formed database: it replies 404 exactly when the term is no IATA
  code, no ICAO code (for three letters) and part of no airline name, letter case ignored;
  otherwise it replies with the JSON of one airline, found in that order of precedence, and among
  several matching names with the least name.
\<close>

theorem airline_lookup:
  assumes "db_ok db"
  shows "if GetAirlineByIATA db t = None \<and> (length t = 3 \<longrightarrow> GetAirlineByICAO db t = None)
            \<and> (\<forall>a \<in> set (umap_values (airlines_by_id db)). \<not> sublist (lower_string t) (lower_string (al_name a)))
         then h_airline fp db t = not_found ''Airline not found''
         else \<exists>a. airline_answer db t a \<and> h_airline fp db t = response_json fp (airline_toJSON a)"
proof -
  have keys: "GetAirlineByIATA db t = Some a \<Longrightarrow> al_iata a = t" "GetAirlineByICAO db t = Some a \<Longrightarrow> al_icao a = t" for a
    using assms table_ok_find[of al_iata keyed "airlines_by_iata db"] table_ok_find[of al_icao keyed "airlines_by_icao db"]
    by (auto simp: db_ok_def GetAirlineByIATA_def GetAirlineByICAO_def)
  show ?thesis
    using airline_by_name[of db t] keys
    by (auto simp: h_airline_def airline_answer_def airline_object split: option.splits)
qed

lemma sample_airline_db: "db_ok (insert_airline sample_airline (empty_db :: real AirTravelDB))"
  using db_ok_airlines[OF db_ok_empty, of "[sample_airline]"] sample_airline_one_line by simp

theorem airline_lookup_witness:
  "h_airline (real_fp (\<lambda>_. None) (\<lambda>_. [])) (insert_airline sample_airline empty_db) ''AAL'' =
     response_json (real_fp (\<lambda>_. None) (\<lambda>_. [])) (airline_toJSON sample_airline)"
proof -
  let ?db = "insert_airline sample_airline (empty_db :: real AirTravelDB)"
  have g: "GetAirlineByIATA ?db ''AAL'' = None" "GetAirlineByICAO ?db ''AAL'' = Some sample_airline"
    by (simp_all add: GetAirlineByIATA_def GetAirlineByICAO_def insert_airline_tables keyed_def umap_find_put)
      (simp_all add: sample_airline_def empty_db_def)
  from airline_lookup[OF sample_airline_db, of "''AAL''" "real_fp (\<lambda>_. None) (\<lambda>_. [])"] g show ?thesis
    by (auto simp: airline_answer_def)
qed

lemma airport_keys:
  assumes "db_ok db"
  shows "GetAirportByID db i = Some a \<Longrightarrow> ap_id a = i" "GetAirportByIATA db t = Some a \<Longrightarrow> ap_iata a = t"
    "GetAirportByICAO db t = Some a \<Longrightarrow> ap_icao a = t"
  using assms table_ok_find[of ap_id _ "airports_by_id db"] table_ok_find[of ap_iata _ "airports_by_iata db"]
    table_ok_find[of ap_icao _ "airports_by_icao db"]
  unfolding db_ok_def GetAirportByID_def GetAirportByIATA_def GetAirportByICAO_def by blast+

lemma airport_by_code_or_name_answer:
  assumes "db_ok db" and "term \<noteq> [] \<and> list_all isdigit term \<longrightarrow> GetAirportByID db (int (digits_val 0 term)) = None"
  shows "if GetAirportByIATA db term = None \<and> (length term = 4 \<longrightarrow> GetAirportByICAO db term = None)
            \<and> (\<forall>a \<in> set (umap_values (airports_by_id db)). \<not> airport_named term a)
         then airport_by_code_or_name fp db term = not_found ''Airport not found''
         else \<exists>a. airport_answer db term a \<and> airport_by_code_or_name fp db term = response_json fp (airport_toJSON a)"
  using airport_by_name[where t = "term" and db = db] airport_keys(2,3)[OF assms(1)] assms(2)
  by (auto simp: airport_by_code_or_name_def airport_answer_def Let_def split: option.splits)

text \<open>C32. The airport lookup on a well-formed database.  A term of digits whose number does not fit the
  type \<open>int\<close> makes the handler throw, which the server answers with status 500, although the text could still
  be a code or part of a name.  Otherwise it replies 404 exactly when the term is no identifier (for
  digits), no IATA code, no ICAO code (for four letters) and part of no airport's name or city, letter case
  ignored; and else with the JSON of one airport, found in that order of precedence, and by name
  the least in the order of names and IATA codes.\<close>

theorem airport_lookup:
  assumes "db_ok db"
  shows "let numeric = (term \<noteq> [] \<and> list_all isdigit term); n = int (digits_val 0 term)
     in if numeric \<and> 2 ^ 31 \<le> n
        then h_airport fp db term = Inl Std_exception \<and> res_code (handled (h_airport fp db term)) = 500
        else if (numeric \<longrightarrow> GetAirportByID db n = None) \<and> GetAirportByIATA db term = None
            \<and> (length term = 4 \<longrightarrow> GetAirportByICAO db term = None)
            \<and> (\<forall>a \<in> set (umap_values (airports_by_id db)).
                 \<not> sublist (lower_string term) (lower_string (ap_name a)) \<and> \<not> sublist (lower_string term) (lower_string (ap_city a)))
        then h_airport fp db term = Inr (not_found ''Airport not found'')
        else \<exists>a. airport_answer db term a \<and> h_airport fp db term = Inr (response_json fp (airport_toJSON a))"
proof (cases "term \<noteq> [] \<and> list_all isdigit term \<and> 2 ^ 31 \<le> int (digits_val 0 term)")
  case True
  then have "h_airport fp db term = Inl Std_exception" by (auto simp: h_airport_def stoi_digits int_max_def)
  then show ?thesis using True
    by (simp add: handled_def default_exception_handler_def response_code_def response_default_def)
next
  case fits: False
  show ?thesis
  proof (cases "term \<noteq> [] \<and> list_all isdigit term \<and> GetAirportByID db (int (digits_val 0 term)) \<noteq> None")
    case True
    then obtain a where a: "GetAirportByID db (int (digits_val 0 term)) = Some a" by blast
    with True fits have "h_airport fp db term = Inr (response_json fp (airport_toJSON a))"
      by (auto simp: h_airport_def stoi_digits int_max_def)
    moreover have "airport_answer db term a"
      using True a airport_keys(1)[OF assms a] by (auto simp: airport_answer_def Let_def)
    ultimately show ?thesis using True fits by (auto simp: Let_def)
  next
    case False
    with fits have h: "h_airport fp db term = Inr (airport_by_code_or_name fp db term)"
      by (auto simp: h_airport_def stoi_digits int_max_def)
    from fits have small: "\<not> ((term \<noteq> [] \<and> list_all isdigit term) \<and> 2 ^ 31 \<le> int (digits_val 0 term))" by blast
    from False have no_id: "term \<noteq> [] \<and> list_all isdigit term \<longrightarrow> GetAirportByID db (int (digits_val 0 term)) = None" by blast
    show ?thesis
      using airport_by_code_or_name_answer[OF assms no_id, of fp]
      by (simp only: Let_def if_not_P[OF small] eqTrueI[OF no_id] h airport_named_def de_Morgan_disj simp_thms sum.inject)
  qed
qed

definition lookup_airport :: "real Airport" where
  "lookup_airport =
     \<lparr> ap_id = 3469, ap_name = ''San Francisco International Airport'', ap_city = ''San Francisco'',
       ap_country = ''United States'', ap_iata = ''SFO'', ap_icao = ''KSFO'', ap_latitude = 37, ap_longitude = - 122,
       ap_altitude_ft = 13, ap_tz_offset = - 8, ap_dst = ''A'', ap_tz_db = [], ap_type = ''airport'', ap_source = [] \<rparr>"

lemma lookup_airport_db: "db_ok (insert_airport lookup_airport empty_db)"
  using db_ok_airports[OF db_ok_empty, of "[lookup_airport]"]
  by (simp add: lookup_airport_def in_int32_def int_min_def int_max_def)

theorem airport_lookup_witness:
  "h_airport (real_fp (\<lambda>_. None) (\<lambda>_. [])) (insert_airport lookup_airport empty_db) ''KSFO'' =
     Inr (response_json (real_fp (\<lambda>_. None) (\<lambda>_. [])) (airport_toJSON lookup_airport))"
proof -
  let ?db = "insert_airport lookup_airport empty_db"
  have g: "GetAirportByIATA ?db ''KSFO'' = None" "GetAirportByICAO ?db ''KSFO'' = Some lookup_airport"
    by (simp_all add: GetAirportByIATA_def GetAirportByICAO_def insert_airport_tables keyed_def umap_find_put)
      (simp_all add: lookup_airport_def empty_db_def)
  have "\<not> list_all isdigit ''KSFO''" by code_simp
  with airport_lookup[OF lookup_airport_db, of "''KSFO''" "real_fp (\<lambda>_. None) (\<lambda>_. [])"] g show ?thesis
    by (auto simp: airport_answer_def Let_def)
qed

lemma airline_items_exact:
  "\<exists>ys. airline_items db q = take 10 ys \<and> sorted (map ali_name ys) \<and>
      mset ys = mset (map (\<lambda>a. \<lparr> ali_name = al_name a, ali_iata = al_iata a, ali_icao = al_icao a \<rparr>)
        (filter (\<lambda>a. \<exists>s \<in> {al_name a, al_iata a, al_icao a}. sublist (lower_string q) (lower_string s))
          (umap_values (airlines_by_id db))))"
proof (intro conjI exI)
  show "airline_items db q = take 10 (std_sort (\<lambda>a b. ali_name a < ali_name b)
      (map (\<lambda>a. \<lparr> ali_name = al_name a, ali_iata = al_iata a, ali_icao = al_icao a \<rparr>)
        (filter (airline_matches (lower_string q)) (GetAllAirlines db))))"
    by (simp only: airline_items_def Let_def suggest_limit_def take_limit)
qed (use airline_item_ord.sort_sorted in
      \<open>simp_all add: airline_item_ord.sorted_keys airline_matches_def name_matches_def cpp_string GetAllAirlines_def\<close>)

lemma airport_items_exact:
  "\<exists>ys. airport_items db q = take 10 ys \<and> sorted (map api_name ys) \<and>
      mset ys = mset (map (\<lambda>ap. \<lparr> api_name = ap_name ap, api_city = ap_city ap, api_country = ap_country ap,
                                   api_iata = ap_iata ap, api_icao = ap_icao ap \<rparr>)
        (filter (\<lambda>ap. \<exists>s \<in> {ap_name ap, ap_city ap, ap_country ap, ap_iata ap, ap_icao ap}.
                    sublist (lower_string q) (lower_string s))
          (umap_values (airports_by_id db))))"
proof (intro conjI exI)
  show "airport_items db q = take 10 (std_sort (\<lambda>a b. api_name a < api_name b)
      (map (\<lambda>ap. \<lparr> api_name = ap_name ap, api_city = ap_city ap, api_country = ap_country ap,
                   api_iata = ap_iata ap, api_icao = ap_icao ap \<rparr>)
        (filter (airport_matches (lower_string q)) (GetAllAirports db))))"
    by (simp only: airport_items_def Let_def suggest_limit_def take_limit)
qed (use airport_item_ord.sort_sorted in
      \<open>simp_all add: airport_item_ord.sorted_keys airport_matches_def name_matches_def cpp_string GetAllAirports_def\<close>)

lemma set_items_only:
  "set_items item xs (wv_assign [(''items'', WList [])] WNull) = WObject [(''items'', WList (map item xs))]"
  using set_items_list[of "[]" item xs] by (simp add: wv_assign_null)

text \<open>C38. The suggestions of both handlers: no items without a query or for an empty one; otherwise the
  first ten, in name order, of exactly the records with the query, letter case ignored, inside one of
  the searched fields.\<close>

theorem suggestions_exact:
  "(\<exists>ys. h_airlines_suggest fp db q = response_json fp (WObject [(''items'', WList (map (\<lambda>(name, iata, icao).
          WObject [(''name'', WString name), (''iata'', WString iata), (''icao'', WString icao)]) (take 10 ys)))])
      \<and> sorted (map fst ys)
      \<and> mset ys = (if q = None \<or> q = Some [] then {#}
          else image_mset (\<lambda>a. (al_name a, al_iata a, al_icao a))
            (filter_mset (\<lambda>a. \<exists>s \<in> {al_name a, al_iata a, al_icao a}. sublist (lower_string (the q)) (lower_string s))
              (mset (umap_values (airlines_by_id db))))))
   \<and> (\<exists>ys. h_airports_suggest fp db q = response_json fp (WObject [(''items'', WList (map (\<lambda>(name, city, country, iata, icao).
          WObject [(''name'', WString name), (''city'', WString city), (''country'', WString country),
            (''iata'', WString iata), (''icao'', WString icao)]) (take 10 ys)))])
      \<and> sorted (map fst ys)
      \<and> mset ys = (if q = None \<or> q = Some [] then {#}
          else image_mset (\<lambda>ap. (ap_name ap, ap_city ap, ap_country ap, ap_iata ap, ap_icao ap))
            (filter_mset (\<lambda>ap. \<exists>s \<in> {ap_name ap, ap_city ap, ap_country ap, ap_iata ap, ap_icao ap}.
                sublist (lower_string (the q)) (lower_string s))
              (mset (umap_values (airports_by_id db))))))"
proof (cases "q = None \<or> q = Some []")
  case True
  then have "h_airlines_suggest fp db q = response_json fp (WObject [(''items'', WList [])])"
    "h_airports_suggest fp db q = response_json fp (WObject [(''items'', WList [])])"
    by (auto simp: h_airlines_suggest_def h_airports_suggest_def wv_assign_null Let_def)
  with True show ?thesis by (intro conjI exI[of _ "[]"]) simp_all
next
  case False
  then obtain s where s: "q = Some s" "s \<noteq> []" by (cases q) auto
  let ?al = "\<lambda>it. (ali_name it, ali_iata it, ali_icao it)"
  let ?ap = "\<lambda>it. (api_name it, api_city it, api_country it, api_iata it, api_icao it)"
  obtain xs where x: "airline_items db s = take 10 xs" "sorted (map ali_name xs)"
      "mset xs = mset (map (\<lambda>a. \<lparr> ali_name = al_name a, ali_iata = al_iata a, ali_icao = al_icao a \<rparr>)
        (filter (\<lambda>a. \<exists>t \<in> {al_name a, al_iata a, al_icao a}. sublist (lower_string s) (lower_string t))
          (umap_values (airlines_by_id db))))"
    using airline_items_exact by blast
  obtain ys where y: "airport_items db s = take 10 ys" "sorted (map api_name ys)"
      "mset ys = mset (map (\<lambda>ap. \<lparr> api_name = ap_name ap, api_city = ap_city ap, api_country = ap_country ap,
                                   api_iata = ap_iata ap, api_icao = ap_icao ap \<rparr>)
        (filter (\<lambda>ap. \<exists>t \<in> {ap_name ap, ap_city ap, ap_country ap, ap_iata ap, ap_icao ap}.
            sublist (lower_string s) (lower_string t))
          (umap_values (airports_by_id db))))"
    using airport_items_exact by blast
  show ?thesis
  proof (intro conjI exI)
    show "h_airlines_suggest fp db q = response_json fp (WObject [(''items'', WList (map (\<lambda>(name, iata, icao).
          WObject [(''name'', WString name), (''iata'', WString iata), (''icao'', WString icao)]) (take 10 (map ?al xs))))])"
      using s by (simp add: h_airlines_suggest_def set_items_only x(1) take_map[symmetric]) (simp add: wv_assign_null comp_def take_map)
    show "h_airports_suggest fp db q = response_json fp (WObject [(''items'', WList (map (\<lambda>(name, city, country, iata, icao).
          WObject [(''name'', WString name), (''city'', WString city), (''country'', WString country),
            (''iata'', WString iata), (''icao'', WString icao)]) (take 10 (map ?ap ys))))])"
      using s by (simp add: h_airports_suggest_def set_items_only y(1) take_map[symmetric]) (simp add: wv_assign_null comp_def take_map)
    show "sorted (map fst (map ?al xs))" "sorted (map fst (map ?ap ys))" using x(2) y(2) by (simp_all add: comp_def)
  qed (use s in \<open>simp_all add: x(3) y(3) image_mset.compositionality comp_def\<close>)
qed

text \<open>C1. The one-hop search between two known, different airports lists exactly the pairs of non-stop
  routes that meet in a known airport other than the destination, ordered by distance.
\<close>

theorem onehop_exact:
  assumes "src \<noteq> dst" and "GetAirportByIATA db src = Some s" and "GetAirportByIATA db dst = Some d"
  shows "\<exists>hops. h_onehop fp db src dst = response_json fp (WList (map hop_json hops))
    \<and> sorted (map oh_miles hops)
    \<and> (\<forall>h. h \<in> set hops \<longleftrightarrow>
        (\<exists>leg1 \<in> set (routes db). \<exists>leg2 \<in> set (routes db). \<exists>v.
          rt_src_iata leg1 = src \<and> rt_dst_iata leg1 \<noteq> dst \<and> rt_stops leg1 = 0 \<and>
          rt_src_iata leg2 = rt_dst_iata leg1 \<and> rt_dst_iata leg2 = dst \<and> rt_stops leg2 = 0 \<and>
          GetAirportByIATA db (rt_dst_iata leg1) = Some v \<and> h = hop_of fp s v d leg1 leg2))"
proof (intro exI conjI allI)
  let ?hops = "std_sort hop_less (hop_results fp db s d src dst)"
  show "h_onehop fp db src dst = response_json fp (WList (map hop_json ?hops))"
    using assms by (simp add: h_onehop_def fold_wv_push)
  show "sorted (map oh_miles ?hops)"
    using hop_ord.sort_sorted by (simp only: hop_ord.sorted_keys)
  show "h \<in> set ?hops \<longleftrightarrow> (\<exists>leg1 \<in> set (routes db). \<exists>leg2 \<in> set (routes db). \<exists>v.
          rt_src_iata leg1 = src \<and> rt_dst_iata leg1 \<noteq> dst \<and> rt_stops leg1 = 0 \<and>
          rt_src_iata leg2 = rt_dst_iata leg1 \<and> rt_dst_iata leg2 = dst \<and> rt_stops leg2 = 0 \<and>
          GetAirportByIATA db (rt_dst_iata leg1) = Some v \<and> h = hop_of fp s v d leg1 leg2)" for h
    by (simp only: set_std_sort hop_results_iff)
qed

definition demo_airport :: "string \<Rightarrow> real \<Rightarrow> real \<Rightarrow> real Airport" where
  "demo_airport iata lat lon =
     \<lparr> ap_id = 1, ap_name = iata, ap_city = [], ap_country = [], ap_iata = iata, ap_icao = [],
       ap_latitude = lat, ap_longitude = lon, ap_altitude_ft = 0, ap_tz_offset = 0, ap_dst = [],
       ap_tz_db = [], ap_type = [], ap_source = [] \<rparr>"

definition demo_db :: "real AirTravelDB" where
  "demo_db = empty_db\<lparr>
     airports_by_iata := [(''SFO'', demo_airport ''SFO'' 37 (- 122)), (''JFK'', demo_airport ''JFK'' 40 (- 73)),
                          (''LHR'', demo_airport ''LHR'' 51 0)],
     routes := [sample_route, sample_route\<lparr>rt_src_iata := ''JFK'', rt_dst_iata := ''LHR''\<rparr>]\<rparr>"

theorem onehop_exact_witness:
  "\<exists>hops. hops \<noteq> [] \<and> h_onehop (real_fp (\<lambda>_. None) (\<lambda>_. [])) demo_db ''SFO'' ''LHR'' =
     response_json (real_fp (\<lambda>_. None) (\<lambda>_. [])) (WList (map hop_json hops))"
proof -
  let ?fp = "real_fp (\<lambda>_. None) (\<lambda>_. [])"
  let ?s = "demo_airport ''SFO'' 37 (- 122)" and ?v = "demo_airport ''JFK'' 40 (- 73)" and ?d = "demo_airport ''LHR'' 51 0"
  let ?r2 = "sample_route\<lparr>rt_src_iata := ''JFK'', rt_dst_iata := ''LHR''\<rparr>"
  have ap: "GetAirportByIATA demo_db ''SFO'' = Some ?s" "GetAirportByIATA demo_db ''JFK'' = Some ?v"
    "GetAirportByIATA demo_db ''LHR'' = Some ?d"
    by (simp_all add: GetAirportByIATA_def demo_db_def umap_find_def)
  have r: "sample_route \<in> set (routes demo_db)" "?r2 \<in> set (routes demo_db)"
    by (simp_all add: demo_db_def)
  obtain hops where h: "h_onehop ?fp demo_db ''SFO'' ''LHR'' = response_json ?fp (WList (map hop_json hops))"
    "\<forall>h. h \<in> set hops \<longleftrightarrow> (\<exists>leg1 \<in> set (routes demo_db). \<exists>leg2 \<in> set (routes demo_db). \<exists>v.
          rt_src_iata leg1 = ''SFO'' \<and> rt_dst_iata leg1 \<noteq> ''LHR'' \<and> rt_stops leg1 = 0 \<and>
          rt_src_iata leg2 = rt_dst_iata leg1 \<and> rt_dst_iata leg2 = ''LHR'' \<and> rt_stops leg2 = 0 \<and>
          GetAirportByIATA demo_db (rt_dst_iata leg1) = Some v \<and> h = hop_of ?fp ?s v ?d leg1 leg2)"
    using onehop_exact[OF _ ap(1) ap(3), of ?fp] by auto
  have "hop_of ?fp ?s ?v ?d sample_route ?r2 \<in> set hops"
    unfolding h(2)[rule_format] using ap(2) r
    by (intro bexI[of _ sample_route] bexI[of _ ?r2] exI[of _ ?v]) (simp_all add: sample_route_def)
  with h(1) show ?thesis by (intro exI[of _ hops]) auto
qed

text \<open>In exact arithmetic the reported miles of a connection are the sum of the two great-circle
  distances, converted and rounded to the nearest integer, with no overflow in the cast to
  \<open>int\<close>; they are never below the rounded direct distance.
\<close>

theorem hop_miles_exact:
  "\<bar>of_int (hop_miles (real_fp rd sh) s v d)
      - (great_circle_km (ap_latitude s) (ap_longitude s) (ap_latitude v) (ap_longitude v)
         + great_circle_km (ap_latitude v) (ap_longitude v) (ap_latitude d) (ap_longitude d)) * 0.621371\<bar> \<le> 1 / 2
   \<and> real_lround (great_circle_km (ap_latitude s) (ap_longitude s) (ap_latitude d) (ap_longitude d) * 0.621371)
      \<le> hop_miles (real_fp rd sh) s v d"
  unfolding hop_miles_real
  by (intro conjI real_lround_near real_lround_mono mult_right_mono great_circle_triangle) simp

text \<open>The source download replies with status 500 exactly when one of the six files cannot be read;
  otherwise with an archive that a reader of the format unpacks to exactly the six names and contents, in
  order, as long as it stays below the 4 GB that the format's 32-bit sizes allow.
\<close>

theorem download_source_archive:
  assumes "length (res_body (h_download_source fs)) < 4294967296"
  shows "if \<exists>f \<in> set source_files. fs f = None then res_code (h_download_source fs) = 500
     else res_code (h_download_source fs) = 200
       \<and> get_header_value (res_headers (h_download_source fs)) ''Content-Type'' = ''application/zip''
       \<and> unzip (res_body (h_download_source fs)) = Some (map (\<lambda>f. (f, the (fs f))) source_files)"
proof (cases "\<exists>f \<in> set source_files. fs f = None")
  case True
  then have "build_zip_from_files fs source_files = []" by (simp add: zip_empty_iff_unreadable)
  with True show ?thesis
    by (simp add: h_download_source_def response_code_body_def response_default_def)
next
  case False
  then have ne: "build_zip_from_files fs source_files \<noteq> []"
    by (simp add: zip_empty_iff_unreadable)
  then have b: "res_body (h_download_source fs) = build_zip_from_files fs source_files"
    by (simp add: h_download_source_def add_header_def response_body_def Let_def)
  have "unzip (build_zip_from_files fs source_files) = Some (map (\<lambda>f. (f, the (fs f))) source_files)"
    by (rule unzip_build) (use False assms b in \<open>auto simp: source_files_def\<close>)
  with False ne b show ?thesis
    by (simp add: h_download_source_def add_header_def response_body_def response_default_def Let_def
        get_header_value_def ci_count_def ci_emplace_def string_equals_def)
qed

theorem download_source_archive_witness:
  "res_code (h_download_source (\<lambda>_. None)) = 500"
proof -
  have ex: "\<exists>f \<in> set source_files. (\<lambda>_. None :: string option) f = None"
    by (auto simp: source_files_def)
  then have "h_download_source (\<lambda>_. None) = response_code_body 500 ''Source zip unavailable''"
    by (simp add: h_download_source_def zip_empty_iff_unreadable)
  then have "length (res_body (h_download_source (\<lambda>_. None))) < 4294967296"
    by (simp add: response_code_body_def)
  from download_source_archive[OF this] show ?thesis
    using ex by (simp split: if_splits)
qed

end
