(* ===== verification/QueryString.thy ===== *)
theory QueryString
  imports CppStd
begin

text \<open>
  Query strings (crow/query_string.h).  The parser works in place: it decodes each value inside the
  one buffer that all pairs point into.  The buffer is a list with its terminating zero byte, a
  \<open>char*\<close> an index into it.  The in-place code is shown to refine a description by independent
  pairs, and reading back a percent-encoded query is shown to give the encoded values.
\<close>

section \<open>Characters\<close>

definition qs_ishex :: "char \<Rightarrow> bool" where
  "qs_ishex x \<longleftrightarrow> isdigit x \<or> 65 \<le> char_code x \<and> char_code x \<le> 70 \<or> 97 \<le> char_code x \<and> char_code x \<le> 102"

definition qs_hex2dec :: "char \<Rightarrow> nat" where
  "qs_hex2dec x = (if isdigit x then char_code x - 48
     else if 65 \<le> char_code x \<and> char_code x \<le> 70 then char_code x - 55
     else if 97 \<le> char_code x \<and> char_code x \<le> 102 then char_code x - 87 else 0)"

definition qs_isqschr :: "char \<Rightarrow> bool" where
  "qs_isqschr x \<longleftrightarrow> x \<noteq> CHR ''='' \<and> x \<noteq> CHR ''#'' \<and> x \<noteq> CHR ''&'' \<and> x \<noteq> CHR 0x00"

definition hex_char :: "char \<Rightarrow> char \<Rightarrow> char" where
  "hex_char u l = char_of (qs_hex2dec u * 16 + qs_hex2dec l)"

section \<open>C strings in a buffer\<close>

definition rd :: "string \<Rightarrow> nat \<Rightarrow> char" where
  "rd buf k = (if k < length buf then buf ! k else CHR 0x00)"

definition cstr :: "string \<Rightarrow> nat \<Rightarrow> string" where
  "cstr buf k = takeWhile (\<lambda>c. c \<noteq> CHR 0x00) (drop k buf)"

definition strcspn :: "string \<Rightarrow> string \<Rightarrow> nat" where
  "strcspn s reject = length (takeWhile (\<lambda>c. c \<noteq> CHR 0x00 \<and> c \<notin> set reject) s)"

section \<open>Comparing keys\<close>

text \<open>One round of \<open>qs_strncmp\<close> on one of its arguments: the character it stands for and the rest.\<close>

definition qs_unit :: "string \<Rightarrow> char \<times> string" where
  "qs_unit s =
     (let u = peek s; s = tl s;
          u = (if \<not> qs_isqschr u then CHR 0x00 else u);
          u = (if u = CHR ''+'' then CHR '' '' else u)
      in if u = CHR ''%'' then
           (if qs_ishex (peek s) \<and> qs_ishex (peek (tl s)) then hex_char (peek s) (peek (tl s)) else CHR 0x00,
            tl (tl s))
         else (u, s))"

primrec qs_strncmp :: "string \<Rightarrow> string \<Rightarrow> nat \<Rightarrow> int" where
  "qs_strncmp s qs 0 = (if qs_isqschr (peek qs) then - 1 else 0)"
| "qs_strncmp s qs (Suc n) =
     (case (qs_unit s, qs_unit qs) of
        ((u1, s'), (u2, qs')) \<Rightarrow>
          if u1 \<noteq> u2 then int (char_code u1) - int (char_code u2)
          else if u1 = CHR 0x00 then 0
          else qs_strncmp s' qs' n)"

text \<open>\<open>qs_strncmp\<close> takes its pointers by value, so the recursion walks both texts.\<close>

section \<open>Decoding in place\<close>

function qs_decode_loop :: "string \<Rightarrow> nat \<Rightarrow> nat \<Rightarrow> nat \<Rightarrow> string" where
  "qs_decode_loop buf qs i j =
     (let c = rd buf (qs + j)
      in if \<not> qs_isqschr c then buf[qs + i := CHR 0x00]
         else if c = CHR ''+'' then qs_decode_loop (buf[qs + i := CHR '' '']) qs (i + 1) (j + 1)
         else if c = CHR ''%'' then
           (if \<not> qs_ishex (rd buf (qs + j + 1)) \<or> \<not> qs_ishex (rd buf (qs + j + 2))
            then buf[qs + i := CHR 0x00]
            else qs_decode_loop (buf[qs + i := hex_char (rd buf (qs + j + 1)) (rd buf (qs + j + 2))]) qs (i + 1) (j + 3))
         else qs_decode_loop (buf[qs + i := c]) qs (i + 1) (j + 1))"
  by pat_completeness auto
termination
  by (relation "measure (\<lambda>(buf, qs, i, j). length buf - (qs + j))")
    (auto simp: rd_def qs_isqschr_def split: if_splits)

declare qs_decode_loop.simps [simp del]

definition qs_decode :: "string \<Rightarrow> nat \<Rightarrow> string" where
  "qs_decode buf qs = qs_decode_loop buf qs 0 0"

section \<open>Splitting into pairs\<close>

text \<open>The first loop of \<open>qs_parse\<close>: where each pair begins, at most \<open>n\<close> of them.\<close>

primrec qs_split :: "nat \<Rightarrow> string \<Rightarrow> nat \<Rightarrow> nat list" where
  "qs_split 0 buf p = []"
| "qs_split (Suc n) buf p =
     (let j = strcspn (drop p buf) ''&''
      in if rd buf (p + j) = CHR 0x00 then [p] else p # qs_split n buf (p + j + 1))"

text \<open>The second loop: decode the value of one pair.\<close>

definition qs_decode_pair :: "nat \<Rightarrow> string \<Rightarrow> string" where
  "qs_decode_pair k buf =
     (let p = k + strcspn (drop k buf) ''=&#''
      in if rd buf p = CHR ''&'' \<or> rd buf p = CHR 0x00 then buf[p := CHR 0x00]
         else qs_decode buf (p + 1))"

definition qs_parse :: "string \<Rightarrow> nat \<Rightarrow> bool \<Rightarrow> string \<times> nat list" where
  "qs_parse qs qs_kv_size parse_url =
     (let p = (if parse_url then strcspn qs ''?#'' else 0)
      in if parse_url \<and> rd qs p = CHR 0x00 then (qs, [])
         else let qs_kv = qs_split qs_kv_size qs (if parse_url then p + 1 else p)
              in (fold qs_decode_pair qs_kv qs, qs_kv))"

section \<open>The class query_string\<close>

record query_string =
  qs_url :: string
  qs_pairs :: "nat list"

definition MAX_KEY_VALUE_PAIRS_COUNT :: nat where
  "MAX_KEY_VALUE_PAIRS_COUNT = 256"

definition make_query_string :: "string \<Rightarrow> bool \<Rightarrow> query_string" where
  "make_query_string params url =
     (if params = [] then \<lparr> qs_url = [CHR 0x00], qs_pairs = [] \<rparr>
      else case qs_parse (params @ [CHR 0x00]) MAX_KEY_VALUE_PAIRS_COUNT url of
             (buf, kv) \<Rightarrow> \<lparr> qs_url = buf, qs_pairs = kv \<rparr>)"

text \<open>The texts the pairs point to.\<close>

definition qs_items :: "query_string \<Rightarrow> string list" where
  "qs_items q = map (cstr (qs_url q)) (qs_pairs q)"

text \<open>\<open>qs_k2v\<close> over the texts of the pairs: the value of the \<open>occ\<close> pair with the key.\<close>

fun qs_k2v :: "string \<Rightarrow> string list \<Rightarrow> nat \<Rightarrow> string option" where
  "qs_k2v key [] occ = None"
| "qs_k2v key (kv # kvs) occ =
     (if qs_strncmp key kv (length key) = 0 then
        (let skip = strcspn kv ''='';
             skip = (if peek (drop skip kv) = CHR ''='' then skip + 1 else skip)
         in if occ = 0 then Some (drop skip kv) else qs_k2v key kvs (occ - 1))
      else qs_k2v key kvs occ)"

definition qs_get :: "query_string \<Rightarrow> string \<Rightarrow> string option" where
  "qs_get q name = qs_k2v (cstr name 0) (qs_items q) 0"

definition qs_pop :: "query_string \<Rightarrow> string \<Rightarrow> string option \<times> query_string" where
  "qs_pop q name =
     (let ret = qs_get q name; key_name = name @ ''=''
      in if ret = None then (ret, q)
         else (ret, q\<lparr>qs_pairs :=
                 (case find (\<lambda>i. str_find key_name (cstr (qs_url q) (qs_pairs q ! i)) = Some 0) [0..<length (qs_pairs q)] of
                    None \<Rightarrow> qs_pairs q
                  | Some i \<Rightarrow> take i (qs_pairs q) @ drop (Suc i) (qs_pairs q))\<rparr>))"

text \<open>The loop over \<open>count\<close>; it stops at the first null, by the number of pairs at the latest.\<close>

primrec qs_collect :: "nat \<Rightarrow> (nat \<Rightarrow> 'a option) \<Rightarrow> nat \<Rightarrow> 'a list" where
  "qs_collect 0 f cnt = []"
| "qs_collect (Suc n) f cnt = (case f cnt of None \<Rightarrow> [] | Some x \<Rightarrow> x # qs_collect n f (cnt + 1))"

definition qs_get_list :: "query_string \<Rightarrow> string \<Rightarrow> bool \<Rightarrow> string list" where
  "qs_get_list q name use_brackets =
     qs_collect (length (qs_pairs q) + 1)
       (qs_k2v (cstr (name @ (if use_brackets then ''[]'' else [])) 0) (qs_items q)) 0"

definition qs_pop_list :: "query_string \<Rightarrow> string \<Rightarrow> bool \<Rightarrow> string list \<times> query_string" where
  "qs_pop_list q name use_brackets =
     (let ret = qs_get_list q name use_brackets
      in if ret = [] then (ret, q)
         else (ret, q\<lparr>qs_pairs := filter (\<lambda>k. let str_item = cstr (qs_url q) k
                  in \<not> (str_find name str_item = Some 0 \<and>
                        (if use_brackets then prefix ''[]='' (drop (length name) str_item)
                         else prefix ''='' (drop (length name) str_item)))) (qs_pairs q)\<rparr>))"

text \<open>\<open>qs_dict_name2kv\<close>; the counter is an \<open>int\<close> that goes below zero after a malformed pair.\<close>

fun qs_dict_name2kv :: "string \<Rightarrow> string list \<Rightarrow> int \<Rightarrow> (string \<times> string) option" where
  "qs_dict_name2kv dict_name [] occ = None"
| "qs_dict_name2kv dict_name (kv # kvs) occ =
     (if prefix dict_name kv then
        (let to_eq = strcspn kv ''=''; to_eq = (if peek (drop to_eq kv) = CHR ''='' then to_eq + 1 else to_eq);
             open' = strcspn kv ''[''; open' = (if peek (drop open' kv) = CHR ''['' then open' + 1 else open');
             close' = strcspn kv '']''
         in if open' \<le> close' \<and> 0 < open' \<and> 0 < close' \<and> occ = 0
            then Some (take (close' - open') (drop open' kv), drop to_eq kv)
            else qs_dict_name2kv dict_name kvs (occ - 1))
      else qs_dict_name2kv dict_name kvs occ)"

definition qs_get_dict :: "query_string \<Rightarrow> string \<Rightarrow> (string, string) umap" where
  "qs_get_dict q name =
     fold (\<lambda>(k, v) m. if umap_find m k = None then m @ [(k, v)] else m)
       (qs_collect (length (qs_pairs q) + 1) (\<lambda>c. qs_dict_name2kv (cstr name 0) (qs_items q) (int c)) 0) []"

definition qs_pop_dict :: "query_string \<Rightarrow> string \<Rightarrow> (string, string) umap \<times> query_string" where
  "qs_pop_dict q name =
     (let name_value = name @ ''[''; ret = qs_get_dict q name
      in if ret = [] then (ret, q)
         else (ret, q\<lparr>qs_pairs := filter (\<lambda>k. str_find name_value (cstr (qs_url q) k) \<noteq> Some 0) (qs_pairs q)\<rparr>))"

definition qs_keys :: "query_string \<Rightarrow> string list" where
  "qs_keys q = map (takeWhile (\<lambda>c. c \<noteq> CHR ''='')) (qs_items q)"

definition qs_clear :: "query_string \<Rightarrow> query_string" where
  "qs_clear q = \<lparr> qs_url = [CHR 0x00], qs_pairs = [] \<rparr>"

section \<open>The in-place decoder refines a decoder of texts\<close>

text \<open>What decoding gives: a percent sign without two hexadecimal digits ends the value.\<close>

fun qs_dec :: "string \<Rightarrow> string" where
  "qs_dec [] = []"
| "qs_dec (c # s) =
     (if c = CHR ''+'' then CHR '' '' # qs_dec s
      else if c = CHR ''%'' then
        (case s of
           u # l # r \<Rightarrow> if qs_ishex u \<and> qs_ishex l then hex_char u l # qs_dec r else []
         | _ \<Rightarrow> [])
      else c # qs_dec s)"

lemma rd_append: "rd (a @ b) (length a + k) = rd b k"
  by (simp add: rd_def nth_append)

lemma rd_Cons_0 [simp]: "rd (c # s) 0 = c"
  by (simp add: rd_def)

lemma rd_Cons_Suc [simp]: "rd (c # s) (Suc k) = rd s k"
  by (simp add: rd_def)

lemma not_hex_end: "\<not> qs_isqschr d \<Longrightarrow> \<not> qs_ishex d"
  by (auto simp: qs_isqschr_def qs_ishex_def isdigit_def char_code_def)

lemma hex_qschr: "qs_ishex u \<Longrightarrow> qs_isqschr u"
  using not_hex_end by blast

text \<open>
  The state of the loop: decoded text, a gap left by shorter decodings, the rest of the value, its
  delimiter.  The text grows into the gap, the length of the buffer never changes and nothing
  outside the value is written.
\<close>

lemma buf_write:
  "gap @ used \<noteq> [] \<Longrightarrow>
   (a @ out @ gap @ used @ w)[length a + length out := x] = a @ (out @ [x]) @ tl (gap @ used) @ w"
  by (cases gap; cases used) (simp_all add: list_update_append)

lemma qs_decode_loop_refines:
  assumes "list_all qs_isqschr v" and "\<not> qs_isqschr d"
  shows "\<exists>gap'. qs_decode_loop (a @ out @ gap @ v @ d # b) (length a) (length out) (length out + length gap)
      = a @ out @ qs_dec v @ CHR 0x00 # gap' @ b \<and> length gap' + length (qs_dec v) = length gap + length v"
  using assms(1)
proof (induction v arbitrary: out gap rule: length_induct)
  case (1 v)
  let ?buf = "a @ out @ gap @ v @ d # b"
  let ?j = "length out + length gap"
  have r: "rd ?buf (length a + ?j + k) = rd (v @ d # b) k" for k
    using rd_append[of "a @ out @ gap" "v @ d # b" k] by (simp add: add.assoc)
  have r0: "rd ?buf (length a + ?j) = rd (v @ d # b) 0" using r[of 0] by simp
  have stop: "\<exists>gap'. ?buf[length a + length out := CHR 0x00] = a @ out @ CHR 0x00 # gap' @ b
      \<and> length gap' = length gap + length v"
    using buf_write[of gap "v @ [d]" a out b] by (intro exI[of _ "tl (gap @ v @ [d])"]) simp
  have go: "\<exists>gap'. qs_decode_loop (?buf[length a + length out := x]) (length a) (length out + 1) (?j + length used)
      = a @ out @ (x # qs_dec w) @ CHR 0x00 # gap' @ b
      \<and> length gap' + length (x # qs_dec w) = length gap + length v"
    if v: "v = used @ w" and "used \<noteq> []" for x used w
  proof -
    have "length w < length v" "list_all qs_isqschr w" using that "1.prems" by simp_all
    with "1.IH" obtain gap' where g: "qs_decode_loop (a @ (out @ [x]) @ tl (gap @ used) @ w @ d # b) (length a)
        (length (out @ [x])) (length (out @ [x]) + length (tl (gap @ used)))
        = a @ (out @ [x]) @ qs_dec w @ CHR 0x00 # gap' @ b"
      "length gap' + length (qs_dec w) = length (tl (gap @ used)) + length w" by blast
    have len: "length (out @ [x]) + length (tl (gap @ used)) = ?j + length used"
      "length (tl (gap @ used)) + length w + 1 = length gap + length v"
      using that(2) by (cases used; simp add: v)+
    have st: "?buf[length a + length out := x] = a @ (out @ [x]) @ tl (gap @ used) @ w @ d # b"
      using buf_write[of gap used a out "w @ d # b" x] that(2) by (simp add: v)
    have "qs_decode_loop (?buf[length a + length out := x]) (length a) (length out + 1) (?j + length used)
        = a @ (out @ [x]) @ qs_dec w @ CHR 0x00 # gap' @ b"
      using g(1) unfolding st len(1) by simp
    with g(2) len(2) show ?thesis by (intro exI[of _ gap']) simp
  qed
  show ?case
  proof (cases v)
    case Nil
    then show ?thesis
      using stop r0 assms(2) by (subst qs_decode_loop.simps) (simp add: Let_def)
  next
    case (Cons c s)
    have c: "qs_isqschr c" "list_all qs_isqschr s" using "1.prems" Cons by simp_all
    show ?thesis
    proof (cases "c = CHR ''%''")
      case False
      with go[of "[c]" s] r0 c Cons show ?thesis
        by (subst qs_decode_loop.simps) (auto simp: Let_def)
    next
      case True
      show ?thesis
      proof (cases "\<exists>u l w. s = u # l # w \<and> qs_ishex u \<and> qs_ishex l")
        case hex: True
        then obtain u l w where s: "s = u # l # w" "qs_ishex u" "qs_ishex l" by blast
        with go[of "[c, u, l]" w "hex_char u l"] r0 r[of 1] r[of 2] c True Cons show ?thesis
          by (subst qs_decode_loop.simps) (simp add: Let_def numeral_2_eq_2 numeral_3_eq_3 add.assoc)
      next
        case bad: False
        have "\<not> qs_ishex (rd (s @ d # b) 0) \<or> \<not> qs_ishex (rd (s @ d # b) 1)"
          using bad not_hex_end[OF assms(2)] by (cases s; cases "tl s") auto
        moreover have "qs_dec v = []"
          using bad True Cons by (auto split: list.split)
        ultimately show ?thesis
          using stop r0 r[of 1] r[of 2] c True Cons
          by (subst qs_decode_loop.simps) (simp add: Let_def add.assoc numeral_2_eq_2)
      qed
    qed
  qed
qed

section \<open>One pair\<close>

definition pair_text :: "string \<Rightarrow> bool" where
  "pair_text seg \<longleftrightarrow> CHR ''&'' \<notin> set seg \<and> CHR 0x00 \<notin> set seg"

text \<open>What a pair's pointer shows after parsing: the raw key, its delimiter, the decoded value.\<close>

definition qs_pair :: "string \<Rightarrow> string" where
  "qs_pair seg =
     (let k = takeWhile (\<lambda>c. c \<noteq> CHR ''='' \<and> c \<noteq> CHR ''#'') seg; r = drop (length k) seg
      in if r = [] then k
         else k @ hd r # takeWhile (\<lambda>c. c \<noteq> CHR 0x00) (qs_dec (takeWhile qs_isqschr (tl r))))"

lemma strcspn_stop:
  assumes "list_all (\<lambda>c. c \<noteq> CHR 0x00 \<and> c \<notin> set cs) k" and "d = CHR 0x00 \<or> d \<in> set cs"
  shows "strcspn (k @ d # r) cs = length k"
  using assms by (induction k) (auto simp: strcspn_def)

lemma takeWhile_stop: "\<not> P d \<Longrightarrow> \<exists>e r. s @ [d] = takeWhile P s @ e # r \<and> \<not> P e"
  by (induction s) auto

lemma takeWhile_no_zero:
  "takeWhile (\<lambda>c. c \<noteq> CHR 0x00) (x @ CHR 0x00 # y) = takeWhile (\<lambda>c. c \<noteq> CHR 0x00) x"
  by (induction x) auto

lemma qs_decode_pair_refines:
  assumes "pair_text seg" and "t = CHR ''&'' \<or> t = CHR 0x00"
  shows "\<exists>seg'. qs_decode_pair (length a) (a @ seg @ t # b) = a @ seg' @ b \<and> length seg' = Suc (length seg)
     \<and> (\<forall>z. takeWhile (\<lambda>c. c \<noteq> CHR 0x00) (seg' @ z) = qs_pair seg)"
proof -
  let ?K = "\<lambda>c. c \<noteq> CHR ''='' \<and> c \<noteq> CHR ''#''"
  define k where "k = takeWhile ?K seg"
  define r where "r = drop (length k) seg"
  have seg: "seg = k @ r" by (simp add: k_def r_def dropWhile_eq_drop[symmetric])
  have kset: "list_all (\<lambda>c. c \<noteq> CHR 0x00 \<and> c \<notin> set ''=&#'') k"
  proof -
    have kK: "c \<in> set seg \<and> ?K c" if "c \<in> set k" for c
      using set_takeWhileD[OF that[unfolded k_def]] by blast
    show ?thesis
      using assms(1) by (auto simp: list_all_iff pair_text_def dest!: kK)
  qed
  have kz: "CHR 0x00 \<notin> set k" using kset by (auto simp: list_all_iff)
  have tk: "takeWhile (\<lambda>c. c \<noteq> CHR 0x00) k = k" using kz by (auto simp: takeWhile_eq_all_conv)
  have qp: "qs_pair seg = (if r = [] then k
      else k @ hd r # takeWhile (\<lambda>c. c \<noteq> CHR 0x00) (qs_dec (takeWhile qs_isqschr (tl r))))"
    unfolding qs_pair_def Let_def k_def[symmetric] r_def[symmetric] ..
  show ?thesis
  proof (cases r)
    case Nil
    have "strcspn (k @ t # b) ''=&#'' = length k"
      by (rule strcspn_stop[OF kset]) (use assms(2) in auto)
    then have "qs_decode_pair (length a) (a @ seg @ t # b) = a @ (k @ [CHR 0x00]) @ b"
      using assms(2) rd_append[of "a @ k" "t # b" 0]
      by (simp add: qs_decode_pair_def seg Nil list_update_append)
    moreover have "takeWhile (\<lambda>c. c \<noteq> CHR 0x00) ((k @ [CHR 0x00]) @ z) = qs_pair seg" for z
      using takeWhile_no_zero[of k z] tk qp by (simp add: Nil)
    ultimately show ?thesis
      by (intro exI[of _ "k @ [CHR 0x00]"]) (simp add: seg Nil)
  next
    case (Cons e v0)
    then have e: "e = CHR ''='' \<or> e = CHR ''#''"
      using takeWhile_eq_all_conv[of ?K seg] hd_dropWhile[of ?K seg]
      by (auto simp: r_def k_def dropWhile_eq_drop[symmetric])
    define v where "v = takeWhile qs_isqschr v0"
    have "\<not> qs_isqschr t" using assms(2) by (auto simp: qs_isqschr_def)
    from takeWhile_stop[of qs_isqschr, OF this, of v0] obtain d w
      where w: "v0 @ [t] = v @ d # w" "\<not> qs_isqschr d" by (auto simp: v_def)
    have buf: "a @ seg @ t # b = (a @ k @ [e]) @ [] @ [] @ v @ d # (w @ b)"
    proof -
      have "v0 @ t # b = (v0 @ [t]) @ b" by simp
      then show ?thesis using w(1) by (simp add: seg Cons)
    qed
    have "strcspn (k @ e # v0 @ t # b) ''=&#'' = length k"
      by (rule strcspn_stop[OF kset]) (use e in auto)
    then have dec: "qs_decode_pair (length a) (a @ seg @ t # b) = qs_decode (a @ seg @ t # b) (length (a @ k @ [e]))"
      using e rd_append[of "a @ k" "e # v0 @ t # b" 0]
      by (auto simp: qs_decode_pair_def seg Cons)
    have "list_all qs_isqschr v" by (auto simp: v_def list_all_iff dest: set_takeWhileD)
    from qs_decode_loop_refines[OF this w(2), of "a @ k @ [e]" "[]" "[]" "w @ b"] obtain gap
      where g: "qs_decode (a @ seg @ t # b) (length (a @ k @ [e])) = (a @ k @ [e]) @ qs_dec v @ CHR 0x00 # gap @ w @ b"
      "length gap + length (qs_dec v) = length v"
      unfolding qs_decode_def buf by auto
    let ?seg = "k @ e # qs_dec v @ CHR 0x00 # gap @ w"
    have "length v0 + 1 = length v + 1 + length w"
      using arg_cong[OF w(1), of length] by simp
    then have "length ?seg = Suc (length seg)" using g(2) by (simp add: seg Cons)
    moreover have "takeWhile (\<lambda>c. c \<noteq> CHR 0x00) (?seg @ z) = qs_pair seg" for z
    proof -
      have "takeWhile (\<lambda>c. c \<noteq> CHR 0x00) (?seg @ z) = k @ e # takeWhile (\<lambda>c. c \<noteq> CHR 0x00) (qs_dec v)"
        using kz e takeWhile_no_zero[of "qs_dec v" "gap @ w @ z"]
        by (subst append_assoc, subst takeWhile_append2) auto
      then show ?thesis
        using qp by (simp add: Cons v_def)
    qed
    ultimately show ?thesis
      using dec g(1) by (intro exI[of _ ?seg]) simp
  qed
qed

section \<open>All pairs\<close>

fun offsets :: "nat \<Rightarrow> nat \<Rightarrow> string list \<Rightarrow> nat list" where
  "offsets 0 p segs = []"
| "offsets (Suc n) p [] = []"
| "offsets (Suc n) p [x] = [p]"
| "offsets (Suc n) p (x # y # ys) = p # offsets n (p + length x + 1) (y # ys)"

lemma qs_split_offsets:
  assumes "segs \<noteq> []" and "list_all pair_text segs"
  shows "qs_split n (a @ join_with ''&'' segs @ [CHR 0x00]) (length a) = offsets n (length a) segs"
  using assms
proof (induction n "length a" segs arbitrary: a rule: offsets.induct)
  case (3 n x)
  have "strcspn (x @ [CHR 0x00]) ''&'' = length x"
    by (rule strcspn_stop) (use 3 in \<open>auto simp: pair_text_def list_all_iff\<close>)
  then show ?case
    using rd_append[of "a @ x" "[CHR 0x00]" 0] by simp
next
  case (4 n x y ys)
  let ?rest = "join_with ''&'' (y # ys) @ [CHR 0x00]"
  have st: "strcspn (x @ CHR ''&'' # ?rest) ''&'' = length x"
    by (rule strcspn_stop) (use 4 in \<open>auto simp: pair_text_def list_all_iff\<close>)
  have "qs_split n ((a @ x @ ''&'') @ join_with ''&'' (y # ys) @ [CHR 0x00]) (length (a @ x @ ''&''))
      = offsets n (length (a @ x @ ''&'')) (y # ys)"
    by (rule "4.hyps") (use "4.prems" in auto)
  then show ?case
    using st rd_append[of "a @ x" "CHR ''&'' # ?rest" 0] by (simp add: Let_def)
qed auto

lemma offsets_ge: "k \<in> set (offsets n p segs) \<Longrightarrow> p \<le> k"
  by (induction n p segs arbitrary: k rule: offsets.induct) fastforce+

lemma cstr_append: "length a \<le> k \<Longrightarrow> cstr (a @ b) k = cstr b (k - length a)"
  by (simp add: cstr_def)

lemma decode_offsets:
  assumes "segs \<noteq> []" and "list_all pair_text segs"
  shows "\<exists>r. fold qs_decode_pair (offsets n (length a) segs) (a @ join_with ''&'' segs @ [CHR 0x00]) = a @ r
     \<and> map (cstr (a @ r)) (offsets n (length a) segs) = map qs_pair (take n segs)"
  using assms
proof (induction n "length a" segs arbitrary: a rule: offsets.induct)
  case (3 n x)
  have "pair_text x" using 3 by simp
  from qs_decode_pair_refines[OF this, of "CHR 0x00" a "[]"] obtain x' where
    "qs_decode_pair (length a) (a @ x @ [CHR 0x00]) = a @ x'" "takeWhile (\<lambda>c. c \<noteq> CHR 0x00) (x' @ z) = qs_pair x" for z
    by auto
  from this(1) this(2)[of "[]"] show ?case by (intro exI[of _ x']) (simp add: cstr_def)
next
  case (4 n x y ys)
  let ?rest = "join_with ''&'' (y # ys) @ [CHR 0x00]"
  have "pair_text x" using 4 by simp
  from qs_decode_pair_refines[OF this, of "CHR ''&''" a ?rest] obtain x' where
    x': "qs_decode_pair (length a) (a @ x @ CHR ''&'' # ?rest) = (a @ x') @ ?rest" "length x' = Suc (length x)"
      "takeWhile (\<lambda>c. c \<noteq> CHR 0x00) (x' @ z) = qs_pair x" for z
    by auto
  have len: "length a + length x + 1 = length (a @ x')" using x'(2) by simp
  from "4.hyps"[OF len] "4.prems" obtain r where
    r: "fold qs_decode_pair (offsets n (length (a @ x')) (y # ys)) ((a @ x') @ ?rest) = (a @ x') @ r"
      "map (cstr ((a @ x') @ r)) (offsets n (length (a @ x')) (y # ys)) = map qs_pair (take n (y # ys))"
    unfolding len by auto
  have off: "offsets (Suc n) (length a) (x # y # ys) = length a # offsets n (length (a @ x')) (y # ys)"
    by (simp only: offsets.simps len)
  have "fold qs_decode_pair (offsets (Suc n) (length a) (x # y # ys)) (a @ x @ CHR ''&'' # ?rest) = a @ x' @ r"
    unfolding off using x'(1) r(1) by simp
  moreover have "cstr (a @ x' @ r) (length a) = qs_pair x"
    using x'(3)[of r] by (simp add: cstr_def)
  ultimately show ?case
    using r(2) unfolding off by (intro exI[of _ "x' @ r"]) simp
qed auto

lemma join_with_not_Nil: "segs \<noteq> [] \<Longrightarrow> join_with ''&'' segs = [] \<Longrightarrow> segs = [[]]"
  by (cases segs; cases "tl segs") auto

lemma qs_items_url:
  assumes "segs \<noteq> []" and "list_all pair_text segs" and "CHR ''?'' \<notin> set path" "CHR ''#'' \<notin> set path" "CHR 0x00 \<notin> set path"
  shows "qs_items (make_query_string (path @ CHR ''?'' # join_with ''&'' segs) True) = map qs_pair (take 256 segs)"
proof -
  let ?a = "path @ ''?''" and ?q = "join_with ''&'' segs @ [CHR 0x00]"
  have p: "strcspn (path @ CHR ''?'' # ?q) ''?#'' = length path"
    by (rule strcspn_stop) (use assms(3-5) in \<open>auto simp: list_all_iff\<close>)
  have rd: "rd (path @ CHR ''?'' # ?q) (length path) = CHR ''?''"
    using rd_append[of path "CHR ''?'' # ?q" 0] by simp
  obtain r where r: "fold qs_decode_pair (offsets 256 (length ?a) segs) (?a @ ?q) = ?a @ r"
    "map (cstr (?a @ r)) (offsets 256 (length ?a) segs) = map qs_pair (take 256 segs)"
    using decode_offsets[OF assms(1,2), of 256 ?a] by blast
  have sp: "qs_split 256 (?a @ ?q) (length ?a) = offsets 256 (length ?a) segs"
    by (rule qs_split_offsets[OF assms(1,2)])
  show ?thesis
    using p rd r sp
    by (simp add: make_query_string_def qs_parse_def qs_items_def MAX_KEY_VALUE_PAIRS_COUNT_def Let_def)
qed

section \<open>Percent-encoding and looking up\<close>

definition hex_digit :: "nat \<Rightarrow> char" where
  "hex_digit n = (if n < 10 then char_of (48 + n) else char_of (55 + n))"

definition unreserved :: "char \<Rightarrow> bool" where
  "unreserved c \<longleftrightarrow> isdigit c \<or> 65 \<le> char_code c \<and> char_code c \<le> 90 \<or> 97 \<le> char_code c \<and> char_code c \<le> 122
     \<or> c \<in> {CHR ''-'', CHR ''.'', CHR ''_'', CHR ''~''}"

definition qs_enc_char :: "char \<Rightarrow> string" where
  "qs_enc_char c = (if unreserved c then [c]
     else [CHR ''%'', hex_digit (char_code c div 16), hex_digit (char_code c mod 16)])"

abbreviation qs_enc :: "string \<Rightarrow> string" where
  "qs_enc s \<equiv> concat (map qs_enc_char s)"

lemma char_code_hex_digit: "n < 16 \<Longrightarrow> char_code (hex_digit n) = (if n < 10 then 48 + n else 55 + n)"
  by (simp add: hex_digit_def char_code_char_of)

lemma hex_digit_ok: "n < 16 \<Longrightarrow> qs_ishex (hex_digit n) \<and> qs_hex2dec (hex_digit n) = n"
  by (auto simp: qs_ishex_def qs_hex2dec_def isdigit_def char_code_hex_digit)

lemma hex_char_digits: "hex_char (hex_digit (char_code c div 16)) (hex_digit (char_code c mod 16)) = c"
proof -
  have "char_code c div 16 < 16" using char_code_less[of c] by linarith
  then show ?thesis by (simp add: hex_char_def hex_digit_ok)
qed

lemma unreserved_plain: "unreserved c \<Longrightarrow> c \<noteq> CHR ''+'' \<and> c \<noteq> CHR ''%'' \<and> qs_isqschr c"
  by (auto simp: unreserved_def isdigit_def char_code_def qs_isqschr_def)

lemma qs_dec_enc: "qs_dec (qs_enc v @ r) = v @ qs_dec r"
proof (induction v)
  case (Cons c v)
  have "char_code c div 16 < 16" "char_code c mod 16 < 16" using char_code_less[of c] by linarith+
  then have "qs_ishex (hex_digit (char_code c div 16))" "qs_ishex (hex_digit (char_code c mod 16))"
    by (simp_all add: hex_digit_ok)
  then show ?case
    using Cons unreserved_plain[of c] hex_char_digits[of c] by (auto simp: qs_enc_char_def)
qed simp

lemma qs_enc_chars: "list_all qs_isqschr (qs_enc v)"
proof -
  have "list_all qs_isqschr (qs_enc_char c)" for c
  proof -
    have "char_code c div 16 < 16" "char_code c mod 16 < 16" using char_code_less[of c] by linarith+
    then have "qs_isqschr (hex_digit (char_code c div 16))" "qs_isqschr (hex_digit (char_code c mod 16))"
      by (simp_all add: hex_digit_ok hex_qschr)
    moreover have "qs_isqschr (CHR ''%'')" by (simp add: qs_isqschr_def)
    ultimately show ?thesis by (simp add: qs_enc_char_def unreserved_plain)
  qed
  then show ?thesis by (induction v) auto
qed

definition plain_key :: "string \<Rightarrow> bool" where
  "plain_key k = list_all (\<lambda>c. qs_isqschr c \<and> c \<noteq> CHR ''+'' \<and> c \<noteq> CHR ''%'') k"

lemma qs_unit_plain: "qs_isqschr c \<Longrightarrow> c \<noteq> CHR ''+'' \<Longrightarrow> c \<noteq> CHR ''%'' \<Longrightarrow> qs_unit (c # s) = (c, s)"
  by (simp add: qs_unit_def peek_def)

lemma qs_unit_equals: "qs_unit (CHR ''='' # s) = (CHR 0x00, s)"
  by (simp add: qs_unit_def peek_def qs_isqschr_def)

lemma qs_strncmp_plain:
  "plain_key key \<Longrightarrow> plain_key k \<Longrightarrow> qs_strncmp key (k @ CHR ''='' # v) (length key) = 0 \<longleftrightarrow> key = k"
proof (induction key arbitrary: k)
  case Nil
  then show ?case by (cases k) (auto simp: plain_key_def peek_def qs_isqschr_def)
next
  case (Cons c key)
  have c: "qs_unit (c # key) = (c, key)" "c \<noteq> CHR 0x00"
    using Cons.prems(1) by (auto simp: plain_key_def qs_unit_plain qs_isqschr_def)
  show ?case
  proof (cases k)
    case Nil
    then show ?thesis using c by (simp add: qs_unit_equals char_code_inject)
  next
    case k: (Cons d k')
    then have "qs_unit (d # k' @ CHR ''='' # v) = (d, k' @ CHR ''='' # v)"
      using Cons.prems(2) by (auto simp: plain_key_def qs_unit_plain)
    moreover have "qs_strncmp key (k' @ CHR ''='' # v) (length key) = 0 \<longleftrightarrow> key = k'"
      by (rule Cons.IH) (use Cons.prems k in \<open>auto simp: plain_key_def\<close>)
    ultimately show ?thesis using c k by (simp add: char_code_inject)
  qed
qed

lemma qs_pair_encoded:
  assumes "plain_key k" and "CHR 0x00 \<notin> set v"
  shows "qs_pair (k @ CHR ''='' # qs_enc v) = k @ CHR ''='' # v"
proof -
  have k: "takeWhile (\<lambda>c. c \<noteq> CHR ''='' \<and> c \<noteq> CHR ''#'') (k @ CHR ''='' # qs_enc v) = k"
    by (rule takeWhile_append_stop) (use assms(1) in \<open>auto simp: plain_key_def list_all_iff qs_isqschr_def\<close>)
  have e: "takeWhile qs_isqschr (qs_enc v) = qs_enc v"
    using qs_enc_chars[of v] by (simp add: takeWhile_eq_all_conv list_all_iff)
  have z: "takeWhile (\<lambda>c. c \<noteq> CHR 0x00) v = v"
    using assms(2) by (auto simp: takeWhile_eq_all_conv)
  have d: "qs_dec (qs_enc v) = v" using qs_dec_enc[of v "[]"] by simp
  have r: "drop (length k) (k @ CHR ''='' # qs_enc v) = CHR ''='' # qs_enc v" by simp
  show ?thesis
    unfolding qs_pair_def Let_def k r by (simp only: list.sel list.distinct if_False e d z)
qed

lemma qs_k2v_pairs:
  assumes "plain_key key" and "\<forall>(k, v) \<in> set kvs. plain_key k"
  shows "qs_k2v key (map (\<lambda>(k, v). k @ CHR ''='' # v) kvs) 0 = map_of kvs key"
  using assms(2)
proof (induction kvs)
  case (Cons p kvs)
  obtain k v where p: "p = (k, v)" by (cases p)
  have k: "plain_key k" using Cons.prems p by simp
  have "strcspn (k @ CHR ''='' # v) ''='' = length k"
    by (rule strcspn_stop) (use k in \<open>auto simp: plain_key_def list_all_iff qs_isqschr_def\<close>)
  with Cons qs_strncmp_plain[OF assms(1) k, of v] show ?case
    by (auto simp: p peek_def)
qed simp

lemma pair_text_encoded: "plain_key k \<Longrightarrow> pair_text (k @ CHR ''='' # qs_enc v)"
  using qs_enc_chars[of v]
  by (fastforce simp: pair_text_def plain_key_def list_all_iff qs_isqschr_def)

section \<open>Properties\<close>

text \<open>C25. Parsing a URL's query in place, with all pairs sharing one buffer, gives what parsing each pair by
  itself would: the pairs are the pieces between ampersands, at most 256 of them, each with its
  raw key and its value percent-decoded up to the first delimiter or malformed escape.  Decoding
  one value never disturbs another pair.
\<close>

theorem query_parse_pairs:
  assumes "segs \<noteq> []" and "list_all pair_text segs"
    and "CHR ''?'' \<notin> set path" "CHR ''#'' \<notin> set path" "CHR 0x00 \<notin> set path"
  shows "qs_items (make_query_string (path @ CHR ''?'' # join_with ''&'' segs) True) = map qs_pair (take 256 segs)"
  using assms by (rule qs_items_url)

theorem query_parse_pairs_witness:
  "qs_items (make_query_string ''/s?q=a+b%41&x'' True) = [''q=a bA'', ''x'']"
proof -
  have "qs_items (make_query_string (''/s'' @ CHR ''?'' # join_with ''&'' [''q=a+b%41'', ''x'']) True)
      = map qs_pair (take 256 [''q=a+b%41'', ''x''])"
    by (rule query_parse_pairs) (simp_all add: pair_text_def)
  also have "map qs_pair (take 256 [''q=a+b%41'', ''x'']) = [''q=a bA'', ''x'']"
    by code_simp
  finally show ?thesis by simp
qed

text \<open>A query built from key/value pairs with percent-encoded values is read back: looking up a key
  gives the value of its first pair, or nothing when no pair has the key, for values of any
  bytes but zero and keys without special characters.
\<close>

theorem query_get_encoded:
  assumes "kvs \<noteq> []" and "length kvs \<le> 256" and "\<forall>(k, v) \<in> set kvs. plain_key k \<and> CHR 0x00 \<notin> set v"
    and "CHR ''?'' \<notin> set path" "CHR ''#'' \<notin> set path" "CHR 0x00 \<notin> set path" and "plain_key key"
  shows "qs_get (make_query_string (path @ CHR ''?'' # join_with ''&'' (map (\<lambda>(k, v). k @ CHR ''='' # qs_enc v) kvs)) True) key
    = map_of kvs key"
proof -
  let ?segs = "map (\<lambda>(k, v). k @ CHR ''='' # qs_enc v) kvs"
  have "list_all pair_text ?segs"
    using assms(3) pair_text_encoded by (fastforce simp: list_all_iff)
  then have items: "qs_items (make_query_string (path @ CHR ''?'' # join_with ''&'' ?segs) True) = map qs_pair ?segs"
    using qs_items_url[of ?segs path] assms(1,2,4-6) by simp
  have "map qs_pair ?segs = map (\<lambda>(k, v). k @ CHR ''='' # v) kvs"
    using assms(3) qs_pair_encoded by (auto simp: comp_def split: prod.splits)
  moreover have "cstr key 0 = key"
    using assms(7) by (auto simp: cstr_def takeWhile_eq_all_conv plain_key_def list_all_iff qs_isqschr_def)
  moreover have "\<forall>(k, v) \<in> set kvs. plain_key k" using assms(3) by auto
  ultimately show ?thesis
    unfolding qs_get_def items by (simp only: qs_k2v_pairs[OF assms(7)])
qed

theorem query_get_encoded_witness:
  "qs_get (make_query_string (''/api/airlines/suggest'' @ CHR ''?'' # join_with ''&'' (map (\<lambda>(k, v). k @ CHR ''='' # qs_enc v) [(''q'', ''a&b = c'')])) True) ''q''
    = Some ''a&b = c''"
proof -
  have "plain_key ''q''" by (simp add: plain_key_def qs_isqschr_def)
  then show ?thesis
    using query_get_encoded[of "[(''q'', ''a&b = c'')]" "''/api/airlines/suggest''" "''q''"] by simp
qed

end
