(* ===== verification/RouteTrie.thy ===== *)
theory RouteTrie
  imports CppStd
begin

text \<open>
  The router's search tree (\<open>class Trie\<close> of crow/routing.h): adding a route pattern, merging chains
  of nodes, and the search of a request's path with its typed parameters.  A tree is related to the
  list of route patterns it holds; a search is shown to return the least rule whose pattern matches.
\<close>

section \<open>Parameters\<close>

datatype param_type = PInt | PUint | PDouble | PString | PPath | PMax

record 'd routing_params =
  int_params :: "int list"
  uint_params :: "nat list"
  double_params :: "'d list"
  string_params :: "string list"

definition no_params :: "'d routing_params" where
  "no_params = \<lparr> int_params = [], uint_params = [], double_params = [], string_params = [] \<rparr>"

text \<open>
  \<open>strtoll\<close> and \<open>strtoull\<close> in base ten on a text that starts with a sign or a digit: the value and the
  text after it, \<open>None\<close> when there is no number or it is out of range (\<open>ERANGE\<close>).
\<close>

definition strtoll :: "string \<Rightarrow> (int \<times> string) option" where
  "strtoll s =
     (let neg = (peek s = CHR ''-'');
          ds = (if neg \<or> peek s = CHR ''+'' then tl s else s);
          digits = takeWhile isdigit ds;
          v = (if neg then - int (digits_val 0 digits) else int (digits_val 0 digits))
      in if digits = [] \<or> v < - (2 ^ 63) \<or> 2 ^ 63 \<le> v then None else Some (v, dropWhile isdigit ds))"

definition strtoull :: "string \<Rightarrow> (nat \<times> string) option" where
  "strtoull s =
     (let ds = (if peek s = CHR ''+'' then tl s else s);
          digits = takeWhile isdigit ds; v = digits_val 0 digits
      in if digits = [] \<or> 2 ^ 64 \<le> v then None else Some (v, dropWhile isdigit ds))"

text \<open>
  What a parameter node does with the rest of the path: the parameters with the new value and the
  path after it, \<open>None\<close> when the node does not match.  \<open>strtod\<close> is the C library's conversion, given
  as an argument; it returns the value and the text after it, \<open>None\<close> on \<open>ERANGE\<close> or no number.
\<close>

definition take_param ::
    "(string \<Rightarrow> ('d \<times> string) option) \<Rightarrow> param_type \<Rightarrow> string \<Rightarrow> 'd routing_params \<Rightarrow> ('d routing_params \<times> string) option" where
  "take_param strtod t url ps =
     (let c = peek url
      in case t of
           PInt \<Rightarrow>
             if isdigit c \<or> c = CHR ''+'' \<or> c = CHR ''-'' then
               (case strtoll url of None \<Rightarrow> None
                | Some (v, s) \<Rightarrow> Some (ps\<lparr>int_params := int_params ps @ [v]\<rparr>, s))
             else None
         | PUint \<Rightarrow>
             if isdigit c \<or> c = CHR ''+'' then
               (case strtoull url of None \<Rightarrow> None
                | Some (v, s) \<Rightarrow> Some (ps\<lparr>uint_params := uint_params ps @ [v]\<rparr>, s))
             else None
         | PDouble \<Rightarrow>
             if isdigit c \<or> c = CHR ''+'' \<or> c = CHR ''-'' \<or> c = CHR ''.'' then
               (case strtod url of None \<Rightarrow> None
                | Some (v, s) \<Rightarrow> Some (ps\<lparr>double_params := double_params ps @ [v]\<rparr>, s))
             else None
         | PString \<Rightarrow>
             (let v = takeWhile (\<lambda>c. c \<noteq> CHR ''/'') url
              in if v = [] then None
                 else Some (ps\<lparr>string_params := string_params ps @ [v]\<rparr>, drop (length v) url))
         | PPath \<Rightarrow>
             (if url = [] then None else Some (ps\<lparr>string_params := string_params ps @ [url]\<rparr>, []))
         | PMax \<Rightarrow> None)"

section \<open>Nodes\<close>

definition INVALID_BP_ID :: nat where "INVALID_BP_ID = 65535"
definition RULE_SPECIAL_REDIRECT_SLASH :: nat where "RULE_SPECIAL_REDIRECT_SLASH = 1"

datatype node =
  Node (rule_index: nat) (blueprint_index: nat) (key: string) (param: param_type) (children: "node list")

definition empty_node :: node where
  "empty_node = Node 0 INVALID_BP_ID [] PMax []"

definition IsSimpleNode :: "node \<Rightarrow> bool" where
  "IsSimpleNode n \<longleftrightarrow>
     rule_index n = 0 \<and> blueprint_index n = INVALID_BP_ID \<and> length (children n) < 2
     \<and> param n = PMax \<and> list_all (\<lambda>x. param x = PMax) (children n)"

definition trie_is_empty :: "node \<Rightarrow> bool" where
  "trie_is_empty head \<longleftrightarrow> children head = []"

text \<open>The number of nodes, the measure of the recursions over a tree.\<close>

fun node_count :: "node \<Rightarrow> nat" where
  "node_count (Node r b k p cs) = Suc (sum_list (map node_count cs))"

lemma node_count_child [termination_simp]: "c \<in> set cs \<Longrightarrow> node_count c < Suc (sum_list (map node_count cs))"
  by (induction cs) auto

section \<open>Merging chains\<close>

function optimizeNode :: "node \<Rightarrow> node" where
  "optimizeNode n =
     (if children n = [] then n
      else if IsSimpleNode n then
        (let c = hd (children n)
         in optimizeNode (Node (rule_index c) (blueprint_index c) (key n @ key c) (param n) (children c)))
      else Node (rule_index n) (blueprint_index n) (key n) (param n) (map optimizeNode (children n)))"
  by pat_completeness auto

termination
proof (relation "measure node_count", goal_cases)
  case 1
  then show ?case by simp
next
  case (2 n c)
  then show ?case
    by (cases n; cases "children n"; cases "hd (children n)") auto
next
  case (3 n c)
  then show ?case by (cases n) (auto intro: node_count_child)
qed

declare optimizeNode.simps [simp del]

definition trie_optimize :: "node \<Rightarrow> node" where
  "trie_optimize head = Node (rule_index head) (blueprint_index head) (key head) (param head)
     (map optimizeNode (children head))"

text \<open>\<open>None\<close> when the header is not simple and the code throws.\<close>

definition trie_validate :: "node \<Rightarrow> node option" where
  "trie_validate head = (if IsSimpleNode head then Some (trie_optimize head) else None)"

section \<open>Search\<close>

record 'd find_result =
  fr_rule :: nat
  fr_blueprints :: "nat list"
  fr_params :: "'d routing_params"

text \<open>\<open>update_found\<close>: the blueprints of the last answer, the rule and parameters of the least one.\<close>

definition update_found :: "'d find_result \<Rightarrow> 'd find_result \<Rightarrow> 'd find_result" where
  "update_found ret acc =
     (let acc = acc\<lparr>fr_blueprints := fr_blueprints ret\<rparr>
      in if fr_rule ret \<noteq> 0 \<and> (fr_rule acc = 0 \<or> fr_rule ret < fr_rule acc)
         then acc\<lparr>fr_rule := fr_rule ret, fr_params := fr_params ret\<rparr> else acc)"

definition child_step ::
    "(string \<Rightarrow> ('d \<times> string) option) \<Rightarrow> node \<Rightarrow> string \<Rightarrow> 'd routing_params \<Rightarrow> ('d routing_params \<times> string) option" where
  "child_step strtod c url ps =
     (if param c \<noteq> PMax then take_param strtod (param c) url ps
      else if prefix (key c) url then Some (ps, drop (length (key c)) url) else None)"

text \<open>
  The search on the rest of the path.  The parameters are pushed and popped in pairs, so they are
  passed down; the vector of blueprint indices is shared by all the calls and moved from, so it is
  passed through: a moved-from vector is empty.
\<close>

fun trie_find ::
      "(string \<Rightarrow> ('d \<times> string) option) \<Rightarrow> string \<Rightarrow> node \<Rightarrow> 'd routing_params \<Rightarrow> nat list \<Rightarrow> 'd find_result \<times> nat list"
and find_children ::
      "(string \<Rightarrow> ('d \<times> string) option) \<Rightarrow> string \<Rightarrow> node list \<Rightarrow> 'd routing_params \<Rightarrow> nat list
        \<Rightarrow> 'd find_result \<Rightarrow> bool \<Rightarrow> 'd find_result \<times> bool \<times> nat list" where
  "trie_find strtod url (Node r b k p cs) ps bps =
     (if url = [] then (\<lparr> fr_rule = r, fr_blueprints = [], fr_params = ps \<rparr>, [])
      else case find_children strtod url cs ps bps \<lparr> fr_rule = 0, fr_blueprints = [], fr_params = no_params \<rparr> False of
             (acc, found_fragment, bps) \<Rightarrow>
               if \<not> found_fragment then (acc\<lparr>fr_blueprints := bps\<rparr>, []) else (acc, bps))"
| "find_children strtod url [] ps bps acc found_fragment = (acc, found_fragment, bps)"
| "find_children strtod url (c # cs) ps bps acc found_fragment =
     (case child_step strtod c url ps of
        None \<Rightarrow> find_children strtod url cs ps bps acc found_fragment
      | Some (ps', url') \<Rightarrow>
          (let bps = (if blueprint_index c \<noteq> INVALID_BP_ID then bps @ [blueprint_index c] else bps);
               (ret, bps) = trie_find strtod url' c ps' bps;
               acc = update_found ret acc;
               bps = (if bps \<noteq> [] then butlast bps else bps)
           in find_children strtod url cs ps bps acc True))"

definition find_url :: "(string \<Rightarrow> ('d \<times> string) option) \<Rightarrow> string \<Rightarrow> node \<Rightarrow> 'd find_result" where
  "find_url strtod url head = fst (trie_find strtod url head no_params [])"

section \<open>Adding a pattern\<close>

definition param_traits :: "(param_type \<times> string) list" where
  "param_traits = [(PInt, ''<int>''), (PUint, ''<uint>''), (PDouble, ''<float>''), (PDouble, ''<double>''),
     (PString, ''<str>''), (PString, ''<string>''), (PPath, ''<path>'')]"

text \<open>The tag at the start of a text, with its length.\<close>

definition matched_trait :: "string \<Rightarrow> (param_type \<times> nat) option" where
  "matched_trait s = map_option (\<lambda>(t, name). (t, length name)) (find (\<lambda>(t, name). prefix name s) param_traits)"

fun find_index :: "('a \<Rightarrow> bool) \<Rightarrow> 'a list \<Rightarrow> nat option" where
  "find_index P [] = None"
| "find_index P (x # xs) = (if P x then Some 0 else map_option Suc (find_index P xs))"

definition with_children :: "node list \<Rightarrow> node \<Rightarrow> node" where
  "with_children cs n = Node (rule_index n) (blueprint_index n) (key n) (param n) cs"

definition with_rule :: "nat \<Rightarrow> node \<Rightarrow> node" where
  "with_rule r n = Node r (blueprint_index n) (key n) (param n) (children n)"

text \<open>
  The walk from the node \<open>n\<close> at position \<open>i\<close> of the pattern: the updated node, or \<open>Inl\<close> with the text
  of the exception.  At a \<open><\<close> that starts no known tag the position does not move (\<open>i--\<close> undoes the
  loop's \<open>i++\<close>) and the loop never ends, the value \<open>None\<close>.
\<close>

partial_function (option) add_walk ::
    "string \<Rightarrow> nat \<Rightarrow> bool \<Rightarrow> nat \<Rightarrow> nat \<Rightarrow> nat \<Rightarrow> node \<Rightarrow> (string + node) option" where
  "add_walk url rule has_blueprint bp_prefix_length bp i n =
     (if i < length url then
        if url ! i = CHR ''<'' then
          case matched_trait (drop i url) of
            None \<Rightarrow> add_walk url rule has_blueprint bp_prefix_length bp i n
          | Some (t, len) \<Rightarrow>
              (case find_index (\<lambda>c. param c = t) (children n) of
                 Some j \<Rightarrow>
                   Option.bind (add_walk url rule has_blueprint bp_prefix_length bp (i + len) (children n ! j))
                     (\<lambda>r. Some (map_sum id (\<lambda>c. with_children ((children n)[j := c]) n) r))
               | None \<Rightarrow>
                   Option.bind (add_walk url rule has_blueprint bp_prefix_length bp (i + len)
                                  (Node 0 INVALID_BP_ID [] t []))
                     (\<lambda>r. Some (map_sum id (\<lambda>c. with_children (children n @ [c]) n) r)))
        else
          case find_index (\<lambda>c. peek (key c) = url ! i) (children n) of
            Some j \<Rightarrow>
              Option.bind (add_walk url rule has_blueprint bp_prefix_length bp (i + 1) (children n ! j))
                (\<lambda>r. Some (map_sum id (\<lambda>c. with_children ((children n)[j := c]) n) r))
          | None \<Rightarrow>
              Option.bind (add_walk url rule has_blueprint bp_prefix_length bp (i + 1)
                  (Node 0 (if has_blueprint \<and> i = bp_prefix_length then bp else INVALID_BP_ID) [url ! i] PMax []))
                (\<lambda>r. Some (map_sum id (\<lambda>c. with_children (children n @ [c]) n) r))
      else Some (if rule_index n \<noteq> 0 then Inl (''handler already exists for '' @ url) else Inr (with_rule rule n)))"

definition trie_add :: "string \<Rightarrow> nat \<Rightarrow> nat \<Rightarrow> nat \<Rightarrow> node \<Rightarrow> (string + node) option" where
  "trie_add url rule bp_prefix_length bp head =
     add_walk url rule (bp_prefix_length \<noteq> 0 \<and> bp \<noteq> INVALID_BP_ID) bp_prefix_length bp 0 head"

section \<open>Patterns\<close>

text \<open>A route pattern as pieces, and the parameters with which it matches a whole path.\<close>

datatype piece = Lit char | Par param_type

fun match_pieces ::
    "(string \<Rightarrow> ('d \<times> string) option) \<Rightarrow> piece list \<Rightarrow> string \<Rightarrow> 'd routing_params \<Rightarrow> 'd routing_params option" where
  "match_pieces strtod [] url ps = (if url = [] then Some ps else None)"
| "match_pieces strtod (Lit c # xs) url ps =
     (case url of [] \<Rightarrow> None | d # u \<Rightarrow> if c = d then match_pieces strtod xs u ps else None)"
| "match_pieces strtod (Par t # xs) url ps =
     (case take_param strtod t url ps of None \<Rightarrow> None | Some (ps', u) \<Rightarrow> match_pieces strtod xs u ps')"

definition node_pieces :: "node \<Rightarrow> piece list" where
  "node_pieces c = (if param c \<noteq> PMax then [Par (param c)] else map Lit (key c))"

text \<open>The patterns below a node, each with its rule.\<close>

fun paths :: "node \<Rightarrow> (piece list \<times> nat) list" where
  "paths (Node r b k p cs) =
     (if r \<noteq> 0 then [([], r)] else [])
     @ concat (map (\<lambda>c. map (\<lambda>(xs, r). (node_pieces c @ xs, r)) (paths c)) cs)"

text \<open>Every node but the head consumes part of the path.\<close>

fun trie_wf :: "node \<Rightarrow> bool" where
  "trie_wf (Node r b k p cs) \<longleftrightarrow> (\<forall>c \<in> set cs. (param c \<noteq> PMax \<or> key c \<noteq> []) \<and> trie_wf c)"

lemma peek_Nil [simp]: "peek [] = CHR 0x00"
  by (simp add: peek_def)

lemma not_isdigit_0 [simp]: "\<not> isdigit (CHR 0x00)"
  by (simp add: isdigit_def char_code_def)

lemma take_param_Nil [simp]: "take_param strtod t [] ps = None"
  by (cases t) (simp_all add: take_param_def Let_def)

lemma match_node_pieces:
  "match_pieces strtod (node_pieces c @ xs) url ps =
     (case child_step strtod c url ps of None \<Rightarrow> None | Some (ps', u) \<Rightarrow> match_pieces strtod xs u ps')"
proof -
  have "match_pieces strtod (map Lit k @ xs) url ps =
      (if prefix k url then match_pieces strtod xs (drop (length k) url) ps else None)" for k
    by (induction k arbitrary: url) (auto split: list.splits)
  then show ?thesis
    by (simp add: node_pieces_def child_step_def)
qed

lemma match_node_Nil:
  "param c \<noteq> PMax \<or> key c \<noteq> [] \<Longrightarrow> match_pieces strtod (node_pieces c @ xs) [] ps = None"
  by (simp add: match_node_pieces child_step_def)

section \<open>The least matching rule\<close>

definition answers ::
    "(string \<Rightarrow> ('d \<times> string) option) \<Rightarrow> string \<Rightarrow> node \<Rightarrow> 'd routing_params \<Rightarrow> (nat \<times> 'd routing_params) set" where
  "answers strtod url n ps = {(r, ps'). \<exists>xs. (xs, r) \<in> set (paths n) \<and> match_pieces strtod xs url ps = Some ps'}"

definition is_least :: "(nat \<times> 'd routing_params) set \<Rightarrow> 'd find_result \<Rightarrow> bool" where
  "is_least A f \<longleftrightarrow>
     (fr_rule f = 0 \<and> A = {}
      \<or> fr_rule f \<noteq> 0 \<and> (fr_rule f, fr_params f) \<in> A \<and> (\<forall>(r, p) \<in> A. fr_rule f \<le> r))"

lemma is_least_update:
  "is_least A acc \<Longrightarrow> is_least B ret \<Longrightarrow> is_least (A \<union> B) (update_found ret acc)"
  by (auto simp: is_least_def update_found_def Let_def)

lemma is_least_bps [simp]: "is_least A (f\<lparr>fr_blueprints := bs\<rparr>) = is_least A f"
  by (simp add: is_least_def)

lemma paths_Node_iff:
  "(xs, q) \<in> set (paths (Node r b k p cs)) \<longleftrightarrow>
     xs = [] \<and> q = r \<and> r \<noteq> 0 \<or> (\<exists>c \<in> set cs. \<exists>ys. (ys, q) \<in> set (paths c) \<and> xs = node_pieces c @ ys)"
  by (auto split: if_splits)

lemma paths_nonzero: "(xs, r) \<in> set (paths n) \<Longrightarrow> r \<noteq> 0"
  by (induction n arbitrary: xs r rule: paths.induct) (auto split: if_splits)

definition child_answers ::
    "(string \<Rightarrow> ('d \<times> string) option) \<Rightarrow> string \<Rightarrow> node \<Rightarrow> 'd routing_params \<Rightarrow> (nat \<times> 'd routing_params) set" where
  "child_answers strtod url c ps =
     (case child_step strtod c url ps of None \<Rightarrow> {} | Some (ps', u) \<Rightarrow> answers strtod u c ps')"

lemma child_answers_iff:
  "(r, q) \<in> child_answers strtod url c ps \<longleftrightarrow>
     (\<exists>xs. (xs, r) \<in> set (paths c) \<and> match_pieces strtod (node_pieces c @ xs) url ps = Some q)"
  by (auto simp: child_answers_def match_node_pieces answers_def split: option.splits)

lemma answers_Node:
  "url \<noteq> [] \<Longrightarrow> answers strtod url (Node r b k p cs) ps = (\<Union>c \<in> set cs. child_answers strtod url c ps)"
  unfolding answers_def by (auto simp: child_answers_iff paths_Node_iff simp del: paths.simps; blast)

lemma answers_Nil:
  assumes "trie_wf (Node r b k p cs)"
  shows "answers strtod [] (Node r b k p cs) ps = (if r = 0 then {} else {(r, ps)})"
  using assms by (auto simp: answers_def paths_Node_iff match_node_Nil simp del: paths.simps)

lemma find_least:
  "trie_wf n \<Longrightarrow> is_least (answers strtod url n ps) (fst (trie_find strtod url n ps bps))"
  "(\<forall>c \<in> set cs. trie_wf c) \<Longrightarrow> is_least A acc \<Longrightarrow>
     is_least (A \<union> (\<Union>c \<in> set cs. child_answers strtod url c ps)) (fst (find_children strtod url cs ps bps acc frag))"
proof (induction strtod url n ps bps and strtod url cs ps bps acc frag arbitrary: and A
    rule: trie_find_find_children.induct)
  case (1 strtod url r b k p cs ps bps)
  show ?case
  proof (cases "url = []")
    case True
    with 1 show ?thesis by (auto simp: answers_Nil is_least_def)
  next
    case False
    have "is_least {} \<lparr> fr_rule = 0, fr_blueprints = [], fr_params = no_params \<rparr>"
      by (simp add: is_least_def)
    from "1.IH"[OF False _ this] "1.prems" False show ?thesis
      by (auto simp: answers_Node split: prod.splits)
  qed
next
  case (2 strtod url ps bps acc frag)
  then show ?case by simp
next
  case (3 strtod url c cs ps bps acc frag)
  show ?case
  proof (cases "child_step strtod c url ps")
    case None
    then show ?thesis using 3 by (simp add: child_answers_def)
  next
    case (Some pu)
    obtain ps' u where pu: "pu = (ps', u)" by (cases pu)
    let ?b = "if blueprint_index c \<noteq> INVALID_BP_ID then bps @ [blueprint_index c] else bps"
    obtain ret b' where f: "trie_find strtod u c ps' ?b = (ret, b')" by (cases "trie_find strtod u c ps' ?b")
    have "is_least (answers strtod u c ps') ret"
      using "3.IH"(2)[OF Some pu[symmetric] refl] f "3.prems"(1) by simp
    then have "is_least (A \<union> child_answers strtod url c ps) (update_found ret acc)"
      using is_least_update[OF "3.prems"(2)] Some pu by (simp add: child_answers_def)
    from "3.IH"(3)[OF Some pu[symmetric] refl f[symmetric] refl refl refl _ this] "3.prems"(1)
    show ?thesis using Some pu f by (simp add: Un_assoc)
  qed
qed

section \<open>Merging keeps the patterns\<close>

definition node_paths :: "node \<Rightarrow> (piece list \<times> nat) list" where
  "node_paths n = map (\<lambda>(xs, r). (node_pieces n @ xs, r)) (paths n)"

lemma paths_children:
  "paths n = (if rule_index n \<noteq> 0 then [([], rule_index n)] else []) @ concat (map node_paths (children n))"
  by (cases n) (simp add: node_paths_def[abs_def])

lemma simple_child:
  "IsSimpleNode n \<Longrightarrow> children n \<noteq> [] \<Longrightarrow> \<exists>c. children n = [c] \<and> param c = PMax \<and> param n = PMax \<and> rule_index n = 0"
  by (cases "children n") (auto simp: IsSimpleNode_def)

lemma node_paths_optimize: "node_paths (optimizeNode n) = node_paths n"
proof (induction n rule: optimizeNode.induct)
  case (1 n)
  consider "children n = []" | "children n \<noteq> []" "IsSimpleNode n" | "children n \<noteq> []" "\<not> IsSimpleNode n"
    by blast
  then show ?case
  proof cases
    case 1
    then show ?thesis by (subst optimizeNode.simps) simp
  next
    case 2
    then obtain c where c: "children n = [c]" "param c = PMax" "param n = PMax" "rule_index n = 0"
      using simple_child by blast
    let ?m = "Node (rule_index c) (blueprint_index c) (key n @ key c) (param n) (children c)"
    have "optimizeNode n = optimizeNode ?m"
      using 2 c by (subst optimizeNode.simps) (simp add: Let_def)
    also have "node_paths \<dots> = node_paths ?m"
      using "1.IH"(1)[OF 2, of c] c by simp
    also have "\<dots> = node_paths n"
    proof -
      have "paths ?m = paths c"
        using paths_children[of ?m] paths_children[of c] by simp
      moreover have "paths n = node_paths c"
        using paths_children[of n] c by simp
      ultimately show ?thesis
        using c by (simp add: node_paths_def node_pieces_def comp_def case_prod_beta)
    qed
    finally show ?thesis .
  next
    case 3
    then have o: "optimizeNode n =
        Node (rule_index n) (blueprint_index n) (key n) (param n) (map optimizeNode (children n))"
      by (subst optimizeNode.simps) simp
    have "map (node_paths \<circ> optimizeNode) (children n) = map node_paths (children n)"
      using "1.IH"(2)[OF 3] by simp
    with o paths_children[of "optimizeNode n"] paths_children[of n]
    have "paths (optimizeNode n) = paths n" by simp
    with o show ?thesis by (simp add: node_paths_def node_pieces_def)
  qed
qed

lemma paths_optimize: "paths (trie_optimize h) = paths h"
  using paths_children[of "trie_optimize h"] paths_children[of h]
  by (simp add: trie_optimize_def node_paths_optimize comp_def)

lemma optimize_keeps_step: "param n \<noteq> PMax \<or> key n \<noteq> [] \<Longrightarrow> trie_wf n \<Longrightarrow>
   (param (optimizeNode n) \<noteq> PMax \<or> key (optimizeNode n) \<noteq> []) \<and> trie_wf (optimizeNode n)"
proof (induction n rule: optimizeNode.induct)
  case (1 n)
  consider "children n = []" | "children n \<noteq> []" "IsSimpleNode n" | "children n \<noteq> []" "\<not> IsSimpleNode n"
    by blast
  then show ?case
  proof cases
    case 1
    then have "optimizeNode n = n" by (subst optimizeNode.simps) simp
    with "1.prems" show ?thesis by simp
  next
    case 2
    then obtain c where c: "children n = [c]" "param c = PMax" "param n = PMax" "rule_index n = 0"
      using simple_child by blast
    let ?m = "Node (rule_index c) (blueprint_index c) (key n @ key c) (param n) (children c)"
    have e: "optimizeNode n = optimizeNode ?m"
      using 2 c by (subst optimizeNode.simps) (simp add: Let_def)
    have "trie_wf c" using "1.prems"(2) c by (cases n) simp
    then have "trie_wf ?m" by (cases c) simp
    with "1.prems" c "1.IH"(1)[OF 2, of c] show ?thesis unfolding e by simp
  next
    case 3
    then have o: "optimizeNode n =
        Node (rule_index n) (blueprint_index n) (key n) (param n) (map optimizeNode (children n))"
      by (subst optimizeNode.simps) simp
    have "\<forall>c \<in> set (children n). (param c \<noteq> PMax \<or> key c \<noteq> []) \<and> trie_wf c"
      using "1.prems"(2) by (cases n) simp
    with "1.IH"(2)[OF 3] "1.prems"(1) show ?thesis unfolding o by simp
  qed
qed

lemma trie_wf_optimize: "trie_wf h \<Longrightarrow> trie_wf (trie_optimize h)"
  using optimize_keeps_step by (cases h) (auto simp: trie_optimize_def)

section \<open>Adding a pattern\<close>

text \<open>The pieces of a pattern text, \<open>None\<close> when some \<open><\<close> starts no known tag.\<close>

function route_pieces :: "string \<Rightarrow> piece list option" where
  "route_pieces [] = Some []"
| "route_pieces (c # s) =
     (if c = CHR ''<'' then
        case matched_trait (c # s) of
          None \<Rightarrow> None
        | Some (t, len) \<Rightarrow> map_option ((#) (Par t)) (route_pieces (drop (len - 1) s))
      else map_option ((#) (Lit c)) (route_pieces s))"
  by pat_completeness auto
termination by (relation "measure length") auto

lemma matched_trait_Some: "matched_trait s = Some (t, len) \<Longrightarrow> 0 < len \<and> t \<noteq> PMax"
  by (auto simp: matched_trait_def find_Some_iff param_traits_def less_Suc_eq_0_disj nth_Cons' split: if_splits)

lemma route_pieces_step:
  assumes "i < length url"
  shows "route_pieces (drop i url) =
     (if url ! i = CHR ''<'' then
        case matched_trait (drop i url) of
          None \<Rightarrow> None
        | Some (t, len) \<Rightarrow> map_option ((#) (Par t)) (route_pieces (drop (i + len) url))
      else map_option ((#) (Lit (url ! i))) (route_pieces (drop (Suc i) url)))"
proof -
  have d: "drop i url = url ! i # drop (Suc i) url"
    using assms by (simp add: Cons_nth_drop_Suc)
  have "drop (len - 1) (drop (Suc i) url) = drop (i + len) url" if "0 < len" for len
    using that by (simp add: add.commute)
  with d show ?thesis
    by (auto split: option.splits dest: matched_trait_Some)
qed

text \<open>
  The tree while patterns are added: a node for each character and each parameter, siblings for
  different pieces.
\<close>

definition child_piece :: "node \<Rightarrow> piece" where
  "child_piece c = (if param c \<noteq> PMax then Par (param c) else Lit (peek (key c)))"

fun char_tree :: "node \<Rightarrow> bool" where
  "char_tree (Node r b k p cs) \<longleftrightarrow>
     distinct (map child_piece cs)
     \<and> (\<forall>c \<in> set cs. (if param c \<noteq> PMax then key c = [] else \<exists>a. a \<noteq> CHR 0x00 \<and> key c = [a]) \<and> char_tree c)"

definition good_child :: "node \<Rightarrow> bool" where
  "good_child c \<longleftrightarrow> (if param c \<noteq> PMax then key c = [] else \<exists>a. a \<noteq> CHR 0x00 \<and> key c = [a]) \<and> char_tree c"

lemma char_tree_children:
  "char_tree n \<longleftrightarrow> distinct (map child_piece (children n)) \<and> (\<forall>c \<in> set (children n). good_child c)"
  by (cases n) (auto simp: good_child_def)

lemma good_child_pieces: "good_child c \<Longrightarrow> node_pieces c = [child_piece c]"
  by (auto simp: good_child_def node_pieces_def child_piece_def peek_def split: if_splits)

lemma char_tree_wf: "char_tree n \<Longrightarrow> trie_wf n"
  by (induction n rule: char_tree.induct) (auto split: if_splits)

lemma find_index_cong: "(\<And>x. x \<in> set xs \<Longrightarrow> P x = Q x) \<Longrightarrow> find_index P xs = find_index Q xs"
  by (induction xs) auto

lemma find_index_Some: "find_index P xs = Some j \<Longrightarrow> j < length xs \<and> P (xs ! j)"
  by (induction xs arbitrary: j) (auto split: if_splits)

lemma find_index_None: "find_index P xs = None \<Longrightarrow> x \<in> set xs \<Longrightarrow> \<not> P x"
  by (induction xs) (auto split: if_splits)

lemma good_child_lookup:
  assumes "char_tree n" and "c \<in> set (children n)"
  shows "t \<noteq> PMax \<Longrightarrow> (param c = t) = (child_piece c = Par t)"
    and "a \<noteq> CHR 0x00 \<Longrightarrow> (peek (key c) = a) = (child_piece c = Lit a)"
proof -
  have "good_child c" using assms by (simp add: char_tree_children)
  then show "t \<noteq> PMax \<Longrightarrow> (param c = t) = (child_piece c = Par t)"
    and "a \<noteq> CHR 0x00 \<Longrightarrow> (peek (key c) = a) = (child_piece c = Lit a)"
    by (auto simp: good_child_def child_piece_def split: if_splits)
qed

text \<open>One round of the loop: to the child for the next piece, found or new.\<close>

lemma add_walk_step:
  assumes "CHR 0x00 \<notin> set url" and "char_tree n" and "route_pieces (drop i url) = Some (x # xs)"
  shows "\<exists>i' new. route_pieces (drop i' url) = Some xs \<and> good_child new \<and> child_piece new = x
     \<and> children new = [] \<and> rule_index new = 0
     \<and> add_walk url rule hb bl bp i n =
        (case find_index (\<lambda>c. child_piece c = x) (children n) of
           Some j \<Rightarrow> Option.bind (add_walk url rule hb bl bp i' (children n ! j))
               (\<lambda>r. Some (map_sum id (\<lambda>c. with_children ((children n)[j := c]) n) r))
         | None \<Rightarrow> Option.bind (add_walk url rule hb bl bp i' new)
               (\<lambda>r. Some (map_sum id (\<lambda>c. with_children (children n @ [c]) n) r)))"
proof -
  have i: "i < length url" using assms(3) by (cases "i < length url") auto
  note st = assms(3)[unfolded route_pieces_step[OF i]]
  show ?thesis
  proof (cases "url ! i = CHR ''<''")
    case True
    with st obtain t len where m: "matched_trait (drop i url) = Some (t, len)"
        and x: "x = Par t" and xs: "route_pieces (drop (i + len) url) = Some xs"
      by (auto split: option.splits)
    have t: "t \<noteq> PMax" using matched_trait_Some[OF m] by simp
    have "find_index (\<lambda>c. param c = t) (children n) = find_index (\<lambda>c. child_piece c = x) (children n)"
      using good_child_lookup(1)[OF assms(2) _ t] by (intro find_index_cong) (simp add: x)
    with i True m have "add_walk url rule hb bl bp i n =
        (case find_index (\<lambda>c. child_piece c = x) (children n) of
           Some j \<Rightarrow> Option.bind (add_walk url rule hb bl bp (i + len) (children n ! j))
               (\<lambda>r. Some (map_sum id (\<lambda>c. with_children ((children n)[j := c]) n) r))
         | None \<Rightarrow> Option.bind (add_walk url rule hb bl bp (i + len) (Node 0 INVALID_BP_ID [] t []))
               (\<lambda>r. Some (map_sum id (\<lambda>c. with_children (children n @ [c]) n) r)))"
      by (subst add_walk.simps) simp
    moreover have "good_child (Node 0 INVALID_BP_ID [] t [])" "child_piece (Node 0 INVALID_BP_ID [] t []) = x"
      using t x by (simp_all add: good_child_def child_piece_def)
    ultimately show ?thesis using xs by (intro exI[of _ "i + len"] exI[of _ "Node 0 INVALID_BP_ID [] t []"]) simp
  next
    case False
    with st have x: "x = Lit (url ! i)" and xs: "route_pieces (drop (Suc i) url) = Some xs" by auto
    have nz: "url ! i \<noteq> CHR 0x00" using assms(1) i nth_mem by metis
    let ?new = "Node 0 (if hb \<and> i = bl then bp else INVALID_BP_ID) [url ! i] PMax []"
    have "find_index (\<lambda>c. peek (key c) = url ! i) (children n) = find_index (\<lambda>c. child_piece c = x) (children n)"
      using good_child_lookup(2)[OF assms(2) _ nz] by (intro find_index_cong) (simp add: x)
    with i False have "add_walk url rule hb bl bp i n =
        (case find_index (\<lambda>c. child_piece c = x) (children n) of
           Some j \<Rightarrow> Option.bind (add_walk url rule hb bl bp (Suc i) (children n ! j))
               (\<lambda>r. Some (map_sum id (\<lambda>c. with_children ((children n)[j := c]) n) r))
         | None \<Rightarrow> Option.bind (add_walk url rule hb bl bp (Suc i) ?new)
               (\<lambda>r. Some (map_sum id (\<lambda>c. with_children (children n @ [c]) n) r)))"
      unfolding Suc_eq_plus1 by (subst add_walk.simps) simp
    moreover have "good_child ?new" "child_piece ?new = x"
      using nz x by (simp_all add: good_child_def child_piece_def peek_def)
    ultimately show ?thesis using xs by (intro exI[of _ "Suc i"] exI[of _ ?new]) simp
  qed
qed

lemma char_tree_update:
  assumes "char_tree n" and "j < length (children n)" and "good_child c'"
    and "child_piece c' = child_piece (children n ! j)"
  shows "char_tree (with_children ((children n)[j := c']) n)"
proof -
  have "map child_piece ((children n)[j := c']) = map child_piece (children n)"
    using assms(2,4) by (metis list_update_id map_update)
  then show ?thesis
    using assms set_update_subset_insert[of "children n" j c'] by (auto simp: char_tree_children with_children_def)
qed

lemma char_tree_append:
  assumes "char_tree n" and "good_child c'" and "child_piece c' \<notin> child_piece ` set (children n)"
  shows "char_tree (with_children (children n @ [c']) n)"
  using assms by (simp add: char_tree_children with_children_def)

lemma mset_concat_update:
  "j < length cs \<Longrightarrow> mset (concat (map f (cs[j := c]))) + mset (f (cs ! j)) = mset (concat (map f cs)) + mset (f c)"
proof -
  assume j: "j < length cs"
  have "cs = take j cs @ cs ! j # drop (Suc j) cs" by (rule id_take_nth_drop[OF j])
  then have "mset (concat (map f cs)) = mset (concat (map f (take j cs))) + mset (f (cs ! j)) + mset (concat (map f (drop (Suc j) cs)))"
    by (metis concat.simps(2) concat_append list.simps(9) map_append mset_append union_assoc)
  with j show ?thesis by (simp add: upd_conv_take_nth_drop)
qed

text \<open>What a walk for the pieces \<open>xs\<close> does to the node it starts from.\<close>

definition added :: "piece list \<Rightarrow> nat \<Rightarrow> node \<Rightarrow> string + node \<Rightarrow> bool" where
  "added xs rule n res \<longleftrightarrow>
     (if xs \<in> fst ` set (paths n) then \<exists>m. res = Inl m
      else \<exists>n'. res = Inr n' \<and> char_tree n' \<and> param n' = param n \<and> key n' = key n
             \<and> mset (paths n') = mset (paths n) + (if rule = 0 then {#} else {#(xs, rule)#}))"

lemma with_children_simps [simp]:
  "rule_index (with_children cs n) = rule_index n" "param (with_children cs n) = param n"
  "key (with_children cs n) = key n" "children (with_children cs n) = cs"
  by (simp_all add: with_children_def)

lemma good_child_same:
  "good_child c \<Longrightarrow> char_tree c' \<Longrightarrow> param c' = param c \<Longrightarrow> key c' = key c \<Longrightarrow>
     good_child c' \<and> child_piece c' = child_piece c"
  by (simp add: good_child_def child_piece_def)

lemma node_paths_good: "good_child c \<Longrightarrow> node_paths c = map (\<lambda>(xs, r). (child_piece c # xs, r)) (paths c)"
  by (simp add: node_paths_def good_child_pieces)

lemma fst_node_paths:
  "good_child c \<Longrightarrow> (x # xs \<in> fst ` set (node_paths c)) = (x = child_piece c \<and> xs \<in> fst ` set (paths c))"
  by (force simp: node_paths_good image_iff split: prod.splits)

lemma fst_paths_Cons:
  "char_tree n \<Longrightarrow> (x # xs \<in> fst ` set (paths n)) =
     (\<exists>c \<in> set (children n). child_piece c = x \<and> xs \<in> fst ` set (paths c))"
  using paths_children[of n] by (auto simp: char_tree_children image_Un image_UN fst_node_paths)

lemma fst_paths_Nil:
  "char_tree n \<Longrightarrow> ([] \<in> fst ` set (paths n)) = (rule_index n \<noteq> 0)"
  using paths_children[of n]
  by (auto simp: char_tree_children image_Un image_UN node_paths_good image_iff split: prod.splits)

lemma mset_node_paths_added:
  assumes "good_child c" and "added xs rule c (Inr c')"
  shows "mset (node_paths c') = mset (node_paths c) + (if rule = 0 then {#} else {#(child_piece c # xs, rule)#})"
proof -
  from assms have c': "good_child c' \<and> child_piece c' = child_piece c"
      and "mset (paths c') = mset (paths c) + (if rule = 0 then {#} else {#(xs, rule)#})"
    by (auto simp: added_def good_child_same split: if_splits)
  with assms(1) show ?thesis by (simp add: node_paths_good)
qed

lemma child_unique:
  assumes "char_tree n" and "c \<in> set (children n)" and "d \<in> set (children n)" and "child_piece c = child_piece d"
  shows "c = d"
  using assms by (auto simp: char_tree_children distinct_map inj_on_def)

lemma added_update:
  assumes n: "char_tree n" and j: "j < length (children n)" and x: "child_piece (children n ! j) = x"
    and a: "added xs rule (children n ! j) r"
  shows "added (x # xs) rule n (map_sum id (\<lambda>c. with_children ((children n)[j := c]) n) r)"
proof -
  let ?c = "children n ! j"
  have g: "good_child ?c" using n j by (simp add: char_tree_children)
  have "(x # xs \<in> fst ` set (paths n)) = (xs \<in> fst ` set (paths ?c))"
    using fst_paths_Cons[OF n] child_unique[OF n] x j nth_mem[OF j] by metis
  moreover have ?thesis if r: "r = Inr c'" and new: "xs \<notin> fst ` set (paths ?c)"
      and old: "x # xs \<notin> fst ` set (paths n)" for c'
  proof -
    from a r new have c': "good_child c'" "child_piece c' = child_piece ?c"
      using good_child_same[OF g, of c'] by (auto simp: added_def)
    have "mset (concat (map node_paths ((children n)[j := c']))) + mset (node_paths ?c)
        = mset (concat (map node_paths (children n))) + mset (node_paths c')"
      by (rule mset_concat_update[OF j])
    then have "mset (concat (map node_paths ((children n)[j := c'])))
        = mset (concat (map node_paths (children n))) + (if rule = 0 then {#} else {#(x # xs, rule)#})"
      using mset_node_paths_added[OF g a[unfolded r]] x by (simp split: if_splits)
    then have "mset (paths (with_children ((children n)[j := c']) n)) =
        mset (paths n) + (if rule = 0 then {#} else {#(x # xs, rule)#})"
      using paths_children[of n] paths_children[of "with_children ((children n)[j := c']) n"] by simp
    with old r char_tree_update[OF n j c'] show ?thesis by (simp add: added_def)
  qed
  ultimately show ?thesis
    using a by (cases "xs \<in> fst ` set (paths ?c)"; cases r) (simp_all add: added_def)
qed

lemma added_append:
  assumes n: "char_tree n" and new: "good_child c" "child_piece c = x" "children c = []" "rule_index c = 0"
    and fresh: "x \<notin> child_piece ` set (children n)" and a: "added xs rule c r"
  shows "added (x # xs) rule n (map_sum id (\<lambda>c. with_children (children n @ [c]) n) r)"
proof -
  have "paths c = []" using paths_children[of c] new by simp
  with a obtain c' where r: "r = Inr c'" and c': "good_child c'" "child_piece c' = x"
    using good_child_same[OF new(1)] new(2) by (auto simp: added_def)
  have "mset (node_paths c') = (if rule = 0 then {#} else {#(x # xs, rule)#})"
    using mset_node_paths_added[OF new(1) a[unfolded r]] \<open>paths c = []\<close> new by (simp add: node_paths_def)
  then have "mset (paths (with_children (children n @ [c']) n)) =
      mset (paths n) + (if rule = 0 then {#} else {#(x # xs, rule)#})"
    using paths_children[of n] paths_children[of "with_children (children n @ [c']) n"] by simp
  moreover have "x # xs \<notin> fst ` set (paths n)"
    using fst_paths_Cons[OF n] fresh by auto
  ultimately show ?thesis
    using r char_tree_append[OF n c'(1)] c'(2) fresh by (simp add: added_def)
qed

lemma add_walk_added:
  assumes "CHR 0x00 \<notin> set url"
  shows "char_tree n \<Longrightarrow> route_pieces (drop i url) = Some xs \<Longrightarrow>
    \<exists>r. add_walk url rule hb bl bp i n = Some r \<and> added xs rule n r"
proof (induction xs arbitrary: i n)
  case Nil
  have "\<not> i < length url"
    using Nil.prems(2) by (auto simp: route_pieces_step split: if_splits option.splits)
  then have w: "add_walk url rule hb bl bp i n =
      Some (if rule_index n \<noteq> 0 then Inl (''handler already exists for '' @ url) else Inr (with_rule rule n))"
    by (subst add_walk.simps) simp
  have r: "param (with_rule rule n) = param n" "key (with_rule rule n) = key n"
      "children (with_rule rule n) = children n" "rule_index (with_rule rule n) = rule"
    by (simp_all add: with_rule_def)
  have "mset (paths (with_rule rule n)) = mset (paths n) + (if rule = 0 then {#} else {#([], rule)#})"
    if "rule_index n = 0"
    using that paths_children[of n] paths_children[of "with_rule rule n"] r by simp
  moreover have "char_tree (with_rule rule n)"
    using Nil.prems(1) r by (simp add: char_tree_children)
  ultimately show ?case
    unfolding w added_def fst_paths_Nil[OF Nil.prems(1)] using r by simp
next
  case (Cons x xs)
  obtain i' new where s: "route_pieces (drop i' url) = Some xs" "good_child new" "child_piece new = x"
      "children new = []" "rule_index new = 0"
      and w: "add_walk url rule hb bl bp i n =
        (case find_index (\<lambda>c. child_piece c = x) (children n) of
           Some j \<Rightarrow> Option.bind (add_walk url rule hb bl bp i' (children n ! j))
               (\<lambda>r. Some (map_sum id (\<lambda>c. with_children ((children n)[j := c]) n) r))
         | None \<Rightarrow> Option.bind (add_walk url rule hb bl bp i' new)
               (\<lambda>r. Some (map_sum id (\<lambda>c. with_children (children n @ [c]) n) r)))"
    using add_walk_step[OF assms Cons.prems] by blast
  show ?case
  proof (cases "find_index (\<lambda>c. child_piece c = x) (children n)")
    case None
    obtain r where r: "add_walk url rule hb bl bp i' new = Some r" "added xs rule new r"
      using Cons.IH[OF _ s(1), of new] s(2) by (auto simp: good_child_def)
    have fresh: "x \<notin> child_piece ` set (children n)"
      using find_index_None[OF None] by auto
    show ?thesis
      unfolding w None r(1) using added_append[OF Cons.prems(1) s(2-5) fresh r(2)] by simp
  next
    case (Some j)
    note j = find_index_Some[OF Some]
    from Cons.prems(1) have "\<forall>c \<in> set (children n). good_child c"
      using char_tree_children by blast
    with j have "good_child (children n ! j)" by simp
    then have "char_tree (children n ! j)" unfolding good_child_def by blast
    from Cons.IH[OF this s(1)] obtain r
      where r: "add_walk url rule hb bl bp i' (children n ! j) = Some r" "added xs rule (children n ! j) r"
      by blast
    show ?thesis
      unfolding w Some option.case r(1) using added_update[OF Cons.prems(1) _ _ r(2)] j by simp
  qed
qed

text \<open>A walk that returns went through known tags only.\<close>

lemma add_walk_returns:
  assumes "add_walk url rule hb bl bp i n = Some r"
  shows "route_pieces (drop i url) \<noteq> None"
proof (rule add_walk.raw_induct[where P = "\<lambda>url rule hb bl bp i n r. route_pieces (drop i url) \<noteq> None", OF _ assms],
    goal_cases)
  case (1 walk url rule hb bl bp i n r)
  show ?case
  proof (cases "i < length url")
    case True
    show ?thesis
    proof (cases "url ! i = CHR ''<''")
      case lt: True
      show ?thesis
      proof (cases "matched_trait (drop i url)")
        case None
        with 1 True lt show ?thesis by auto
      next
        case (Some tl)
        obtain t len where tl: "tl = (t, len)" by (cases tl)
        have "\<exists>m r'. walk url rule hb bl bp (i + len) m = Some r'"
          using 1(2) True lt Some tl
          by (auto split: option.splits simp: bind_eq_Some_conv)
        with 1(1) have "route_pieces (drop (i + len) url) \<noteq> None" by blast
        then show ?thesis using Some tl lt by (simp add: route_pieces_step[OF True])
      qed
    next
      case False
      have "\<exists>m r'. walk url rule hb bl bp (i + 1) m = Some r'"
        using 1(2) True False by (auto split: option.splits simp: bind_eq_Some_conv)
      with 1(1) have "route_pieces (drop (i + 1) url) \<noteq> None" by blast
      then show ?thesis using False by (simp add: route_pieces_step[OF True])
    qed
  next
    case False
    then show ?thesis by simp
  qed
qed

lemma trie_add_cases:
  assumes "CHR 0x00 \<notin> set url" and "char_tree h"
  shows "case route_pieces url of
       None \<Rightarrow> trie_add url rule bl bp h = None
     | Some xs \<Rightarrow> \<exists>r. trie_add url rule bl bp h = Some r \<and> added xs rule h r"
proof (cases "route_pieces url")
  case None
  then show ?thesis
    using add_walk_returns[of url rule _ bl bp 0 h] unfolding trie_add_def
    by (simp del: not_None_eq) (metis not_None_eq)
next
  case (Some xs)
  with add_walk_added[OF assms(1) assms(2), of 0 xs] show ?thesis
    unfolding trie_add_def by simp
qed

text \<open>C23. \<open>Trie::add\<close> returns exactly when every \<open><\<close> of the pattern starts a known tag.  It then refuses
  a pattern that is already there, and otherwise adds that one pattern with its rule and leaves the
  others as they are.\<close>

theorem trie_add_exact:
  assumes "CHR 0x00 \<notin> set url" and "char_tree h" and "rule \<noteq> 0"
  shows "(trie_add url rule bl bp h = None \<longleftrightarrow> route_pieces url = None)
    \<and> (\<forall>xs. route_pieces url = Some xs \<and> xs \<in> fst ` set (paths h) \<longrightarrow>
         (\<exists>msg. trie_add url rule bl bp h = Some (Inl msg)))
    \<and> (\<forall>xs. route_pieces url = Some xs \<and> xs \<notin> fst ` set (paths h) \<longrightarrow>
         (\<exists>h'. trie_add url rule bl bp h = Some (Inr h') \<and> char_tree h'
             \<and> mset (paths h') = add_mset (xs, rule) (mset (paths h))))"
proof (cases "route_pieces url")
  case None
  then show ?thesis using trie_add_cases[OF assms(1,2), of rule bl bp] by simp
next
  case (Some xs)
  then obtain r where "trie_add url rule bl bp h = Some r" and "added xs rule h r"
    using trie_add_cases[OF assms(1,2), of rule bl bp] by auto
  with Some assms(3) show ?thesis
    by (cases "xs \<in> fst ` set (paths h)") (simp_all add: added_def, auto)
qed

theorem trie_add_exact_witness:
  "\<exists>h'. trie_add ''/a/<int>'' 2 0 INVALID_BP_ID empty_node = Some (Inr h')
     \<and> mset (paths h') = {#([Lit (CHR ''/''), Lit (CHR ''a''), Lit (CHR ''/''), Par PInt], 2)#}"
proof -
  have p: "route_pieces ''/a/<int>'' = Some [Lit (CHR ''/''), Lit (CHR ''a''), Lit (CHR ''/''), Par PInt]"
    by code_simp
  show ?thesis
    using trie_add_exact[of "''/a/<int>''" empty_node 2 0 INVALID_BP_ID] p
    by (auto simp: empty_node_def)
qed

text \<open>C9. The search on the optimised tree finds a rule exactly when some pattern of the tree matches the
  whole path, and then it is the least rule among those that match, with that pattern's parameters.\<close>

theorem trie_search_least:
  assumes "trie_wf h"
  shows "(fr_rule (find_url strtod url (trie_optimize h)) = 0
      \<longleftrightarrow> (\<forall>(xs, r) \<in> set (paths h). match_pieces strtod xs url no_params = None))
    \<and> (fr_rule (find_url strtod url (trie_optimize h)) \<noteq> 0 \<longrightarrow>
        (\<exists>xs. (xs, fr_rule (find_url strtod url (trie_optimize h))) \<in> set (paths h)
            \<and> match_pieces strtod xs url no_params = Some (fr_params (find_url strtod url (trie_optimize h))))
        \<and> (\<forall>(xs, r) \<in> set (paths h). match_pieces strtod xs url no_params \<noteq> None \<longrightarrow>
            fr_rule (find_url strtod url (trie_optimize h)) \<le> r))"
proof -
  have "is_least (answers strtod url (trie_optimize h) no_params) (find_url strtod url (trie_optimize h))"
    unfolding find_url_def by (rule find_least(1)[OF trie_wf_optimize[OF assms]])
  moreover have a: "answers strtod url (trie_optimize h) no_params =
      {(r, p). \<exists>xs. (xs, r) \<in> set (paths h) \<and> match_pieces strtod xs url no_params = Some p}"
    unfolding answers_def paths_optimize ..
  have "(answers strtod url (trie_optimize h) no_params = {}) =
      (\<forall>(xs, r) \<in> set (paths h). match_pieces strtod xs url no_params = None)"
    unfolding a by (auto simp: case_prod_beta simp flip: not_None_eq) (metis not_None_eq fst_conv snd_conv)
  ultimately show ?thesis
    unfolding is_least_def by (auto simp: a)
qed

definition demo_tree :: node where
  "demo_tree = Node 0 INVALID_BP_ID [] PMax [Node 0 INVALID_BP_ID ''/'' PMax
     [Node 2 INVALID_BP_ID ''a'' PMax [], Node 3 INVALID_BP_ID [] PString []]]"

theorem trie_search_least_witness:
  "fr_rule (find_url (\<lambda>_. None :: (int \<times> string) option) ''/a'' (trie_optimize demo_tree)) = 2"
proof -
  have p: "paths demo_tree = [([Lit (CHR ''/''), Lit (CHR ''a'')], 2), ([Lit (CHR ''/''), Par PString], 3)]"
    by (simp add: demo_tree_def node_pieces_def)
  have m: "match_pieces (\<lambda>_. None :: (int \<times> string) option) [Lit (CHR ''/''), Lit (CHR ''a'')] ''/a'' no_params \<noteq> None"
    by simp
  have w: "trie_wf demo_tree" by (simp add: demo_tree_def)
  show ?thesis
    using trie_search_least[OF w, of "\<lambda>_. None :: (int \<times> string) option" "''/a''"] m unfolding p by auto
qed

text \<open>A search leaves the shared vector of blueprint indices empty.\<close>

lemma trie_find_moves:
  "snd (trie_find strtod url n ps bps) = []"
  "fst (snd (find_children strtod url cs ps bps acc frag)) \<Longrightarrow> (frag \<longrightarrow> bps = []) \<Longrightarrow>
     snd (snd (find_children strtod url cs ps bps acc frag)) = []"
proof (induction strtod url n ps bps and strtod url cs ps bps acc frag rule: trie_find_find_children.induct)
  case (1 strtod url r b k p cs ps bps)
  then show ?case by (auto split: prod.splits)
next
  case (2 strtod url ps bps acc frag)
  then show ?case by simp
next
  case (3 strtod url c cs ps bps acc frag)
  show ?case
  proof (cases "child_step strtod c url ps")
    case None
    with 3 show ?thesis by simp
  next
    case (Some pu)
    obtain ps' u where pu: "pu = (ps', u)" by (cases pu)
    let ?b = "if blueprint_index c \<noteq> INVALID_BP_ID then bps @ [blueprint_index c] else bps"
    obtain ret b' where f: "trie_find strtod u c ps' ?b = (ret, b')" by (cases "trie_find strtod u c ps' ?b")
    have b': "b' = []" using "3.IH"(2)[OF Some pu[symmetric] refl] f by simp
    from "3.IH"(3)[OF Some pu[symmetric] refl f[symmetric] refl refl refl] "3.prems"(1)
    show ?thesis using Some pu f b' by simp
  qed
qed

end
