(* ===== verification/Router.thy ===== *)
theory Router
  imports Response QueryString RouteTrie
begin

unbundle bit_operations_syntax

text \<open>
  The router (\<open>class Router\<close> of crow/routing.h) and the two calls a connection makes of it
  (\<open>handle_url\<close> and \<open>handle\<close> of crow/http_connection.h): registering rules for their methods,
  validating, choosing a rule for a request line and running it.  A request is shown to reach the
  handler of the least matching rule of its method, or to end in 404, 405, 301 or 204 as the code
  says.  Blueprints and middlewares, which the program does not use, are left out.
\<close>

section \<open>Methods\<close>

datatype http_method =
    Delete | Get | Head | Post | Put | Connect | Options | Trace | Patch | Purge | Copy | Lock | MkCol | Move
  | Propfind | Proppatch | Search | Unlock | Bind | Rebind | Unbind | Acl | Report | MkActivity | Checkout | Merge
  | MSearch | Notify | Subscribe | Unsubscribe | MkCalendar | Link | Unlink | Source

definition all_methods :: "http_method list" where
  "all_methods =
     [Delete, Get, Head, Post, Put, Connect, Options, Trace, Patch, Purge, Copy, Lock, MkCol, Move,
      Propfind, Proppatch, Search, Unlock, Bind, Rebind, Unbind, Acl, Report, MkActivity, Checkout, Merge,
      MSearch, Notify, Subscribe, Unsubscribe, MkCalendar, Link, Unlink, Source]"

definition method_strings :: "string list" where
  "method_strings =
     [''DELETE'', ''GET'', ''HEAD'', ''POST'', ''PUT'', ''CONNECT'', ''OPTIONS'', ''TRACE'', ''PATCH'', ''PURGE'',
      ''COPY'', ''LOCK'', ''MKCOL'', ''MOVE'', ''PROPFIND'', ''PROPPATCH'', ''SEARCH'', ''UNLOCK'', ''BIND'',
      ''REBIND'', ''UNBIND'', ''ACL'', ''REPORT'', ''MKACTIVITY'', ''CHECKOUT'', ''MERGE'', ''M-SEARCH'', ''NOTIFY'',
      ''SUBSCRIBE'', ''UNSUBSCRIBE'', ''MKCALENDAR'', ''LINK'', ''UNLINK'', ''SOURCE'']"

text \<open>The number of an enumerator.\<close>

definition method_index :: "http_method \<Rightarrow> nat" where
  "method_index m = the (find_index (\<lambda>x. x = m) all_methods)"

definition method_name :: "http_method \<Rightarrow> string" where
  "method_name m = method_strings ! method_index m"

section \<open>Requests and rules\<close>

record request =
  req_method :: http_method
  req_raw_url :: string
  req_url :: string
  req_url_params :: query_string
  req_headers :: ci_map
  req_body :: string
  req_http_major :: nat
  req_http_minor :: nat
  req_keep_alive :: bool
  req_close_connection :: bool
  req_upgrade :: bool

text \<open>What a handler does: it returns a response or throws, or it is given the response to write to and ends it.\<close>

datatype rule_action = Returns handler_result | Writes "response \<Rightarrow> response"

record 'd base_rule =
  rule_text :: string
  rule_name :: string
  rule_methods :: "32 word"
  rule_added :: bool
  rule_handler :: "(request \<Rightarrow> 'd routing_params \<Rightarrow> rule_action) option"

text \<open>A rule as \<open>CROW_ROUTE\<close> makes it: registered for GET.\<close>

definition new_rule_tagged :: "string \<Rightarrow> (request \<Rightarrow> 'd routing_params \<Rightarrow> rule_action) \<Rightarrow> 'd base_rule" where
  "new_rule_tagged rule h =
     \<lparr> rule_text = rule, rule_name = [], rule_methods = push_bit (method_index Get) 1, rule_added = False,
       rule_handler = Some h \<rparr>"

text \<open>\<open>foreach_method\<close>: the mask has 32 bits, so for the last two methods the shifted bit is zero.\<close>

definition foreach_method :: "'d base_rule \<Rightarrow> http_method list" where
  "foreach_method r = filter (\<lambda>m. rule_methods r AND push_bit (method_index m) 1 \<noteq> 0) all_methods"

text \<open>\<open>validate()\<close> of a tagged rule: the text of what it throws.\<close>

definition rule_validate :: "'d base_rule \<Rightarrow> string option" where
  "rule_validate r =
     (if rule_text r = [] then Some ''basic_string::at''
      else if hd (rule_text r) \<noteq> CHR ''/'' then Some (''Internal error: Routes must start with a '' @ [CHR 0x27, CHR ''/'', CHR 0x27])
      else case rule_handler r of
        None \<Rightarrow> Some (rule_name r @ (if rule_name r \<noteq> [] then '': '' else []) @ ''no handler for url '' @ rule_text r)
      | Some _ \<Rightarrow> None)"

record 'd per_method =
  pm_rules :: "'d base_rule option list"
  pm_trie :: node

record 'd router =
  all_rules :: "'d base_rule list"
  per_methods :: "'d per_method list"
  catchall_rule :: "(request \<Rightarrow> rule_action) option"

definition empty_per_method :: "'d per_method" where
  "empty_per_method = \<lparr> pm_rules = [None, None], pm_trie = empty_node \<rparr>"

definition empty_router :: "'d router" where
  "empty_router = \<lparr> all_rules = [], per_methods = replicate (length all_methods) empty_per_method, catchall_rule = None \<rparr>"

section \<open>Registering\<close>

text \<open>Steps that may not return (\<open>None\<close>) or may throw (\<open>Inl\<close>).\<close>

type_synonym 'a run = "(string + 'a) option"

definition and_then :: "'a run \<Rightarrow> ('a \<Rightarrow> 'b run) \<Rightarrow> 'b run" where
  "and_then x f = (case x of None \<Rightarrow> None | Some (Inl e) \<Rightarrow> Some (Inl e) | Some (Inr a) \<Rightarrow> f a)"

primrec run_each :: "('x \<Rightarrow> 'a \<Rightarrow> 'a run) \<Rightarrow> 'x list \<Rightarrow> 'a \<Rightarrow> 'a run" where
  "run_each f [] a = Some (Inr a)"
| "run_each f (x # xs) a = and_then (f x a) (run_each f xs)"

text \<open>
  One method of \<open>internal_add_rule_object\<close>.  The index is stored in sixteen bits; a rule that ends
  in a slash is also found without it, as a redirection.
\<close>

definition add_rule_for :: "string \<Rightarrow> 'd base_rule \<Rightarrow> 'd per_method \<Rightarrow> 'd per_method run" where
  "add_rule_for rule r pm =
     (let has_trailing_slash = (1 < length rule \<and> last rule = CHR ''/'');
          rules = pm_rules pm @ [Some r]
      in and_then (trie_add rule ((length rules - 1) mod 65536) 0 INVALID_BP_ID (pm_trie pm)) (\<lambda>t.
           if has_trailing_slash then
             and_then (trie_add (butlast rule) RULE_SPECIAL_REDIRECT_SLASH 0 INVALID_BP_ID t) (\<lambda>t.
               Some (Inr \<lparr> pm_rules = rules, pm_trie = t \<rparr>))
           else Some (Inr \<lparr> pm_rules = rules, pm_trie = t \<rparr>)))"

definition internal_add_rule_object :: "string \<Rightarrow> 'd base_rule \<Rightarrow> 'd per_method list \<Rightarrow> 'd per_method list run" where
  "internal_add_rule_object rule r =
     run_each (\<lambda>m pms. and_then (add_rule_for rule r (pms ! method_index m))
                        (\<lambda>pm. Some (Inr (pms[method_index m := pm])))) (foreach_method r)"

definition validate_rule :: "'d base_rule \<Rightarrow> 'd per_method list \<Rightarrow> 'd per_method list run" where
  "validate_rule r pms =
     (if rule_added r then Some (Inr pms)
      else case rule_validate r of
             Some e \<Rightarrow> Some (Inl e)
           | None \<Rightarrow> internal_add_rule_object (rule_text r) r pms)"

definition validate_trie :: "'d per_method \<Rightarrow> 'd per_method run" where
  "validate_trie pm =
     (case trie_validate (pm_trie pm) of
        None \<Rightarrow> Some (Inl ''Internal error: Trie header should be simple!'')
      | Some t \<Rightarrow> Some (Inr (pm\<lparr>pm_trie := t\<rparr>)))"

primrec validate_tries :: "'d per_method list \<Rightarrow> 'd per_method list run" where
  "validate_tries [] = Some (Inr [])"
| "validate_tries (pm # pms) =
     and_then (validate_trie pm) (\<lambda>pm. and_then (validate_tries pms) (\<lambda>pms. Some (Inr (pm # pms))))"

definition router_validate :: "'d router \<Rightarrow> 'd router run" where
  "router_validate rt =
     and_then (run_each validate_rule (all_rules rt) (per_methods rt)) (\<lambda>pms.
       and_then (validate_tries pms) (\<lambda>pms.
         Some (Inr (rt\<lparr>per_methods := pms, all_rules := map (\<lambda>r. r\<lparr>rule_added := True\<rparr>) (all_rules rt)\<rparr>))))"

section \<open>Choosing a rule\<close>

record 'd handle_found =
  hf_catch_all :: bool
  hf_rule :: nat
  hf_params :: "'d routing_params"
  hf_method :: "http_method option"   \<comment> \<open>\<open>None\<close>: not set\<close>

definition find_for :: "(string \<Rightarrow> ('d \<times> string) option) \<Rightarrow> 'd router \<Rightarrow> http_method \<Rightarrow> string \<Rightarrow> 'd find_result" where
  "find_for strtod rt m url = find_url strtod url (pm_trie (per_methods rt ! method_index m))"

definition found_of :: "http_method option \<Rightarrow> 'd find_result \<Rightarrow> 'd handle_found" where
  "found_of m f = \<lparr> hf_catch_all = False, hf_rule = fr_rule f, hf_params = fr_params f, hf_method = m \<rparr>"

text \<open>Move assignment of a response: the flags of the target stay.\<close>

definition response_assign :: "response \<Rightarrow> response \<Rightarrow> response" where
  "response_assign r res = res\<lparr>res_body := res_body r, res_code := res_code r, res_headers := res_headers r,
     res_completed := res_completed r, res_file := res_file r\<rparr>"

text \<open>\<open>end()\<close> before the connection has set its completion callback.\<close>

definition end_quietly :: "response \<Rightarrow> response" where
  "end_quietly res = snd (response_end False res)"

definition not_found_anywhere :: "'d handle_found" where
  "not_found_anywhere = \<lparr> hf_catch_all = False, hf_rule = 0, hf_params = no_params, hf_method = None \<rparr>"

definition handle_initial ::
    "(string \<Rightarrow> ('d \<times> string) option) \<Rightarrow> 'd router \<Rightarrow> request \<Rightarrow> response \<Rightarrow> 'd handle_found \<times> response" where
  "handle_initial strtod rt req res =
     (let url = req_url req;
          none = not_found_anywhere
      in if req_method req = Head then
           (let f = find_for strtod rt Head url
            in if fr_rule f \<noteq> 0 then (found_of (Some Head) f, res\<lparr>res_skip_body := True\<rparr>)
               else let f = find_for strtod rt Get url
                    in if fr_rule f = 0 then (found_of None f, end_quietly (response_assign (response_code 404) res))
                       else (found_of (Some Get) f, res\<lparr>res_skip_body := True\<rparr>))
         else if req_method req = Options then
           (if url = ''/*'' then
              (let allow = ''OPTIONS, HEAD'' @ concat (map (\<lambda>m. if m = Head then [] else
                     if \<not> trie_is_empty (pm_trie (per_methods rt ! method_index m)) then '', '' @ method_name m else [])
                     all_methods);
                   res = set_header ''Allow'' allow (response_assign (response_code 204) res)
               in (none\<lparr>hf_method := Some Options\<rparr>, end_quietly res))
            else
              (let matching = filter (\<lambda>m. fr_rule (find_for strtod rt m url) \<noteq> 0) all_methods;
                   allow = ''OPTIONS, HEAD'' @ concat (map (\<lambda>m. if m = Head then [] else '', '' @ method_name m) matching)
               in if matching \<noteq> [] then
                    (none\<lparr>hf_method := Some Options\<rparr>,
                     end_quietly (set_header ''Allow'' allow (response_assign (response_code 204) res)))
                  else (none, end_quietly (response_assign (response_code 404) res))))
         else
           (let f = find_for strtod rt (req_method req) url
            in if fr_rule f \<noteq> 0 then (found_of (Some (req_method req)) f, res)
               else if list_ex (\<lambda>m. fr_rule (find_for strtod rt m url) \<noteq> 0) all_methods
               then ((found_of None f)\<lparr>hf_catch_all := True\<rparr>, res\<lparr>res_code := 405\<rparr>)
               else ((found_of None f)\<lparr>hf_catch_all := True\<rparr>, res\<lparr>res_code := 404\<rparr>)))"

section \<open>Running it\<close>

text \<open>
  A wrapped handler: \<open>res = response(f(...)); res.end()\<close>, and the same with the response of the
  exception handler when it throws; or one that writes to \<open>res\<close> and ends it.  The value is what \<open>end()\<close> hands to the connection.
\<close>

definition run_handler :: "rule_action \<Rightarrow> response \<Rightarrow> response option \<times> response" where
  "run_handler h res =
     response_end True (case h of Returns (Inl e) \<Rightarrow> response_assign (default_exception_handler e) res
                                | Returns (Inr r) \<Rightarrow> response_assign r res
                                | Writes w \<Rightarrow> w res)"

definition handle ::
    "'d router \<Rightarrow> request \<Rightarrow> response \<Rightarrow> 'd handle_found \<Rightarrow> string + (response option \<times> response)" where
  "handle rt req res found =
     (if hf_catch_all found then
        (case catchall_rule rt of
           Some h \<Rightarrow> Inr (run_handler (h req) res)
         | None \<Rightarrow> Inr (response_end True res))
      else
        (let rules = pm_rules (per_methods rt ! method_index (the (hf_method found)))
         in if length rules \<le> hf_rule found then Inl ''Trie internal structure corrupted!''
            else if hf_rule found = RULE_SPECIAL_REDIRECT_SLASH then
              Inr (response_end True (add_header ''Location'' (req_url req @ ''/'') (response_assign (response_code 301) res)))
            else case rules ! hf_rule found of
                   Some r \<Rightarrow> Inr (run_handler (the (rule_handler r) req (hf_params found)) res)
                 | None \<Rightarrow> Inl ''null rule''))"   \<comment> \<open>the code dereferences a null pointer\<close>

section \<open>A table of GET routes\<close>

text \<open>What a router built from a table of patterns and handlers should do: the first pattern that matches.\<close>

type_synonym 'd route = "string \<times> (request \<Rightarrow> 'd routing_params \<Rightarrow> rule_action)"

definition pattern_match :: "(string \<Rightarrow> ('d \<times> string) option) \<Rightarrow> string \<Rightarrow> string \<Rightarrow> 'd routing_params option" where
  "pattern_match strtod p url =
     (case route_pieces p of None \<Rightarrow> None | Some xs \<Rightarrow> match_pieces strtod xs url no_params)"

fun first_match :: "(string \<Rightarrow> ('d \<times> string) option) \<Rightarrow> 'd route list \<Rightarrow> string
    \<Rightarrow> ((request \<Rightarrow> 'd routing_params \<Rightarrow> rule_action) \<times> 'd routing_params) option" where
  "first_match strtod [] url = None"
| "first_match strtod ((p, h) # rs) url =
     (case pattern_match strtod p url of Some ps \<Rightarrow> Some (h, ps) | None \<Rightarrow> first_match strtod rs url)"

definition table_router :: "'d route list \<Rightarrow> 'd router" where
  "table_router rs = empty_router\<lparr>all_rules := map (\<lambda>(p, h). new_rule_tagged p h) rs\<rparr>"

text \<open>Patterns as in the program: rooted, without a trailing slash, known tags, pairwise different.\<close>

definition pattern_ok :: "string \<Rightarrow> bool" where
  "pattern_ok p \<longleftrightarrow> p \<noteq> [] \<and> hd p = CHR ''/'' \<and> (1 < length p \<longrightarrow> last p \<noteq> CHR ''/'')
     \<and> CHR 0x00 \<notin> set p \<and> route_pieces p \<noteq> None"

definition table_ok :: "'d route list \<Rightarrow> bool" where
  "table_ok rs \<longleftrightarrow> list_all (\<lambda>(p, _). pattern_ok p) rs \<and> distinct (map (\<lambda>(p, _). route_pieces p) rs)
     \<and> length rs < 65534"

lemma method_index_Get: "method_index m = method_index Get \<longleftrightarrow> m = Get"
  by (cases m) (simp_all add: method_index_def all_methods_def)

lemma method_index_less: "method_index m < length all_methods"
  by (cases m) (simp_all add: method_index_def all_methods_def)

lemma foreach_tagged: "foreach_method (new_rule_tagged p h) = [Get]"
proof -
  have i: "method_index Get = 1" by (simp add: method_index_def all_methods_def)
  have "(push_bit 1 1 AND push_bit n 1 \<noteq> (0 :: 32 word)) \<longleftrightarrow> n = 1" for n
  proof
    assume "push_bit 1 1 AND push_bit n 1 \<noteq> (0 :: 32 word)"
    then obtain k where "bit (push_bit 1 1 AND push_bit n 1 :: 32 word) k"
      using bit_eqI[of "push_bit 1 1 AND push_bit n 1 :: 32 word" 0] by auto
    then show "n = 1" by (auto simp: bit_simps)
  next
    assume n: "n = 1"
    have "bit (push_bit 1 1 AND push_bit n 1 :: 32 word) 1"
      using n by (simp add: bit_simps)
    then show "push_bit 1 1 AND push_bit n 1 \<noteq> (0 :: 32 word)" by auto
  qed
  then have "foreach_method (new_rule_tagged p h) = filter (\<lambda>m. method_index m = 1) all_methods"
    unfolding foreach_method_def new_rule_tagged_def i base_rule.simps by simp
  also have "\<dots> = filter (\<lambda>m. m = Get) all_methods"
    using method_index_Get i by simp
  also have "\<dots> = [Get]" by (simp add: all_methods_def)
  finally show ?thesis .
qed

lemma map_sum_Inr: "map_sum id f r = Inr y \<longleftrightarrow> (\<exists>x. r = Inr x \<and> y = f x)"
  by (cases r) auto

text \<open>The header of the tree: it has at most one child, for the leading slash.\<close>

definition head_ok :: "node \<Rightarrow> bool" where
  "head_ok h \<longleftrightarrow> char_tree h \<and> rule_index h = 0 \<and> blueprint_index h = INVALID_BP_ID \<and> param h = PMax
     \<and> (children h = [] \<or> (\<exists>c. children h = [c] \<and> child_piece c = Lit (CHR ''/'')))"

lemma head_ok_empty: "head_ok empty_node"
  by (simp add: head_ok_def empty_node_def)

lemma head_ok_simple: "head_ok h \<Longrightarrow> IsSimpleNode h"
  by (auto simp: head_ok_def IsSimpleNode_def child_piece_def split: if_splits)

lemma route_pieces_slash: "pattern_ok p \<Longrightarrow> \<exists>xs. route_pieces p = Some (Lit (CHR ''/'') # xs)"
  by (cases p) (auto simp: pattern_ok_def)

lemma trie_add_head_ok:
  assumes h: "head_ok h" and p: "pattern_ok p" and new: "route_pieces p = Some xs" "xs \<notin> fst ` set (paths h)"
    and r: "rule \<noteq> 0"
  shows "\<exists>h'. trie_add p rule 0 INVALID_BP_ID h = Some (Inr h') \<and> head_ok h'
     \<and> mset (paths h') = add_mset (xs, rule) (mset (paths h))"
proof -
  have ct: "char_tree h" using h by (simp add: head_ok_def)
  have z: "CHR 0x00 \<notin> set p" using p by (simp add: pattern_ok_def)
  obtain h' where h': "trie_add p rule 0 INVALID_BP_ID h = Some (Inr h')" "char_tree h'"
      "mset (paths h') = add_mset (xs, rule) (mset (paths h))"
    using trie_add_cases[OF z ct, of rule 0 INVALID_BP_ID] new r by (auto simp: added_def)
  obtain ys where ys: "route_pieces (drop 0 p) = Some (Lit (CHR ''/'') # ys)"
    using route_pieces_slash[OF p] by auto
  obtain i' new where w: "child_piece new = Lit (CHR ''/'')"
      "add_walk p rule False 0 INVALID_BP_ID 0 h =
        (case find_index (\<lambda>c. child_piece c = Lit (CHR ''/'')) (children h) of
           Some j \<Rightarrow> Option.bind (add_walk p rule False 0 INVALID_BP_ID i' (children h ! j))
               (\<lambda>r. Some (map_sum id (\<lambda>c. with_children ((children h)[j := c]) h) r))
         | None \<Rightarrow> Option.bind (add_walk p rule False 0 INVALID_BP_ID i' new)
               (\<lambda>r. Some (map_sum id (\<lambda>c. with_children (children h @ [c]) h) r)))"
    using add_walk_step[OF z ct ys, of rule False 0 INVALID_BP_ID] by blast
  have "\<exists>c. h' = with_children [c] h"
    using h'(1) w(2) h unfolding trie_add_def head_ok_def
    by (auto simp: bind_eq_Some_conv map_sum_Inr split: option.splits if_splits)
  then obtain c where c: "h' = with_children [c] h" by blast
  have "children h' \<noteq> []" using c by simp
  have "(Lit (CHR ''/'') # ys, rule) \<in># mset (paths h')"
    using h'(3) new ys by simp
  then have "Lit (CHR ''/'') # ys \<in> fst ` set (paths h')" by (force simp: image_iff)
  then have "child_piece c = Lit (CHR ''/'')"
    using fst_paths_Cons[OF h'(2)] c by auto
  then have "head_ok h'" using h h'(2) c by (simp add: head_ok_def with_children_def)
  with h' show ?thesis by blast
qed

text \<open>The state of the router after some of the rules are added.\<close>

definition tagged :: "'d route \<Rightarrow> 'd base_rule" where
  "tagged = (\<lambda>(p, h). new_rule_tagged p h)"

definition numbered :: "'d route list \<Rightarrow> (piece list \<times> nat) list" where
  "numbered rs = zip (map (\<lambda>(p, _). the (route_pieces p)) rs) (map ((+) 2) [0..<length rs])"

definition registered :: "'d route list \<Rightarrow> 'd per_method list \<Rightarrow> bool" where
  "registered rs pms \<longleftrightarrow>
     (\<exists>pm. pms = (replicate (length all_methods) empty_per_method)[method_index Get := pm]
        \<and> pm_rules pm = [None, None] @ map (\<lambda>r. Some (tagged r)) rs
        \<and> head_ok (pm_trie pm) \<and> mset (paths (pm_trie pm)) = mset (numbered rs))"

lemma numbered_snoc: "numbered (rs @ [(p, h)]) = numbered rs @ [(the (route_pieces p), 2 + length rs)]"
  by (simp add: numbered_def)

lemma set_numbered: "(xs, i) \<in> set (numbered rs) \<longleftrightarrow>
   (\<exists>k < length rs. i = 2 + k \<and> xs = the (route_pieces (fst (rs ! k))))"
  by (force simp: numbered_def set_zip case_prod_beta)

lemma fst_numbered: "fst ` set (numbered rs) = (\<lambda>(p, _). the (route_pieces p)) ` set rs"
proof -
  have "map fst (numbered rs) = map (\<lambda>(p, _). the (route_pieces p)) rs"
    by (simp add: numbered_def)
  then show ?thesis by (metis image_set)
qed

lemma registered_step:
  assumes reg: "registered rs pms" and ok: "table_ok (rs @ [(p, h)])"
  shows "\<exists>pms'. validate_rule (new_rule_tagged p h) pms = Some (Inr pms') \<and> registered (rs @ [(p, h)]) pms'"
proof -
  let ?r = "new_rule_tagged p h"
  obtain pm where pm: "pms = (replicate (length all_methods) empty_per_method)[method_index Get := pm]"
      "pm_rules pm = [None, None] @ map (\<lambda>r. Some (tagged r)) rs"
      "head_ok (pm_trie pm)" "mset (paths (pm_trie pm)) = mset (numbered rs)"
    using reg unfolding registered_def by blast
  have p: "pattern_ok p" and all: "list_all (\<lambda>(p, _). pattern_ok p) rs"
    and new: "route_pieces p \<notin> set (map (\<lambda>(p, _). route_pieces p) rs)" and len: "length rs + 1 < 65534"
    using ok by (auto simp: table_ok_def)
  obtain xs where xs: "route_pieces p = Some xs" using p by (auto simp: pattern_ok_def)
  have "xs \<notin> fst ` set (numbered rs)"
  proof
    assume "xs \<in> fst ` set (numbered rs)"
    then obtain q g where q: "(q, g) \<in> set rs" "xs = the (route_pieces q)"
      unfolding fst_numbered by auto
    then have "pattern_ok q" using all by (auto simp: list_all_iff)
    with q xs have "route_pieces q = route_pieces p" by (auto simp: pattern_ok_def)
    with q new show False by force
  qed
  then have fresh: "xs \<notin> fst ` set (paths (pm_trie pm))"
    using pm(4) by (metis set_mset_mset)
  let ?n = "2 + length rs"
  obtain t where t: "trie_add p ?n 0 INVALID_BP_ID (pm_trie pm) = Some (Inr t)" "head_ok t"
      "mset (paths t) = add_mset (xs, ?n) (mset (paths (pm_trie pm)))"
    using trie_add_head_ok[OF pm(3) p xs fresh, of ?n] by auto
  let ?pm = "\<lparr> pm_rules = pm_rules pm @ [Some ?r], pm_trie = t \<rparr>"
  have get: "pms ! method_index Get = pm"
    using pm(1) method_index_less by simp
  have "add_rule_for p ?r pm = Some (Inr ?pm)"
    using t(1) p len by (auto simp: add_rule_for_def and_then_def pattern_ok_def pm(2) Let_def)
  then have "validate_rule ?r pms = Some (Inr (pms[method_index Get := ?pm]))"
    using get p unfolding validate_rule_def internal_add_rule_object_def foreach_tagged
    by (simp add: new_rule_tagged_def rule_validate_def and_then_def pattern_ok_def)
  moreover have "registered (rs @ [(p, h)]) (pms[method_index Get := ?pm])"
    unfolding registered_def
    by (rule exI[of _ ?pm]) (simp add: pm(1,2,4) t(2,3) tagged_def numbered_snoc xs)
  ultimately show ?thesis by blast
qed

lemma table_ok_prefix: "table_ok (rs @ qs) \<Longrightarrow> table_ok rs"
  by (auto simp: table_ok_def)

lemma registered_all:
  "registered done pms \<Longrightarrow> table_ok (done @ rs) \<Longrightarrow>
     \<exists>pms'. run_each validate_rule (map tagged rs) pms = Some (Inr pms') \<and> registered (done @ rs) pms'"
proof (induction rs arbitrary: "done" pms)
  case Nil
  then show ?case by simp
next
  case (Cons r rs)
  obtain p h where r: "r = (p, h)" by (cases r)
  obtain pms' where pms': "validate_rule (new_rule_tagged p h) pms = Some (Inr pms')" "registered (done @ [(p, h)]) pms'"
    using registered_step[OF Cons.prems(1), of p h] table_ok_prefix[of "done @ [(p, h)]" rs] Cons.prems(2) r by auto
  from Cons.IH[OF pms'(2)] Cons.prems(2) r obtain pms''
    where "run_each validate_rule (map tagged rs) pms' = Some (Inr pms'')" "registered (done @ r # rs) pms''"
    by auto
  with pms'(1) r show ?case by (simp add: and_then_def tagged_def)
qed

text \<open>Validation of the tables.\<close>

lemma validate_tries_all:
  "\<forall>pm \<in> set pms. IsSimpleNode (pm_trie pm) \<Longrightarrow>
     validate_tries pms = Some (Inr (map (\<lambda>pm. pm\<lparr>pm_trie := trie_optimize (pm_trie pm)\<rparr>) pms))"
  by (induction pms) (auto simp: validate_trie_def trie_validate_def and_then_def)

lemma registered_empty: "registered [] (replicate (length all_methods) (empty_per_method :: 'd per_method))"
proof -
  let ?e = "empty_per_method :: 'd per_method"
  have "replicate (length all_methods) ?e = (replicate (length all_methods) ?e)[method_index Get := ?e]"
    by (metis list_update_id nth_replicate method_index_less)
  moreover have "pm_rules ?e = [None, None]" "pm_trie ?e = empty_node"
    by (simp_all add: empty_per_method_def)
  moreover have "paths empty_node = []" by (simp add: empty_node_def)
  ultimately show ?thesis
    unfolding registered_def by (intro exI[of _ ?e]) (simp add: head_ok_empty numbered_def)
qed

lemma table_router_validates:
  assumes "table_ok rs"
  shows "\<exists>rt t. router_validate (table_router rs) = Some (Inr rt) \<and> catchall_rule rt = None
     \<and> pm_rules (per_methods rt ! method_index Get) = [None, None] @ map (\<lambda>r. Some (tagged r)) rs
     \<and> pm_trie (per_methods rt ! method_index Get) = trie_optimize t
     \<and> trie_wf t \<and> mset (paths t) = mset (numbered rs)
     \<and> (\<forall>m. m \<noteq> Get \<longrightarrow> pm_trie (per_methods rt ! method_index m) = trie_optimize empty_node)"
proof -
  obtain pms where run: "run_each validate_rule (map tagged rs) (replicate (length all_methods) empty_per_method) = Some (Inr pms)"
      and reg: "registered rs pms"
    using registered_all[OF registered_empty, of rs] assms by auto
  obtain pm where pm: "pms = (replicate (length all_methods) empty_per_method)[method_index Get := pm]"
      "pm_rules pm = [None, None] @ map (\<lambda>r. Some (tagged r)) rs"
      "head_ok (pm_trie pm)" "mset (paths (pm_trie pm)) = mset (numbered rs)"
    using reg unfolding registered_def by blast
  let ?opt = "\<lambda>pm. pm\<lparr>pm_trie := trie_optimize (pm_trie pm)\<rparr>"
  have "\<forall>q \<in> set pms. IsSimpleNode (pm_trie q)"
    using pm(1,3) head_ok_simple head_ok_empty set_update_subset_insert
    by (fastforce simp: empty_per_method_def dest: in_set_replicate[THEN iffD1])
  from validate_tries_all[OF this] have val: "validate_tries pms = Some (Inr (map ?opt pms))" .
  let ?rt = "(table_router rs)\<lparr>per_methods := map ?opt pms,
    all_rules := map (\<lambda>r. r\<lparr>rule_added := True\<rparr>) (all_rules (table_router rs))\<rparr>"
  have v: "router_validate (table_router rs) = Some (Inr ?rt)"
    using run val by (simp add: router_validate_def table_router_def empty_router_def and_then_def tagged_def)
  have rt: "catchall_rule ?rt = None" "per_methods ?rt = map ?opt pms"
    by (simp_all add: table_router_def empty_router_def)
  have len: "length pms = length all_methods" using pm(1) by simp
  have get: "per_methods ?rt ! method_index Get = ?opt pm"
    using pm(1) method_index_less unfolding rt(2) by simp
  have other: "pm_trie (per_methods ?rt ! method_index m) = trie_optimize empty_node" if "m \<noteq> Get" for m
    using that method_index_less[of m] method_index_Get[of m] pm(1) unfolding rt(2) by (simp add: empty_per_method_def)
  have wf: "trie_wf (pm_trie pm)" using pm(3) char_tree_wf by (simp add: head_ok_def)
  show ?thesis
  proof (rule exI[of _ ?rt], rule exI[of _ "pm_trie pm"], intro conjI allI impI)
    show "router_validate (table_router rs) = Some (Inr ?rt)" by (rule v)
    show "catchall_rule ?rt = None" by (rule rt(1))
    show "pm_rules (per_methods ?rt ! method_index Get) = [None, None] @ map (\<lambda>r. Some (tagged r)) rs"
      unfolding get using pm(2) by simp
    show "pm_trie (per_methods ?rt ! method_index Get) = trie_optimize (pm_trie pm)"
      unfolding get by simp
    show "mset (paths (pm_trie pm)) = mset (numbered rs)" by (rule pm(4))
  qed (use wf other in auto)
qed

section \<open>Dispatch\<close>

lemma first_match_None:
  "first_match strtod rs url = None \<longleftrightarrow> (\<forall>k < length rs. pattern_match strtod (fst (rs ! k)) url = None)"
proof (induction rs)
  case (Cons r rs)
  then show ?case
    by (cases r) (auto simp: less_Suc_eq_0_disj split: option.splits)
qed simp

lemma first_match_least:
  "k < length rs \<Longrightarrow> pattern_match strtod (fst (rs ! k)) url = Some ps \<Longrightarrow>
   (\<And>j. j < k \<Longrightarrow> pattern_match strtod (fst (rs ! j)) url = None) \<Longrightarrow>
   first_match strtod rs url = Some (snd (rs ! k), ps)"
proof (induction rs arbitrary: k)
  case (Cons r rs)
  obtain p h where r: "r = (p, h)" by (cases r)
  show ?case
  proof (cases k)
    case 0
    with Cons.prems r show ?thesis by simp
  next
    case (Suc i)
    have "pattern_match strtod p url = None" using Cons.prems(3)[of 0] Suc r by simp
    moreover have "first_match strtod rs url = Some (snd (rs ! i), ps)"
      using Cons.prems(1,2) Suc Cons.prems(3)[of "Suc j" for j] by (intro Cons.IH) auto
    ultimately show ?thesis using r Suc by simp
  qed
qed simp

text \<open>What a search for GET finds in the validated router, and that the other methods find nothing.\<close>

lemma table_find:
  assumes ok: "table_ok rs" and v: "router_validate (table_router rs) = Some (Inr rt)"
  shows "case first_match strtod rs url of
       None \<Rightarrow> fr_rule (find_for strtod rt Get url) = 0
     | Some (h, ps) \<Rightarrow> \<exists>p. 1 < fr_rule (find_for strtod rt Get url)
         \<and> fr_rule (find_for strtod rt Get url) < length (pm_rules (per_methods rt ! method_index Get))
         \<and> pm_rules (per_methods rt ! method_index Get) ! fr_rule (find_for strtod rt Get url) = Some (new_rule_tagged p h)
         \<and> fr_params (find_for strtod rt Get url) = ps"
proof -
  obtain t where pm: "pm_rules (per_methods rt ! method_index Get) = [None, None] @ map (\<lambda>r. Some (tagged r)) rs"
      "pm_trie (per_methods rt ! method_index Get) = trie_optimize t"
      "trie_wf t" "mset (paths t) = mset (numbered rs)"
    using table_router_validates[OF ok] v by auto
  let ?f = "find_for strtod rt Get url"
  have paths: "set (paths t) = set (numbered rs)" by (metis pm(4) set_mset_mset)
  have pieces: "match_pieces strtod (the (route_pieces (fst (rs ! k)))) url no_params
      = pattern_match strtod (fst (rs ! k)) url" if "k < length rs" for k
    using ok that by (auto simp: table_ok_def list_all_length pattern_ok_def pattern_match_def case_prod_beta)
  have "is_least (answers strtod url (trie_optimize t) no_params) ?f"
    unfolding find_for_def pm(2) find_url_def by (rule find_least(1)[OF trie_wf_optimize[OF pm(3)]])
  moreover have ans: "answers strtod url (trie_optimize t) no_params =
      {(r, ps). \<exists>k < length rs. r = 2 + k \<and> pattern_match strtod (fst (rs ! k)) url = Some ps}"
    unfolding answers_def paths_optimize paths set_numbered using pieces by auto
  ultimately have l: "is_least {(r, ps). \<exists>k < length rs. r = 2 + k \<and> pattern_match strtod (fst (rs ! k)) url = Some ps} ?f"
    by simp
  show ?thesis
  proof (cases "fr_rule ?f = 0")
    case True
    have "pattern_match strtod (fst (rs ! k)) url = None" if "k < length rs" for k
      using l True that by (cases "pattern_match strtod (fst (rs ! k)) url") (auto simp: is_least_def)
    then have "first_match strtod rs url = None" unfolding first_match_None by blast
    with True show ?thesis by simp
  next
    case False
    with l obtain k where k: "k < length rs" "fr_rule ?f = 2 + k"
        "pattern_match strtod (fst (rs ! k)) url = Some (fr_params ?f)"
        and least: "\<And>j q. j < length rs \<Longrightarrow> pattern_match strtod (fst (rs ! j)) url = Some q \<Longrightarrow> k \<le> j"
      by (fastforce simp: is_least_def)
    have "first_match strtod rs url = Some (snd (rs ! k), fr_params ?f)"
    proof (intro first_match_least)
      fix j assume "j < k"
      with least[of j] k(1) show "pattern_match strtod (fst (rs ! j)) url = None"
        by (cases "pattern_match strtod (fst (rs ! j)) url") auto
    qed (use k in auto)
    then show ?thesis
      using k pm(1) by (auto simp: tagged_def case_prod_beta)
  qed
qed

lemma table_find_other:
  assumes ok: "table_ok rs" and v: "router_validate (table_router rs) = Some (Inr rt)" and m: "m \<noteq> Get"
  shows "fr_rule (find_for strtod rt m url) = 0"
proof -
  have "pm_trie (per_methods rt ! method_index m) = trie_optimize empty_node"
    using table_router_validates[OF ok] v m by auto
  moreover have "is_least (answers strtod url (trie_optimize empty_node) no_params)
      (find_url strtod url (trie_optimize empty_node))"
    unfolding find_url_def by (rule find_least(1)) (simp add: trie_optimize_def empty_node_def)
  ultimately show ?thesis
    unfolding find_for_def answers_def paths_optimize by (auto simp: empty_node_def is_least_def)
qed

lemma list_ex_methods:
  "list_ex P all_methods \<longleftrightarrow> (\<exists>m. P m)"
proof -
  have "m \<in> set all_methods" for m by (cases m) (simp_all add: all_methods_def)
  then show ?thesis by (auto simp: list_ex_iff)
qed

lemma table_list_ex:
  assumes "table_ok rs" and "router_validate (table_router rs) = Some (Inr rt)"
  shows "list_ex (\<lambda>m. fr_rule (find_for strtod rt m url) \<noteq> 0) all_methods \<longleftrightarrow> first_match strtod rs url \<noteq> None"
proof -
  have "fr_rule (find_for strtod rt Get url) \<noteq> 0 \<longleftrightarrow> first_match strtod rs url \<noteq> None"
    using table_find[OF assms, of strtod url] by (auto split: option.splits)
  moreover have "(\<exists>m. fr_rule (find_for strtod rt m url) \<noteq> 0) \<longleftrightarrow> fr_rule (find_for strtod rt Get url) \<noteq> 0"
    using table_find_other[OF assms] by metis
  ultimately show ?thesis unfolding list_ex_methods by simp
qed

lemma table_handle_Get:
  assumes "table_ok rs" and "router_validate (table_router rs) = Some (Inr rt)"
    and "first_match strtod rs url = Some (h, ps)"
  shows "handle rt req res (found_of (Some Get) (find_for strtod rt Get url)) = Inr (run_handler (h req ps) res)"
  using table_find[OF assms(1,2), of strtod url] assms(3)
  by (auto simp: handle_def found_of_def new_rule_tagged_def RULE_SPECIAL_REDIRECT_SLASH_def Let_def)

lemma table_catchall: "table_ok rs \<Longrightarrow> router_validate (table_router rs) = Some (Inr rt) \<Longrightarrow> catchall_rule rt = None"
  using table_router_validates[of rs] by auto

lemma table_fr_rule:
  assumes "table_ok rs" and "router_validate (table_router rs) = Some (Inr rt)"
  shows "fr_rule (find_for strtod rt m url) = 0 \<longleftrightarrow> m \<noteq> Get \<or> first_match strtod rs url = None"
  using table_find[OF assms, of strtod url] table_find_other[OF assms, of m strtod url]
  by (cases "m = Get") (auto split: option.splits)

lemma table_fr_pos:
  assumes "table_ok rs" and "router_validate (table_router rs) = Some (Inr rt)"
  shows "0 < fr_rule (find_for strtod rt m url) \<longleftrightarrow> m = Get \<and> first_match strtod rs url \<noteq> None"
  using table_fr_rule[OF assms, of strtod m url] by auto

text \<open>A request on a router built from a table.\<close>

lemma dispatch_table:
  assumes "table_ok rs" and "req_method req \<noteq> Head" and "req_method req \<noteq> Options"
  shows "\<exists>rt. router_validate (table_router rs) = Some (Inr rt)
    \<and> (case handle_initial strtod rt req res of (found, res') \<Rightarrow> handle rt req res' found) =
        Inr (case first_match strtod rs (req_url req) of
               Some (h, ps) \<Rightarrow>
                 if req_method req = Get then run_handler (h req ps) res
                 else response_end True (res\<lparr>res_code := 405\<rparr>)
             | None \<Rightarrow> response_end True (res\<lparr>res_code := 404\<rparr>))"
proof -
  obtain rt where v: "router_validate (table_router rs) = Some (Inr rt)"
    using table_router_validates[OF assms(1)] by blast
  note fr = table_fr_rule[OF assms(1) v, of strtod] table_fr_pos[OF assms(1) v, of strtod]
  have "(case handle_initial strtod rt req res of (found, res') \<Rightarrow> handle rt req res' found) =
        Inr (case first_match strtod rs (req_url req) of
               Some (h, ps) \<Rightarrow>
                 if req_method req = Get then run_handler (h req ps) res
                 else response_end True (res\<lparr>res_code := 405\<rparr>)
             | None \<Rightarrow> response_end True (res\<lparr>res_code := 404\<rparr>))"
  proof (cases "first_match strtod rs (req_url req)")
    case None
    then show ?thesis
      using assms(2,3) fr table_catchall[OF assms(1) v]
      by (simp add: list_ex_methods handle_initial_def found_of_def handle_def Let_def)
  next
    case (Some hp)
    obtain h ps where hp: "hp = (h, ps)" by (cases hp)
    show ?thesis
    proof (cases "req_method req = Get")
      case True
      then show ?thesis
        using Some hp fr table_handle_Get[OF assms(1) v, of strtod "req_url req" h ps req res]
        by (simp add: handle_initial_def Let_def)
    next
      case False
      then show ?thesis
        using Some hp assms(2,3) fr table_catchall[OF assms(1) v]
        by (simp add: list_ex_methods handle_initial_def found_of_def handle_def Let_def)
    qed
  qed
  with v show ?thesis by blast
qed

section \<open>Properties\<close>

text \<open>C8. A router built from a table of GET patterns validates, and a request whose method is neither
  HEAD nor OPTIONS is answered by the first pattern of the table that matches its path: its handler
  runs with the parameters read from the path when the method is GET, the answer is 405 for another
  method, and 404 when no pattern matches.\<close>

theorem router_dispatch:
  assumes "table_ok rs" and "req_method req \<noteq> Head" and "req_method req \<noteq> Options"
  shows "\<exists>rt. router_validate (table_router rs) = Some (Inr rt)
    \<and> (case handle_initial strtod rt req res of (found, res') \<Rightarrow> handle rt req res' found) =
        Inr (case first_match strtod rs (req_url req) of
               Some (h, ps) \<Rightarrow>
                 if req_method req = Get then run_handler (h req ps) res
                 else response_end True (res\<lparr>res_code := 405\<rparr>)
             | None \<Rightarrow> response_end True (res\<lparr>res_code := 404\<rparr>))"
  using assms by (rule dispatch_table)

definition sample_request :: "http_method \<Rightarrow> string \<Rightarrow> request" where
  "sample_request m url =
     \<lparr> req_method = m, req_raw_url = url, req_url = url, req_url_params = make_query_string url True,
       req_headers = [], req_body = [], req_http_major = 1, req_http_minor = 1, req_keep_alive = True,
       req_close_connection = False, req_upgrade = False \<rparr>"

definition echo_route :: "'d route" where
  "echo_route = (''/a/<string>'', \<lambda>_ ps. Returns (Inr (response_body (string_params ps ! 0))))"

lemma echo_table_ok: "table_ok [echo_route]"
proof -
  have "route_pieces ''/a/<string>'' = Some [Lit (CHR ''/''), Lit (CHR ''a''), Lit (CHR ''/''), Par PString]"
    by code_simp
  then show ?thesis by (simp add: table_ok_def echo_route_def pattern_ok_def)
qed

theorem router_dispatch_witness:
  "\<exists>rt. router_validate (table_router [echo_route]) = Some (Inr rt)
    \<and> (case handle_initial (\<lambda>_. None :: (int \<times> string) option) rt (sample_request Get ''/a/b'') response_default of
         (found, res') \<Rightarrow> handle rt (sample_request Get ''/a/b'') res' found) =
        Inr (response_end True (response_body ''b''))"
proof -
  have m: "pattern_match (\<lambda>_. None :: (int \<times> string) option) ''/a/<string>'' ''/a/b'' = Some (no_params\<lparr>string_params := [''b'']\<rparr>)"
    by code_simp
  have "req_method (sample_request Get ''/a/b'') \<noteq> Head" "req_method (sample_request Get ''/a/b'') \<noteq> Options"
    by (simp_all add: sample_request_def)
  from router_dispatch[OF echo_table_ok this, of "\<lambda>_. None :: (int \<times> string) option" response_default] m
  show ?thesis
    by (simp add: sample_request_def echo_route_def run_handler_def response_assign_def response_body_def response_default_def)
qed

text \<open>HEAD and OPTIONS on such a router: HEAD runs the GET handler with the body suppressed, or ends
  in 404 when nothing matches; OPTIONS ends in 204 and allows GET exactly when a pattern matches.\<close>

theorem router_head_options:
  assumes "table_ok rs"
  shows "\<exists>rt. router_validate (table_router rs) = Some (Inr rt)
    \<and> (req_method req = Head \<longrightarrow>
        (case first_match strtod rs (req_url req) of
           Some (h, ps) \<Rightarrow>
             (case handle_initial strtod rt req res of (found, res') \<Rightarrow> handle rt req res' found)
               = Inr (run_handler (h req ps) (res\<lparr>res_skip_body := True\<rparr>))
         | None \<Rightarrow> snd (handle_initial strtod rt req res) = end_quietly (response_assign (response_code 404) res)))
    \<and> (req_method req = Options \<and> req_url req \<noteq> ''/*'' \<longrightarrow>
        snd (handle_initial strtod rt req res) =
          (if first_match strtod rs (req_url req) = None then end_quietly (response_assign (response_code 404) res)
           else end_quietly (set_header ''Allow'' ''OPTIONS, HEAD, GET'' (response_assign (response_code 204) res))))"
proof -
  obtain rt where v: "router_validate (table_router rs) = Some (Inr rt)"
    using table_router_validates[OF assms(1)] by blast
  note fr = table_fr_rule[OF assms(1) v, of strtod] table_fr_pos[OF assms(1) v, of strtod]
  have head: "case first_match strtod rs (req_url req) of
           Some (h, ps) \<Rightarrow>
             (case handle_initial strtod rt req res of (found, res') \<Rightarrow> handle rt req res' found)
               = Inr (run_handler (h req ps) (res\<lparr>res_skip_body := True\<rparr>))
         | None \<Rightarrow> snd (handle_initial strtod rt req res) = end_quietly (response_assign (response_code 404) res)"
    if "req_method req = Head"
    using that fr table_handle_Get[OF assms(1) v, of strtod "req_url req"]
    by (auto simp: handle_initial_def Let_def split: option.splits)
  have "filter (\<lambda>m. fr_rule (find_for strtod rt m (req_url req)) \<noteq> 0) all_methods =
      (if first_match strtod rs (req_url req) = None then [] else [Get])"
    using fr by (simp add: all_methods_def)
  moreover have "method_name Get = ''GET''"
    by code_simp
  ultimately have "snd (handle_initial strtod rt req res) =
          (if first_match strtod rs (req_url req) = None then end_quietly (response_assign (response_code 404) res)
           else end_quietly (set_header ''Allow'' ''OPTIONS, HEAD, GET'' (response_assign (response_code 204) res)))"
    if "req_method req = Options" "req_url req \<noteq> ''/*''"
    using that by (simp add: handle_initial_def Let_def)
  with v head show ?thesis by blast
qed

theorem router_head_options_witness:
  "\<exists>rt. router_validate (table_router [echo_route]) = Some (Inr rt)
    \<and> (case handle_initial (\<lambda>_. None :: (int \<times> string) option) rt (sample_request Head ''/a/b'') response_default of
         (found, res') \<Rightarrow> handle rt (sample_request Head ''/a/b'') res' found) =
        Inr (run_handler (Returns (Inr (response_body ''b''))) (response_default\<lparr>res_skip_body := True\<rparr>))"
proof -
  have m: "pattern_match (\<lambda>_. None :: (int \<times> string) option) ''/a/<string>'' ''/a/b'' = Some (no_params\<lparr>string_params := [''b'']\<rparr>)"
    by code_simp
  from router_head_options[OF echo_table_ok, of "sample_request Head ''/a/b''" "\<lambda>_. None :: (int \<times> string) option" response_default] m
  show ?thesis by (simp add: sample_request_def echo_route_def)
qed

end
