(* ===== verification/App.thy ===== *)
theory App
  imports Server Router Files
begin

text \<open>
  The running program (main of server.cpp): its table of routes on the router, with the handlers of
  the two handler theories.  The table is shown to send every documented path, and no other, to its
  handler with the texts between the slashes as arguments.
\<close>

section \<open>The table\<close>

definition arg :: "'d routing_params \<Rightarrow> nat \<Rightarrow> string" where
  "arg ps i = string_params ps ! i"

definition server_routes :: "'d fpops \<Rightarrow> (string \<Rightarrow> string option) \<Rightarrow> 'd AirTravelDB \<Rightarrow> 'd route list" where
  "server_routes fp fs db =
     [(''/'', \<lambda>_ _. Returns (Inr (h_index fs))),
      (''/static/style.css'', \<lambda>_ _. Returns (Inr (h_style_css fs))),
      (''/static/app.js'', \<lambda>_ _. Returns (Inr (h_app_js fs))),
      (''/download/source'', \<lambda>_ _. Returns (Inr (h_download_source fs))),
      (''/airline/<string>'', \<lambda>_ ps. Returns (Inr (h_airline fp db (arg ps 0)))),
      (''/api/airline/by-icao/<string>'', \<lambda>_ ps. Returns (Inr (h_airline_by_icao fp db (arg ps 0)))),
      (''/api/airlines/suggest'', \<lambda>req _. Returns (Inr (h_airlines_suggest fp db (qs_get (req_url_params req) ''q'')))),
      (''/airport/<string>'', \<lambda>_ ps. Returns (h_airport fp db (arg ps 0))),
      (''/api/airports/suggest'', \<lambda>req _. Returns (Inr (h_airports_suggest fp db (qs_get (req_url_params req) ''q'')))),
      (''/report/airline/<string>/airports-by-routes.json'', \<lambda>_ ps. Returns (Inr (report_airline_json fp db (arg ps 0)))),
      (''/report/airline/<string>/airports-by-routes.csv'', \<lambda>_ ps. Returns (Inr (report_airline_csv db (arg ps 0)))),
      (''/report/airport/<string>/airlines-by-routes.json'', \<lambda>_ ps. Returns (Inr (report_airport_json fp db (arg ps 0)))),
      (''/report/airport/<string>/airlines-by-routes.csv'', \<lambda>_ ps. Returns (Inr (report_airport_csv db (arg ps 0)))),
      (''/report/airlines/by-iata.json'', \<lambda>_ _. Returns (Inr (report_airlines_json fp db))),
      (''/report/airlines/by-iata.csv'', \<lambda>_ _. Returns (Inr (report_airlines_csv db))),
      (''/report/airports/by-iata.json'', \<lambda>_ _. Returns (Inr (report_airports_json fp db))),
      (''/report/airports/by-iata.csv'', \<lambda>_ _. Returns (Inr (report_airports_csv fp db))),
      (''/api/student-id'', \<lambda>_ _. Returns (Inr (h_student_id fp))),
      (''/onehop/<string>/<string>'', \<lambda>_ ps. Returns (Inr (h_onehop fp db (arg ps 0) (arg ps 1)))),
      (''/api/source-code'', \<lambda>_ _. Returns (Inr (h_source_code fs))),
      (''/routes/<string>/<string>'', \<lambda>_ ps. Returns (Inr (h_routes fp db (arg ps 0) (arg ps 1)))),
      (''/code'', \<lambda>_ _. Returns (Inr h_code))]"

text \<open>\<open>run\<close> adds the route for static files behind those of main, then validates.\<close>

definition static_route :: "(string \<Rightarrow> string option) \<Rightarrow> 'd route" where
  "static_route fs = (''/static/<path>'', \<lambda>_ ps. Writes (static_handler fs (arg ps 0)))"

definition program_routes :: "'d fpops \<Rightarrow> (string \<Rightarrow> string option) \<Rightarrow> 'd route list" where
  "program_routes fp fs = server_routes fp fs (server_db fp fs) @ [static_route fs]"

text \<open>Start of the program: the tables loaded, the routes registered and validated.\<close>

definition server_app :: "'d fpops \<Rightarrow> (string \<Rightarrow> string option) \<Rightarrow> 'd router run" where
  "server_app fp fs = router_validate (table_router (program_routes fp fs))"

section \<open>What the table should do\<close>

text \<open>One text between slashes.\<close>

definition segment :: "string \<Rightarrow> bool" where
  "segment t \<longleftrightarrow> t \<noteq> [] \<and> CHR ''/'' \<notin> set t"

inductive documented :: "'d fpops \<Rightarrow> (string \<Rightarrow> string option) \<Rightarrow> 'd AirTravelDB \<Rightarrow> request \<Rightarrow> string \<Rightarrow> rule_action \<Rightarrow> bool"
  for fp fs db req where
  "documented fp fs db req ''/'' (Returns (Inr (h_index fs)))"
| "documented fp fs db req ''/static/style.css'' (Returns (Inr (h_style_css fs)))"
| "documented fp fs db req ''/static/app.js'' (Returns (Inr (h_app_js fs)))"
| "documented fp fs db req ''/download/source'' (Returns (Inr (h_download_source fs)))"
| "segment t \<Longrightarrow> documented fp fs db req (''/airline/'' @ t) (Returns (Inr (h_airline fp db t)))"
| "segment t \<Longrightarrow> documented fp fs db req (''/api/airline/by-icao/'' @ t) (Returns (Inr (h_airline_by_icao fp db t)))"
| "documented fp fs db req ''/api/airlines/suggest'' (Returns (Inr (h_airlines_suggest fp db (qs_get (req_url_params req) ''q''))))"
| "segment t \<Longrightarrow> documented fp fs db req (''/airport/'' @ t) (Returns (h_airport fp db t))"
| "documented fp fs db req ''/api/airports/suggest'' (Returns (Inr (h_airports_suggest fp db (qs_get (req_url_params req) ''q''))))"
| "segment t \<Longrightarrow> documented fp fs db req (''/report/airline/'' @ t @ ''/airports-by-routes.json'') (Returns (Inr (report_airline_json fp db t)))"
| "segment t \<Longrightarrow> documented fp fs db req (''/report/airline/'' @ t @ ''/airports-by-routes.csv'') (Returns (Inr (report_airline_csv db t)))"
| "segment t \<Longrightarrow> documented fp fs db req (''/report/airport/'' @ t @ ''/airlines-by-routes.json'') (Returns (Inr (report_airport_json fp db t)))"
| "segment t \<Longrightarrow> documented fp fs db req (''/report/airport/'' @ t @ ''/airlines-by-routes.csv'') (Returns (Inr (report_airport_csv db t)))"
| "documented fp fs db req ''/report/airlines/by-iata.json'' (Returns (Inr (report_airlines_json fp db)))"
| "documented fp fs db req ''/report/airlines/by-iata.csv'' (Returns (Inr (report_airlines_csv db)))"
| "documented fp fs db req ''/report/airports/by-iata.json'' (Returns (Inr (report_airports_json fp db)))"
| "documented fp fs db req ''/report/airports/by-iata.csv'' (Returns (Inr (report_airports_csv fp db)))"
| "documented fp fs db req ''/api/student-id'' (Returns (Inr (h_student_id fp)))"
| "segment s \<Longrightarrow> segment d \<Longrightarrow> documented fp fs db req (''/onehop/'' @ s @ ''/'' @ d) (Returns (Inr (h_onehop fp db s d)))"
| "documented fp fs db req ''/api/source-code'' (Returns (Inr (h_source_code fs)))"
| "segment s \<Longrightarrow> segment d \<Longrightarrow> documented fp fs db req (''/routes/'' @ s @ ''/'' @ d) (Returns (Inr (h_routes fp db s d)))"
| "documented fp fs db req ''/code'' (Returns (Inr h_code))"

text \<open>
  What the program does for a path: the documented answer, and for any other path below
  \<open>/static/\<close> the file of that name.
\<close>

definition static_answer :: "(string \<Rightarrow> string option) \<Rightarrow> string \<Rightarrow> rule_action \<Rightarrow> bool" where
  "static_answer fs url a \<longleftrightarrow> (\<exists>t. t \<noteq> [] \<and> url = ''/static/'' @ t \<and> a = Writes (static_handler fs t))"

definition program_answer :: "'d fpops \<Rightarrow> (string \<Rightarrow> string option) \<Rightarrow> request \<Rightarrow> string \<Rightarrow> rule_action \<Rightarrow> bool" where
  "program_answer fp fs req url a \<longleftrightarrow>
     (if \<exists>b. documented fp fs (server_db fp fs) req url b then documented fp fs (server_db fp fs) req url a
      else static_answer fs url a)"

section \<open>Matching the patterns\<close>

named_theorems pattern_pieces \<open>the pieces of the patterns of the table\<close>

lemma pieces_of_patterns [pattern_pieces]:
  "route_pieces ''/'' = Some (map Lit ''/'')"
  "route_pieces ''/static/style.css'' = Some (map Lit ''/static/style.css'')"
  "route_pieces ''/static/app.js'' = Some (map Lit ''/static/app.js'')"
  "route_pieces ''/download/source'' = Some (map Lit ''/download/source'')"
  "route_pieces ''/airline/<string>'' = Some (map Lit ''/airline/'' @ [Par PString])"
  "route_pieces ''/api/airline/by-icao/<string>'' = Some (map Lit ''/api/airline/by-icao/'' @ [Par PString])"
  "route_pieces ''/api/airlines/suggest'' = Some (map Lit ''/api/airlines/suggest'')"
  "route_pieces ''/airport/<string>'' = Some (map Lit ''/airport/'' @ [Par PString])"
  "route_pieces ''/api/airports/suggest'' = Some (map Lit ''/api/airports/suggest'')"
  "route_pieces ''/report/airline/<string>/airports-by-routes.json'' =
     Some (map Lit ''/report/airline/'' @ Par PString # map Lit ''/airports-by-routes.json'')"
  "route_pieces ''/report/airline/<string>/airports-by-routes.csv'' =
     Some (map Lit ''/report/airline/'' @ Par PString # map Lit ''/airports-by-routes.csv'')"
  by code_simp+

lemma pieces_of_patterns2 [pattern_pieces]:
  "route_pieces ''/report/airport/<string>/airlines-by-routes.json'' =
     Some (map Lit ''/report/airport/'' @ Par PString # map Lit ''/airlines-by-routes.json'')"
  "route_pieces ''/report/airport/<string>/airlines-by-routes.csv'' =
     Some (map Lit ''/report/airport/'' @ Par PString # map Lit ''/airlines-by-routes.csv'')"
  "route_pieces ''/report/airlines/by-iata.json'' = Some (map Lit ''/report/airlines/by-iata.json'')"
  "route_pieces ''/report/airlines/by-iata.csv'' = Some (map Lit ''/report/airlines/by-iata.csv'')"
  "route_pieces ''/report/airports/by-iata.json'' = Some (map Lit ''/report/airports/by-iata.json'')"
  "route_pieces ''/report/airports/by-iata.csv'' = Some (map Lit ''/report/airports/by-iata.csv'')"
  "route_pieces ''/api/student-id'' = Some (map Lit ''/api/student-id'')"
  "route_pieces ''/onehop/<string>/<string>'' = Some (map Lit ''/onehop/'' @ Par PString # map Lit ''/'' @ [Par PString])"
  "route_pieces ''/api/source-code'' = Some (map Lit ''/api/source-code'')"
  "route_pieces ''/routes/<string>/<string>'' = Some (map Lit ''/routes/'' @ Par PString # map Lit ''/'' @ [Par PString])"
  "route_pieces ''/code'' = Some (map Lit ''/code'')"
  by code_simp+

lemma match_lits:
  "match_pieces strtod (map Lit k @ xs) url ps =
     (if prefix k url then match_pieces strtod xs (drop (length k) url) ps else None)"
  by (induction k arbitrary: url) (auto split: list.splits)

lemma match_only_lits: "match_pieces strtod (map Lit k) url ps = (if url = k then Some ps else None)"
  using match_lits[of strtod k "[]" url ps] by (auto simp: prefix_def)

lemma take_segment: "segment t \<Longrightarrow> u = [] \<or> hd u = CHR ''/'' \<Longrightarrow>
   take_param strtod PString (t @ u) ps = Some (ps\<lparr>string_params := string_params ps @ [t]\<rparr>, u)"
proof -
  assume "segment t" "u = [] \<or> hd u = CHR ''/''"
  then have "takeWhile (\<lambda>c. c \<noteq> CHR ''/'') (t @ u) = t"
    by (intro takeWhile_append_stop) (auto simp: segment_def)
  with \<open>segment t\<close> show ?thesis by (simp add: take_param_def segment_def Let_def)
qed

lemmas take_segment_end = take_segment[of _ "[]", simplified]

lemma take_param_segment: "take_param strtod PString url ps = Some (ps', u) \<longleftrightarrow>
   (\<exists>t. segment t \<and> (u = [] \<or> hd u = CHR ''/'') \<and> url = t @ u \<and> ps' = ps\<lparr>string_params := string_params ps @ [t]\<rparr>)"
proof
  let ?t = "takeWhile (\<lambda>c. c \<noteq> CHR ''/'') url"
  assume a: "take_param strtod PString url ps = Some (ps', u)"
  then have "u = dropWhile (\<lambda>c. c \<noteq> CHR ''/'') url" and "?t \<noteq> []" and "ps' = ps\<lparr>string_params := string_params ps @ [?t]\<rparr>"
    by (auto simp: take_param_def Let_def dropWhile_eq_drop split: if_splits)
  moreover have "CHR ''/'' \<notin> set ?t" by (auto dest: set_takeWhileD)
  ultimately show "\<exists>t. segment t \<and> (u = [] \<or> hd u = CHR ''/'') \<and> url = t @ u \<and> ps' = ps\<lparr>string_params := string_params ps @ [t]\<rparr>"
    using hd_dropWhile[of "\<lambda>c. c \<noteq> CHR ''/''" url] by (intro exI[of _ ?t]) (auto simp: segment_def)
qed (auto simp: take_segment take_segment_end)

text \<open>The patterns of the table by their shape: fixed, one text, two texts.\<close>

definition strings :: "string list \<Rightarrow> 'd routing_params" where
  "strings ts = no_params\<lparr>string_params := ts\<rparr>"

lemma match_fixed:
  "match_pieces strtod (map Lit k) url no_params = Some ps \<longleftrightarrow> url = k \<and> ps = strings []"
  by (auto simp: match_only_lits strings_def no_params_def)

lemma match_one:
  assumes "e = [] \<or> hd e = CHR ''/''"
  shows "match_pieces strtod (map Lit k @ Par PString # map Lit e) url no_params = Some ps
    \<longleftrightarrow> (\<exists>t. segment t \<and> url = k @ t @ e \<and> ps = strings [t])"
proof -
  have "match_pieces strtod (Par PString # map Lit e) u no_params = Some ps
      \<longleftrightarrow> (\<exists>t. segment t \<and> u = t @ e \<and> ps = strings [t])" for u
  proof
    assume "match_pieces strtod (Par PString # map Lit e) u no_params = Some ps"
    then obtain q where "take_param strtod PString u no_params = Some (q, e)" "ps = q"
      by (auto simp: match_only_lits split: option.splits if_splits)
    then show "\<exists>t. segment t \<and> u = t @ e \<and> ps = strings [t]"
      by (auto simp: take_param_segment strings_def no_params_def)
  next
    assume "\<exists>t. segment t \<and> u = t @ e \<and> ps = strings [t]"
    then obtain t where t: "segment t" "u = t @ e" "ps = strings [t]" by blast
    from take_segment[OF t(1) assms, of strtod no_params] t(2,3)
    show "match_pieces strtod (Par PString # map Lit e) u no_params = Some ps"
      by (simp add: match_only_lits strings_def no_params_def)
  qed
  then show ?thesis by (auto simp: match_lits prefix_def)
qed

lemma match_two:
  "match_pieces strtod (map Lit k @ Par PString # map Lit ''/'' @ [Par PString]) url no_params = Some ps
    \<longleftrightarrow> (\<exists>s d. segment s \<and> segment d \<and> url = k @ s @ ''/'' @ d \<and> ps = strings [s, d])"
proof -
  have last: "match_pieces strtod [Par PString] u q = Some ps
      \<longleftrightarrow> segment u \<and> ps = q\<lparr>string_params := string_params q @ [u]\<rparr>" for u q
  proof
    assume "match_pieces strtod [Par PString] u q = Some ps"
    then have "take_param strtod PString u q = Some (ps, [])"
      by (auto split: option.splits if_splits)
    then show "segment u \<and> ps = q\<lparr>string_params := string_params q @ [u]\<rparr>"
      by (auto simp: take_param_segment)
  qed (simp add: take_segment_end)
  have "match_pieces strtod (Par PString # map Lit ''/'' @ [Par PString]) u no_params = Some ps
      \<longleftrightarrow> (\<exists>s d. segment s \<and> segment d \<and> u = s @ ''/'' @ d \<and> ps = strings [s, d])" for u
  proof
    assume "match_pieces strtod (Par PString # map Lit ''/'' @ [Par PString]) u no_params = Some ps"
    then obtain q v where q: "take_param strtod PString u no_params = Some (q, v)"
        and "match_pieces strtod (map Lit ''/'' @ [Par PString]) v q = Some ps"
      by (auto split: option.splits)
    then obtain d where "v = ''/'' @ d" "match_pieces strtod [Par PString] d q = Some ps"
      unfolding match_lits by (auto simp: prefix_def split: if_splits)
    with q last show "\<exists>s d. segment s \<and> segment d \<and> u = s @ ''/'' @ d \<and> ps = strings [s, d]"
      by (fastforce simp: take_param_segment strings_def no_params_def)
  next
    assume "\<exists>s d. segment s \<and> segment d \<and> u = s @ ''/'' @ d \<and> ps = strings [s, d]"
    then obtain s d where sd: "segment s" "segment d" "u = s @ ''/'' @ d" "ps = strings [s, d]" by blast
    have "take_param strtod PString u no_params = Some (no_params\<lparr>string_params := [s]\<rparr>, ''/'' @ d)"
      using take_segment[OF sd(1), of "''/'' @ d" strtod no_params] sd(3) by (simp add: no_params_def)
    then show "match_pieces strtod (Par PString # map Lit ''/'' @ [Par PString]) u no_params = Some ps"
      using last[of d] sd(2,4) by (simp add: strings_def no_params_def)
  qed
  then show ?thesis by (auto simp: match_lits prefix_def)
qed

lemmas match_shapes =
  match_fixed match_two match_one[where e = "[]", simplified] match_one[where e = "CHR ''/'' # cs" for cs, simplified]

section \<open>The table is well formed\<close>

definition server_patterns :: "string list" where
  "server_patterns =
     [''/'',
      ''/static/style.css'',
      ''/static/app.js'',
      ''/download/source'',
      ''/airline/<string>'',
      ''/api/airline/by-icao/<string>'',
      ''/api/airlines/suggest'',
      ''/airport/<string>'',
      ''/api/airports/suggest'',
      ''/report/airline/<string>/airports-by-routes.json'',
      ''/report/airline/<string>/airports-by-routes.csv'',
      ''/report/airport/<string>/airlines-by-routes.json'',
      ''/report/airport/<string>/airlines-by-routes.csv'',
      ''/report/airlines/by-iata.json'',
      ''/report/airlines/by-iata.csv'',
      ''/report/airports/by-iata.json'',
      ''/report/airports/by-iata.csv'',
      ''/api/student-id'',
      ''/onehop/<string>/<string>'',
      ''/api/source-code'',
      ''/routes/<string>/<string>'',
      ''/code'']"

definition program_patterns :: "string list" where
  "program_patterns = server_patterns @ [''/static/<path>'']"

lemma server_patterns: "map fst (server_routes fp fs db) = server_patterns"
  by (simp only: server_routes_def server_patterns_def list.map fst_conv)

lemma program_patterns: "map fst (program_routes fp fs) = program_patterns"
  by (simp add: program_routes_def program_patterns_def static_route_def server_patterns)

text \<open>The patterns use one spelling of each tag, so their pieces tell them apart.\<close>

fun piece_text :: "piece \<Rightarrow> string" where
  "piece_text (Lit c) = [c]"
| "piece_text (Par t) = (if t = PPath then ''<path>'' else ''<string>'')"

lemma patterns_read_back:
  "map (\<lambda>p. concat (map piece_text (the (route_pieces p)))) program_patterns = program_patterns"
  by code_simp

lemma map_same: "map f xs = xs \<Longrightarrow> x \<in> set xs \<Longrightarrow> f x = x"
  by (induction xs) auto

lemma table_ok_patterns:
  "table_ok rs \<longleftrightarrow> list_all pattern_ok (map fst rs) \<and> distinct (map route_pieces (map fst rs)) \<and> length (map fst rs) < 65534"
proof -
  have "list_all (\<lambda>(p, _). pattern_ok p) rs \<longleftrightarrow> list_all pattern_ok (map fst rs)"
    by (simp add: list_all_iff case_prod_beta)
  moreover have "map (\<lambda>(p, _). route_pieces p) rs = map route_pieces (map fst rs)"
    by (simp add: case_prod_beta)
  ultimately show ?thesis unfolding table_ok_def by (simp only: length_map)
qed

lemma server_table_ok: "table_ok (program_routes fp fs)"
proof -
  have "list_all pattern_ok program_patterns" by code_simp
  moreover have "distinct (map route_pieces program_patterns)"
  proof (rule distinct_map[THEN iffD2, OF conjI])
    show "distinct program_patterns" by (simp add: program_patterns_def server_patterns_def)
    show "inj_on route_pieces (set program_patterns)"
    proof (rule inj_onI)
      fix p q assume pq: "p \<in> set program_patterns" "q \<in> set program_patterns" "route_pieces p = route_pieces q"
      note a = map_same[OF patterns_read_back pq(1), unfolded pq(3)]
        and b = map_same[OF patterns_read_back pq(2)]
      show "p = q" by (rule trans[OF a[symmetric] b])
    qed
  qed
  moreover have "length program_patterns < 65534" by (simp add: program_patterns_def server_patterns_def)
  ultimately show ?thesis unfolding table_ok_patterns program_patterns by blast
qed

section \<open>The table is exact\<close>

text \<open>The answer the table gives to a path.\<close>

definition table_answer ::
    "(string \<Rightarrow> ('d \<times> string) option) \<Rightarrow> 'd route list \<Rightarrow> request \<Rightarrow> string \<Rightarrow> rule_action option" where
  "table_answer strtod rs req url = (case first_match strtod rs url of None \<Rightarrow> None | Some (h, ps) \<Rightarrow> Some (h req ps))"

lemma first_match_Some_ex:
  "first_match strtod rs url = Some (h, ps) \<Longrightarrow> \<exists>p. (p, h) \<in> set rs \<and> pattern_match strtod p url = Some ps"
  by (induction rs) (auto split: option.splits prod.splits)

lemma arg_strings [simp]: "arg (strings (t # ts)) 0 = t" "arg (strings (s # t # ts)) 1 = t"
  by (simp_all add: arg_def strings_def)

lemma pattern_match_pieces:
  "route_pieces p = Some xs \<Longrightarrow> pattern_match strtod p url = match_pieces strtod xs url no_params"
  by (simp add: pattern_match_def)

named_theorems pattern_cases \<open>what the patterns of the table match\<close>

lemma pattern_matches [pattern_cases]:
  "pattern_match strtod ''/'' url = Some ps \<longleftrightarrow> url = ''/'' \<and> ps = strings []"
  "pattern_match strtod ''/static/style.css'' url = Some ps \<longleftrightarrow> url = ''/static/style.css'' \<and> ps = strings []"
  "pattern_match strtod ''/static/app.js'' url = Some ps \<longleftrightarrow> url = ''/static/app.js'' \<and> ps = strings []"
  "pattern_match strtod ''/download/source'' url = Some ps \<longleftrightarrow> url = ''/download/source'' \<and> ps = strings []"
  "pattern_match strtod ''/airline/<string>'' url = Some ps \<longleftrightarrow> (\<exists>t. segment t \<and> url = ''/airline/'' @ t \<and> ps = strings [t])"
  "pattern_match strtod ''/api/airline/by-icao/<string>'' url = Some ps \<longleftrightarrow> (\<exists>t. segment t \<and> url = ''/api/airline/by-icao/'' @ t \<and> ps = strings [t])"
  "pattern_match strtod ''/api/airlines/suggest'' url = Some ps \<longleftrightarrow> url = ''/api/airlines/suggest'' \<and> ps = strings []"
  "pattern_match strtod ''/airport/<string>'' url = Some ps \<longleftrightarrow> (\<exists>t. segment t \<and> url = ''/airport/'' @ t \<and> ps = strings [t])"
  "pattern_match strtod ''/api/airports/suggest'' url = Some ps \<longleftrightarrow> url = ''/api/airports/suggest'' \<and> ps = strings []"
  "pattern_match strtod ''/report/airline/<string>/airports-by-routes.json'' url = Some ps \<longleftrightarrow> (\<exists>t. segment t \<and> url = ''/report/airline/'' @ t @ ''/airports-by-routes.json'' \<and> ps = strings [t])"
  "pattern_match strtod ''/report/airline/<string>/airports-by-routes.csv'' url = Some ps \<longleftrightarrow> (\<exists>t. segment t \<and> url = ''/report/airline/'' @ t @ ''/airports-by-routes.csv'' \<and> ps = strings [t])"
  "pattern_match strtod ''/report/airport/<string>/airlines-by-routes.json'' url = Some ps \<longleftrightarrow> (\<exists>t. segment t \<and> url = ''/report/airport/'' @ t @ ''/airlines-by-routes.json'' \<and> ps = strings [t])"
  "pattern_match strtod ''/report/airport/<string>/airlines-by-routes.csv'' url = Some ps \<longleftrightarrow> (\<exists>t. segment t \<and> url = ''/report/airport/'' @ t @ ''/airlines-by-routes.csv'' \<and> ps = strings [t])"
  "pattern_match strtod ''/report/airlines/by-iata.json'' url = Some ps \<longleftrightarrow> url = ''/report/airlines/by-iata.json'' \<and> ps = strings []"
  "pattern_match strtod ''/report/airlines/by-iata.csv'' url = Some ps \<longleftrightarrow> url = ''/report/airlines/by-iata.csv'' \<and> ps = strings []"
  "pattern_match strtod ''/report/airports/by-iata.json'' url = Some ps \<longleftrightarrow> url = ''/report/airports/by-iata.json'' \<and> ps = strings []"
  "pattern_match strtod ''/report/airports/by-iata.csv'' url = Some ps \<longleftrightarrow> url = ''/report/airports/by-iata.csv'' \<and> ps = strings []"
  "pattern_match strtod ''/api/student-id'' url = Some ps \<longleftrightarrow> url = ''/api/student-id'' \<and> ps = strings []"
  "pattern_match strtod ''/onehop/<string>/<string>'' url = Some ps \<longleftrightarrow> (\<exists>s d. segment s \<and> segment d \<and> url = ''/onehop/'' @ s @ ''/'' @ d \<and> ps = strings [s, d])"
  "pattern_match strtod ''/api/source-code'' url = Some ps \<longleftrightarrow> url = ''/api/source-code'' \<and> ps = strings []"
  "pattern_match strtod ''/routes/<string>/<string>'' url = Some ps \<longleftrightarrow> (\<exists>s d. segment s \<and> segment d \<and> url = ''/routes/'' @ s @ ''/'' @ d \<and> ps = strings [s, d])"
  "pattern_match strtod ''/code'' url = Some ps \<longleftrightarrow> url = ''/code'' \<and> ps = strings []"
  unfolding pattern_pieces[THEN pattern_match_pieces] match_fixed match_two
    match_one[where e = "[]", simplified] by (rule refl match_one; simp)+

lemma table_sound:
  assumes "(p, h) \<in> set (server_routes fp fs db)" and "pattern_match strtod p url = Some ps"
  shows "documented fp fs db req url (h req ps)"
proof -
  have "\<forall>(p, h) \<in> set (server_routes fp fs db). \<forall>url ps. pattern_match strtod p url = Some ps \<longrightarrow>
      documented fp fs db req url (h req ps)"
    unfolding server_routes_def list.set ball_simps prod.case pattern_cases
    by (intro conjI allI impI TrueI; (elim exE conjE)?; hypsubst; (simp only: arg_strings)?;
        rule documented.intros; assumption)
  with assms show ?thesis by blast
qed

text \<open>A path has one documented answer.\<close>

lemma segment_split:
  "segment s \<Longrightarrow> segment t \<Longrightarrow> s @ CHR ''/'' # a = t @ CHR ''/'' # b \<longleftrightarrow> s = t \<and> a = b"
proof (intro iffI)
  have cut: "takeWhile (\<lambda>c. c \<noteq> CHR ''/'') (u @ CHR ''/'' # v) = u" if "segment u" for u v
    using that by (intro takeWhile_append_stop) (auto simp: segment_def)
  assume "segment s" "segment t" "s @ CHR ''/'' # a = t @ CHR ''/'' # b"
  with cut[of s a] cut[of t b] show "s = t \<and> a = b" by simp
qed simp

lemma segment_no_slash: "segment (s @ CHR ''/'' # a) \<longleftrightarrow> False"
  by (simp add: segment_def)

lemma documented_unique: "documented fp fs db req url r \<Longrightarrow> documented fp fs db req url r' \<Longrightarrow> r = r'"
  by (erule documented.cases; erule documented.cases) (simp_all add: segment_split)

lemma table_complete:
  assumes "documented fp fs db req url r"
  shows "\<exists>p h ps. (p, h) \<in> set (server_routes fp fs db) \<and> pattern_match strtod p url = Some ps \<and> r = h req ps"
proof -
  have "\<exists>(p, h) \<in> set (server_routes fp fs db). \<exists>ps. pattern_match strtod p url = Some ps \<and> r = h req ps"
    using assms unfolding server_routes_def list.set bex_simps prod.case pattern_cases
    by (cases rule: documented.cases) (simp_all, (metis arg_strings One_nat_def)+)
  then show ?thesis by blast
qed

lemma table_answer_iff:
  "table_answer strtod (server_routes fp fs db) req url = Some r \<longleftrightarrow> documented fp fs db req url r"
proof
  assume "table_answer strtod (server_routes fp fs db) req url = Some r"
  then obtain h ps where "first_match strtod (server_routes fp fs db) url = Some (h, ps)" "r = h req ps"
    by (auto simp: table_answer_def split: option.splits)
  with first_match_Some_ex table_sound show "documented fp fs db req url r" by metis
next
  assume d: "documented fp fs db req url r"
  then obtain p h ps where m: "(p, h) \<in> set (server_routes fp fs db)" "pattern_match strtod p url = Some ps"
    using table_complete by blast
  have "first_match strtod (server_routes fp fs db) url \<noteq> None"
  proof
    assume "first_match strtod (server_routes fp fs db) url = None"
    then have "\<forall>k < length (server_routes fp fs db). pattern_match strtod (fst (server_routes fp fs db ! k)) url = None"
      unfolding first_match_None .
    moreover obtain k where "k < length (server_routes fp fs db)" "server_routes fp fs db ! k = (p, h)"
      using m(1) unfolding in_set_conv_nth by blast
    ultimately show False using m(2) by (metis fst_conv option.distinct(1))
  qed
  then obtain h' ps' where f: "first_match strtod (server_routes fp fs db) url = Some (h', ps')" by auto
  with first_match_Some_ex table_sound have "documented fp fs db req url (h' req ps')" by metis
  with d documented_unique have "r = h' req ps'" by metis
  with f show "table_answer strtod (server_routes fp fs db) req url = Some r" by (simp add: table_answer_def)
qed

text \<open>The route for static files, behind the others.\<close>

lemma static_match: "pattern_match strtod ''/static/<path>'' url = Some ps \<longleftrightarrow> (\<exists>t. t \<noteq> [] \<and> url = ''/static/'' @ t \<and> ps = strings [t])"
proof -
  have pieces: "route_pieces ''/static/<path>'' = Some (map Lit ''/static/'' @ [Par PPath])" by code_simp
  have "take_param strtod PPath u no_params = (if u = [] then None else Some (strings [u], []))" for u
    by (simp add: take_param_def strings_def no_params_def Let_def)
  then have path: "match_pieces strtod [Par PPath] u no_params = Some ps \<longleftrightarrow> u \<noteq> [] \<and> ps = strings [u]" for u
    by auto
  have "match_pieces strtod (map Lit k @ [Par PPath]) url no_params = Some ps \<longleftrightarrow> (\<exists>t. t \<noteq> [] \<and> url = k @ t \<and> ps = strings [t])" for k
  proof (cases "prefix k url")
    case True
    then obtain u where u: "url = k @ u" by (auto simp: prefix_def)
    have "match_pieces strtod (map Lit k @ [Par PPath]) (k @ u) no_params = match_pieces strtod [Par PPath] u no_params"
      unfolding match_lits by simp
    then show ?thesis unfolding u same_append_eq using path by metis
  next
    case False
    then have "match_pieces strtod (map Lit k @ [Par PPath]) url no_params = None" unfolding match_lits by simp
    moreover have "\<not> (\<exists>t. url = k @ t)" using False by (simp add: prefix_def)
    ultimately show ?thesis by (metis option.distinct(1))
  qed
  then show ?thesis unfolding pieces[THEN pattern_match_pieces] .
qed

lemma first_match_append: "first_match strtod (xs @ ys) url =
   (case first_match strtod xs url of None \<Rightarrow> first_match strtod ys url | Some x \<Rightarrow> Some x)"
  by (induction xs) (auto split: option.splits)

lemma program_answer_iff:
  "table_answer strtod (program_routes fp fs) req url = Some a \<longleftrightarrow> program_answer fp fs req url a"
proof -
  let ?db = "server_db fp fs"
  have split: "table_answer strtod (program_routes fp fs) req url =
      (case table_answer strtod (server_routes fp fs ?db) req url of
         None \<Rightarrow> table_answer strtod [static_route fs] req url | Some a \<Rightarrow> Some a)"
    by (auto simp: table_answer_def program_routes_def first_match_append split: option.splits)
  have static: "table_answer strtod [static_route fs] req url = Some a \<longleftrightarrow> static_answer fs url a"
  proof (cases "pattern_match strtod ''/static/<path>'' url")
    case None
    then have "\<not> (\<exists>t. t \<noteq> [] \<and> url = ''/static/'' @ t)" using static_match[of strtod url] by (metis option.distinct(1))
    then show ?thesis using None unfolding table_answer_def static_route_def static_answer_def by auto
  next
    case (Some ps)
    then obtain t where t: "t \<noteq> []" "url = ''/static/'' @ t" "ps = strings [t]" using static_match[of strtod url] by blast
    then have "static_answer fs url a \<longleftrightarrow> a = Writes (static_handler fs t)" by (auto simp: static_answer_def)
    then show ?thesis using Some t(3) by (auto simp: table_answer_def static_route_def)
  qed
  show ?thesis
  proof (cases "table_answer strtod (server_routes fp fs ?db) req url")
    case None
    then have "\<not> (\<exists>b. documented fp fs ?db req url b)" using table_answer_iff[of strtod fp fs ?db req url] by simp
    then show ?thesis using None static by (simp add: split program_answer_def)
  next
    case (Some b)
    then have "\<exists>b. documented fp fs ?db req url b" using table_answer_iff[of strtod fp fs ?db req url] by blast
    then have "program_answer fp fs req url a \<longleftrightarrow> table_answer strtod (server_routes fp fs ?db) req url = Some a"
      unfolding program_answer_def table_answer_iff by simp
    then show ?thesis unfolding split using Some by simp
  qed
qed

text \<open>C5. The route table of the program is exact: for every path, the rule the table selects gives the
  documented answer of that path, a file for any other path below \<open>/static/\<close>, and it selects none
  exactly when the path is neither.\<close>

theorem server_routes_exact:
  "table_answer strtod (program_routes fp fs) req url = Some a \<longleftrightarrow> program_answer fp fs req url a"
  by (rule program_answer_iff)

text \<open>The program starts: its routes register and validate.  A GET request for a documented path is
  answered by running that path's handler on the loaded data, and any other path by a 404.\<close>

theorem server_answers:
  assumes "req_method req = Get"
  shows "\<exists>rt. server_app fp fs = Some (Inr rt)
    \<and> (case handle_initial strtod rt req res of (found, res') \<Rightarrow> handle rt req res' found) =
        Inr (case table_answer strtod (program_routes fp fs) req (req_url req) of
               Some a \<Rightarrow> run_handler a res
             | None \<Rightarrow> response_end True (res\<lparr>res_code := 404\<rparr>))"
  using dispatch_table[OF server_table_ok[of fp fs], of req strtod res] assms
  unfolding server_app_def table_answer_def by (auto split: option.splits)

theorem server_answers_witness:
  "\<exists>rt. server_app (real_fp (\<lambda>_. None) (\<lambda>_. [])) (\<lambda>_. None) = Some (Inr rt)
    \<and> (case handle_initial (\<lambda>_. None) rt (sample_request Get ''/code'') response_default of
         (found, res') \<Rightarrow> handle rt (sample_request Get ''/code'') res' found)
        = Inr (run_handler (Returns (Inr h_code)) response_default)"
proof -
  let ?fp = "real_fp (\<lambda>_. None) (\<lambda>_. [])" and ?q = "sample_request Get ''/code''"
  have q: "req_method ?q = Get" "req_url ?q = ''/code''" by (simp_all add: sample_request_def)
  have "documented ?fp (\<lambda>_. None) (server_db ?fp (\<lambda>_. None)) ?q ''/code'' (Returns (Inr h_code))" by (rule documented.intros)
  then have "table_answer (\<lambda>_. None) (program_routes ?fp (\<lambda>_. None)) ?q ''/code'' = Some (Returns (Inr h_code))"
    unfolding program_answer_iff by (auto simp: program_answer_def)
  with server_answers[OF q(1), of ?fp "\<lambda>_. None" "\<lambda>_. None" response_default] q(2) show ?thesis by simp
qed

end
