(* ===== verification/HttpParser.thy ===== *)
theory HttpParser
  imports Router
begin

text \<open>
  The HTTP request parser (crow/http_parser_merged.h), a state machine over the bytes of one buffer
  with callbacks.  The machine is translated state by state: marks are positions in the buffer, an
  \<open>outcome\<close> says whether the loop goes on with the next byte, runs the next state on a byte again
  (\<open>reexecute\<close>, with the variable \<open>ch\<close> it finds) or returns.  The program's buffers have 4096 bytes, fewer than the 81920 of the header
  limit, so the inner loops of the code that skip ahead by at most that limit reach the buffer's end.
\<close>

unbundle bit_operations_syntax

section \<open>States and the parser\<close>

datatype http_errno =
    CHPE_OK | CHPE_INVALID_EOF_STATE | CHPE_HEADER_OVERFLOW | CHPE_CLOSED_CONNECTION | CHPE_INVALID_VERSION
  | CHPE_INVALID_METHOD | CHPE_INVALID_URL | CHPE_LF_EXPECTED | CHPE_INVALID_HEADER_TOKEN
  | CHPE_INVALID_CONTENT_LENGTH | CHPE_UNEXPECTED_CONTENT_LENGTH | CHPE_INVALID_CHUNK_SIZE | CHPE_INVALID_CONSTANT
  | CHPE_STRICT | CHPE_INVALID_TRANSFER_ENCODING

datatype pstate =
    S_dead | S_start_req | S_req_method | S_req_spaces_before_url | S_req_schema | S_req_schema_slash
  | S_req_schema_slash_slash | S_req_server_start | S_req_server | S_req_server_with_at | S_req_path
  | S_req_query_string_start | S_req_query_string | S_req_http_start | S_req_http_H | S_req_http_HT
  | S_req_http_HTT | S_req_http_HTTP | S_req_http_I | S_req_http_IC | S_req_http_major | S_req_http_dot
  | S_req_http_minor | S_req_http_end | S_req_line_almost_done | S_header_field_start | S_header_field
  | S_header_value_discard_ws | S_header_value_discard_ws_almost_done | S_header_value_discard_lws
  | S_header_value_start | S_header_value | S_header_value_lws | S_header_almost_done
  | S_chunk_size_start | S_chunk_size | S_chunk_parameters | S_chunk_size_almost_done
  | S_headers_almost_done | S_headers_done
  | S_chunk_data | S_chunk_data_almost_done | S_chunk_data_done | S_body_identity | S_body_identity_eof
  | S_message_done

text \<open>\<open>CROW_PARSING_HEADER\<close>: the states up to \<open>s_headers_done\<close>.\<close>

definition parsing_header :: "pstate \<Rightarrow> bool" where
  "parsing_header s \<longleftrightarrow> s \<notin> {S_chunk_data, S_chunk_data_almost_done, S_chunk_data_done, S_body_identity,
     S_body_identity_eof, S_message_done}"

datatype header_state =
    H_general | H_C | H_CO | H_CON | H_matching_connection | H_matching_proxy_connection
  | H_matching_content_length | H_matching_transfer_encoding | H_matching_upgrade | H_connection
  | H_content_length | H_content_length_num | H_content_length_ws | H_transfer_encoding | H_upgrade
  | H_matching_transfer_encoding_token_start | H_matching_transfer_encoding_chunked
  | H_matching_transfer_encoding_token | H_matching_connection_keep_alive | H_matching_connection_close
  | H_transfer_encoding_chunked | H_connection_keep_alive | H_connection_close

record http_parser =
  f_chunked :: bool
  f_keep_alive :: bool
  f_close :: bool
  f_trailing :: bool
  f_upgrade :: bool
  f_skipbody :: bool
  f_contentlength :: bool
  hp_state :: pstate
  hp_header_state :: header_state
  hp_index :: nat                  \<comment> \<open>five bits\<close>
  hp_uses_te :: bool
  hp_allow_chunked_length :: bool
  hp_lenient :: bool
  hp_nread :: nat
  hp_content_length :: "64 word"
  hp_qs_point :: nat
  hp_major :: nat
  hp_minor :: nat
  hp_method :: http_method
  hp_errno :: http_errno
  hp_upgrade :: bool

definition http_parser_init :: http_parser where
  "http_parser_init =
     \<lparr> f_chunked = False, f_keep_alive = False, f_close = False, f_trailing = False, f_upgrade = False,
       f_skipbody = False, f_contentlength = False, hp_state = S_start_req, hp_header_state = H_general,
       hp_index = 0, hp_uses_te = False, hp_allow_chunked_length = False, hp_lenient = False, hp_nread = 0,
       hp_content_length = 0, hp_qs_point = 0, hp_major = 0, hp_minor = 0, hp_method = Delete,
       hp_errno = CHPE_OK, hp_upgrade = False \<rparr>"

definition max_header_size :: nat where "max_header_size = 80 * 1024"

definition ullong_max :: "64 word" where "ullong_max = - 1"

section \<open>Characters\<close>

definition lower_or :: "char \<Rightarrow> char" where
  "lower_or c = char_of (char_code c OR 0x20)"

definition is_alpha :: "char \<Rightarrow> bool" where
  "is_alpha c \<longleftrightarrow> 97 \<le> char_code (lower_or c) \<and> char_code (lower_or c) \<le> 122"

definition is_mark :: "char \<Rightarrow> bool" where
  "is_mark c \<longleftrightarrow> c \<in> set ''-_.!~*'' \<or> c = CHR 0x27 \<or> c \<in> set ''()''"

definition is_userinfo_char :: "char \<Rightarrow> bool" where
  "is_userinfo_char c \<longleftrightarrow> is_alpha c \<or> isdigit c \<or> is_mark c \<or> c \<in> set ''%;:&=+$,''"

text \<open>The table \<open>tokens\<close>: lower case for a token character, zero for any other.\<close>

definition token :: "char \<Rightarrow> char" where
  "token c =
     (if 65 \<le> char_code c \<and> char_code c \<le> 90 then tolower c
      else if 97 \<le> char_code c \<and> char_code c \<le> 122 \<or> isdigit c \<or> c \<in> set ''!#$%&*+-.^_|~''
        \<or> c = CHR 0x27 \<or> c = CHR 0x60 then c
      else CHR 0x00)"

text \<open>The bit table \<open>normal_url_char\<close>; its upper half is zero.\<close>

definition is_url_char :: "char \<Rightarrow> bool" where
  "is_url_char c \<longleftrightarrow> 33 \<le> char_code c \<and> char_code c \<le> 126 \<and> c \<noteq> CHR ''#'' \<and> c \<noteq> CHR ''?''"

definition is_header_char :: "char \<Rightarrow> bool" where
  "is_header_char c \<longleftrightarrow> c = CHR 0x0D \<or> c = CHR 0x0A \<or> char_code c = 9 \<or> 31 < char_code c \<and> char_code c \<noteq> 127"

text \<open>The table \<open>unhex\<close>: only its first half is written out, so a byte from 128 on has the value zero.\<close>

definition unhex :: "char \<Rightarrow> int" where
  "unhex c =
     (if 128 \<le> char_code c then 0
      else if isdigit c then int (char_code c) - 48
      else if 65 \<le> char_code c \<and> char_code c \<le> 70 then int (char_code c) - 55
      else if 97 \<le> char_code c \<and> char_code c \<le> 102 then int (char_code c) - 87 else - 1)"

text \<open>A character of a C string; its end is a zero byte.\<close>

definition c_at :: "string \<Rightarrow> nat \<Rightarrow> char" where
  "c_at s i = (if i < length s then s ! i else CHR 0x00)"

section \<open>URLs\<close>

text \<open>\<open>parse_url_char\<close>: the next state, and whether \<open>qs_point\<close> is set here.\<close>

definition parse_url_char :: "pstate \<Rightarrow> char \<Rightarrow> pstate \<times> bool" where
  "parse_url_char s ch =
     (if ch \<in> {CHR '' '', CHR 0x0D, CHR 0x0A, CHR 0x09, CHR 0x0C} then (S_dead, False)
      else case s of
        S_req_spaces_before_url \<Rightarrow>
          if ch = CHR ''/'' \<or> ch = CHR ''*'' then (S_req_path, False)
          else if is_alpha ch then (S_req_schema, False) else (S_dead, False)
      | S_req_schema \<Rightarrow>
          if is_alpha ch then (s, False)
          else if ch = CHR '':'' then (S_req_schema_slash, False) else (S_dead, False)
      | S_req_schema_slash \<Rightarrow> if ch = CHR ''/'' then (S_req_schema_slash_slash, False) else (S_dead, False)
      | S_req_schema_slash_slash \<Rightarrow> if ch = CHR ''/'' then (S_req_server_start, False) else (S_dead, False)
      | S_req_path \<Rightarrow>
          if is_url_char ch then (s, False)
          else if ch = CHR ''?'' then (S_req_query_string_start, True) else (S_dead, False)
      | _ \<Rightarrow>
          if s = S_req_query_string_start \<or> s = S_req_query_string then
            (if is_url_char ch \<or> ch = CHR ''?'' then (S_req_query_string, False) else (S_dead, False))
          else if s = S_req_server_with_at \<and> ch = CHR ''@'' then (S_dead, False)
          else if s = S_req_server_with_at \<or> s = S_req_server_start \<or> s = S_req_server then
            (if ch = CHR ''/'' then (S_req_path, False)
             else if ch = CHR ''?'' then (S_req_query_string_start, True)
             else if ch = CHR ''@'' then (S_req_server_with_at, False)
             else if is_userinfo_char ch \<or> ch = CHR ''['' \<or> ch = CHR '']'' then (S_req_server, False)
             else (S_dead, False))
          else (S_dead, False))"

section \<open>Callbacks and the machine's configuration\<close>

datatype http_event =
    On_message_begin | On_method | On_url string | On_header_field string | On_header_value string
  | On_headers_complete | On_body string | On_message_complete

text \<open>
  What a callback does to the parser it is called from: nothing, \<open>clear()\<close> for the next message, or
  \<open>done()\<close> followed by \<open>clear()\<close>, which leaves an error behind.  All the callbacks return zero.
\<close>

datatype cb_effect = Unchanged | Cleared | Aborted

type_synonym 's callbacks = "http_event \<Rightarrow> http_parser \<Rightarrow> 's \<Rightarrow> 's \<times> cb_effect"

definition apply_effect :: "cb_effect \<Rightarrow> http_parser \<Rightarrow> http_parser" where
  "apply_effect e P =
     (case e of Unchanged \<Rightarrow> P
      | Cleared \<Rightarrow> P\<lparr>hp_state := S_start_req, hp_qs_point := 0\<rparr>
      | Aborted \<Rightarrow> P\<lparr>hp_state := S_start_req, hp_qs_point := 0, hp_errno := CHPE_INVALID_EOF_STATE\<rparr>)"

record 's cfg =
  pr :: http_parser
  pos :: nat
  field_mark :: "nat option"
  value_mark :: "nat option"
  url_mark :: "nat option"
  url_start_mark :: "nat option"
  body_mark :: "nat option"
  nread :: nat
  app :: 's

datatype 's outcome = Advance "'s cfg" | Reexecute char "'s cfg" | Return nat http_parser 's

definition set_state :: "pstate \<Rightarrow> 's cfg \<Rightarrow> 's cfg" where
  "set_state s c = c\<lparr>pr := (pr c)\<lparr>hp_state := s\<rparr>\<rparr>"

definition set_header_state :: "header_state \<Rightarrow> 's cfg \<Rightarrow> 's cfg" where
  "set_header_state h c = c\<lparr>pr := (pr c)\<lparr>hp_header_state := h\<rparr>\<rparr>"

text \<open>\<open>CROW_SET_ERRNO(e); goto error\<close>.\<close>

definition error :: "http_errno \<Rightarrow> 's cfg \<Rightarrow> 's outcome" where
  "error e c = Return (pos c) ((pr c)\<lparr>hp_errno := e, hp_nread := nread c\<rparr>) (app c)"

text \<open>\<open>CROW_CALLBACK_NOTIFY_\<close> with what follows it.\<close>

definition notify :: "'s callbacks \<Rightarrow> http_event \<Rightarrow> nat \<Rightarrow> 's cfg \<Rightarrow> ('s cfg \<Rightarrow> 's outcome) \<Rightarrow> 's outcome" where
  "notify cb ev er c k =
     (case cb ev (pr c) (app c) of
        (s, e) \<Rightarrow>
          (let P = apply_effect e (pr c)
           in if hp_errno P \<noteq> CHPE_OK then Return er P s else k (c\<lparr>pr := P, app := s\<rparr>)))"

definition slice :: "string \<Rightarrow> nat \<Rightarrow> nat \<Rightarrow> string" where
  "slice data a b = take (b - a) (drop a data)"

text \<open>\<open>CROW_CALLBACK_DATA_\<close> for a mark: the text from the mark, whose length is given by its end.\<close>

definition data_callback ::
    "'s callbacks \<Rightarrow> (string \<Rightarrow> http_event) \<Rightarrow> nat option \<Rightarrow> string \<Rightarrow> nat \<Rightarrow> nat \<Rightarrow> 's cfg \<Rightarrow> ('s cfg \<Rightarrow> 's outcome) \<Rightarrow> 's outcome" where
  "data_callback cb ev mark data stop er c k =
     (case mark of None \<Rightarrow> k c | Some m \<Rightarrow> notify cb (ev (slice data m stop)) er c k)"

definition mark_at :: "nat \<Rightarrow> nat option \<Rightarrow> nat option" where
  "mark_at p m = (case m of None \<Rightarrow> Some p | Some q \<Rightarrow> Some q)"

text \<open>\<open>CROW_COUNT_HEADER_SIZE\<close>.\<close>

definition count_header :: "nat \<Rightarrow> 's cfg \<Rightarrow> ('s cfg \<Rightarrow> 's outcome) \<Rightarrow> 's outcome" where
  "count_header v c k =
     (let c = c\<lparr>nread := nread c + v\<rparr>
      in if max_header_size < nread c then error CHPE_HEADER_OVERFLOW c else k c)"

definition strict_check :: "bool \<Rightarrow> 's cfg \<Rightarrow> 's outcome \<Rightarrow> 's outcome" where
  "strict_check bad c k = (if bad then error CHPE_STRICT c else k)"

section \<open>The request line\<close>

definition first_method :: "char \<Rightarrow> http_method option" where
  "first_method ch =
     map_of [(CHR ''A'', Acl), (CHR ''B'', Bind), (CHR ''C'', Connect), (CHR ''D'', Delete), (CHR ''G'', Get),
       (CHR ''H'', Head), (CHR ''L'', Lock), (CHR ''M'', MkCol), (CHR ''N'', Notify), (CHR ''O'', Options),
       (CHR ''P'', Post), (CHR ''R'', Report), (CHR ''S'', Subscribe), (CHR ''T'', Trace), (CHR ''U'', Unlock)] ch"

definition do_start_req :: "'s callbacks \<Rightarrow> char \<Rightarrow> 's cfg \<Rightarrow> 's outcome" where
  "do_start_req cb ch c =
     (if ch = CHR 0x0D \<or> ch = CHR 0x0A then Advance c
      else let c = c\<lparr>pr := (pr c)\<lparr>f_chunked := False, f_keep_alive := False, f_close := False, f_trailing := False,
                  f_upgrade := False, f_skipbody := False, f_contentlength := False,
                  hp_uses_te := False, hp_content_length := ullong_max\<rparr>\<rparr>
           in if \<not> is_alpha ch then error CHPE_INVALID_METHOD c
              else let c = c\<lparr>pr := (pr c)\<lparr>hp_method := Delete, hp_index := 1\<rparr>\<rparr>
                   in case first_method ch of
                        None \<Rightarrow> error CHPE_INVALID_METHOD c
                      | Some m \<Rightarrow>
                          notify cb On_message_begin (pos c + 1)
                            (c\<lparr>pr := (pr c)\<lparr>hp_method := m, hp_state := S_req_method\<rparr>\<rparr>) Advance)"

text \<open>Where a method's spelling leaves the one guessed so far.\<close>

definition method_switch :: "(http_method \<times> nat \<times> char \<times> http_method) list" where
  "method_switch =
     [(Post, 1, CHR ''U'', Put), (Post, 1, CHR ''A'', Patch), (Post, 1, CHR ''R'', Propfind), (Put, 2, CHR ''R'', Purge),
      (Connect, 1, CHR ''H'', Checkout), (Connect, 2, CHR ''P'', Copy), (MkCol, 1, CHR ''O'', Move),
      (MkCol, 1, CHR ''E'', Merge), (MkCol, 1, CHR ''-'', MSearch), (MkCol, 2, CHR ''A'', MkActivity),
      (MkCol, 3, CHR ''A'', MkCalendar), (Subscribe, 1, CHR ''E'', Search), (Subscribe, 1, CHR ''O'', Source),
      (Report, 2, CHR ''B'', Rebind), (Propfind, 4, CHR ''P'', Proppatch), (Lock, 1, CHR ''I'', Link),
      (Unlock, 2, CHR ''S'', Unsubscribe), (Unlock, 2, CHR ''B'', Unbind), (Unlock, 3, CHR ''I'', Unlink)]"

text \<open>The parser after one character of the method, \<open>None\<close> for an invalid one.\<close>

definition method_char :: "char \<Rightarrow> http_parser \<Rightarrow> http_parser option" where
  "method_char ch P =
     (let matcher = method_name (hp_method P)
      in if ch = CHR 0x00 then None
         else if ch = CHR '' '' \<and> c_at matcher (hp_index P) = CHR 0x00 then Some (P\<lparr>hp_state := S_req_spaces_before_url\<rparr>)
         else if ch = c_at matcher (hp_index P) then Some P
         else if 65 \<le> char_code ch \<and> char_code ch \<le> 90 \<or> ch = CHR ''-'' then
           (case find (\<lambda>(m, i, x, _). m = hp_method P \<and> i = hp_index P \<and> x = ch) method_switch of
              None \<Rightarrow> None | Some (_, _, _, m) \<Rightarrow> Some (P\<lparr>hp_method := m\<rparr>))
         else None)"

definition do_req_method :: "'s callbacks \<Rightarrow> char \<Rightarrow> 's cfg \<Rightarrow> 's outcome" where
  "do_req_method cb ch c =
     (case method_char ch (pr c) of
        None \<Rightarrow> error CHPE_INVALID_METHOD c
      | Some P \<Rightarrow>
          notify cb On_method (pos c) (c\<lparr>pr := P\<rparr>)
            (\<lambda>c. Advance (c\<lparr>pr := (pr c)\<lparr>hp_index := (hp_index (pr c) + 1) mod 32\<rparr>\<rparr>)))"

text \<open>
  One character of the URL.  \<open>qs_point\<close> is the distance from \<open>url_start_mark\<close>, a local of the call: when
  the URL began in an earlier buffer it is null, and the distance is the address of the character
  (\<open>base\<close> is that of the buffer).
\<close>

definition url_char :: "nat \<Rightarrow> pstate \<Rightarrow> char \<Rightarrow> 's cfg \<Rightarrow> 's outcome" where
  "url_char base s ch c =
     (case parse_url_char s ch of
        (s', query) \<Rightarrow>
          (let point = (case url_start_mark c of Some m \<Rightarrow> pos c - m | None \<Rightarrow> base + pos c);
               c = c\<lparr>pr := (pr c)\<lparr>hp_state := s', hp_qs_point := (if query then point else hp_qs_point (pr c))\<rparr>\<rparr>
           in if s' = S_dead then error CHPE_INVALID_URL c else Advance c))"

definition do_spaces_before_url :: "nat \<Rightarrow> char \<Rightarrow> 's cfg \<Rightarrow> 's outcome" where
  "do_spaces_before_url base ch c =
     (if ch = CHR '' '' then Advance c
      else let c = c\<lparr>url_mark := mark_at (pos c) (url_mark c), url_start_mark := mark_at (pos c) (url_start_mark c)\<rparr>;
               s = (if hp_method (pr c) = Connect then S_req_server_start else S_req_spaces_before_url)
           in url_char base s ch c)"

definition do_url_no_space :: "nat \<Rightarrow> char \<Rightarrow> 's cfg \<Rightarrow> 's outcome" where
  "do_url_no_space base ch c =
     (if ch = CHR '' '' \<or> ch = CHR 0x0D \<or> ch = CHR 0x0A then error CHPE_INVALID_URL c
      else url_char base (hp_state (pr c)) ch c)"

definition do_url :: "'s callbacks \<Rightarrow> nat \<Rightarrow> string \<Rightarrow> char \<Rightarrow> 's cfg \<Rightarrow> 's outcome" where
  "do_url cb base data ch c =
     (if ch = CHR '' '' then
        data_callback cb On_url (url_mark c) data (pos c) (pos c + 1) (set_state S_req_http_start c)
          (\<lambda>c. Advance (c\<lparr>url_mark := None\<rparr>))
      else if ch = CHR 0x0D \<or> ch = CHR 0x0A then
        (if hp_method (pr c) \<noteq> Get then error CHPE_INVALID_VERSION (set_state S_dead c)
         else data_callback cb On_url (url_mark c) data (pos c) (pos c + 1)
                (c\<lparr>pr := (pr c)\<lparr>hp_major := 0, hp_minor := 9,
                    hp_state := (if ch = CHR 0x0D then S_req_line_almost_done else S_header_field_start)\<rparr>\<rparr>)
                (\<lambda>c. Advance (c\<lparr>url_mark := None\<rparr>)))
      else url_char base (hp_state (pr c)) ch c)"

definition digit_val :: "char \<Rightarrow> nat" where
  "digit_val ch = char_code ch - 48"

definition do_version :: "char \<Rightarrow> 's cfg \<Rightarrow> 's outcome" where
  "do_version ch c =
     (case hp_state (pr c) of
        S_req_http_start \<Rightarrow>
          if ch = CHR '' '' then Advance c
          else if ch = CHR ''H'' then Advance (set_state S_req_http_H c)
          else if ch = CHR ''I'' \<and> hp_method (pr c) = Source then Advance (set_state S_req_http_I c)
          else error CHPE_INVALID_CONSTANT c
      | S_req_http_H \<Rightarrow> strict_check (ch \<noteq> CHR ''T'') c (Advance (set_state S_req_http_HT c))
      | S_req_http_HT \<Rightarrow> strict_check (ch \<noteq> CHR ''T'') c (Advance (set_state S_req_http_HTT c))
      | S_req_http_HTT \<Rightarrow> strict_check (ch \<noteq> CHR ''P'') c (Advance (set_state S_req_http_HTTP c))
      | S_req_http_I \<Rightarrow> strict_check (ch \<noteq> CHR ''C'') c (Advance (set_state S_req_http_IC c))
      | S_req_http_IC \<Rightarrow> strict_check (ch \<noteq> CHR ''E'') c (Advance (set_state S_req_http_HTTP c))
      | S_req_http_HTTP \<Rightarrow> strict_check (ch \<noteq> CHR ''/'') c (Advance (set_state S_req_http_major c))
      | S_req_http_major \<Rightarrow>
          if \<not> isdigit ch then error CHPE_INVALID_VERSION c
          else Advance (c\<lparr>pr := (pr c)\<lparr>hp_major := digit_val ch, hp_state := S_req_http_dot\<rparr>\<rparr>)
      | S_req_http_dot \<Rightarrow>
          if ch \<noteq> CHR ''.'' then error CHPE_INVALID_VERSION c else Advance (set_state S_req_http_minor c)
      | S_req_http_minor \<Rightarrow>
          if \<not> isdigit ch then error CHPE_INVALID_VERSION c
          else Advance (c\<lparr>pr := (pr c)\<lparr>hp_minor := digit_val ch, hp_state := S_req_http_end\<rparr>\<rparr>)
      | S_req_http_end \<Rightarrow>
          if ch = CHR 0x0D then Advance (set_state S_req_line_almost_done c)
          else if ch = CHR 0x0A then Advance (set_state S_header_field_start c)
          else error CHPE_INVALID_VERSION c
      | _ \<Rightarrow>
          if ch \<noteq> CHR 0x0A then error CHPE_LF_EXPECTED c else Advance (set_state S_header_field_start c))"

section \<open>Header names\<close>

definition do_header_field_start :: "char \<Rightarrow> 's cfg \<Rightarrow> 's outcome" where
  "do_header_field_start ch c =
     (if ch = CHR 0x0D then Advance (set_state S_headers_almost_done c)
      else if ch = CHR 0x0A then Reexecute ch (set_state S_headers_almost_done c)
      else let k = token ch
           in if k = CHR 0x00 then error CHPE_INVALID_HEADER_TOKEN c
              else Advance (c\<lparr>field_mark := mark_at (pos c) (field_mark c),
                     pr := (pr c)\<lparr>hp_index := 0, hp_state := S_header_field,
                       hp_header_state :=
                         (if k = CHR ''c'' then H_C
                          else if k = CHR ''p'' then H_matching_proxy_connection
                          else if k = CHR ''t'' then H_matching_transfer_encoding
                          else if k = CHR ''u'' then H_matching_upgrade
                          else H_general)\<rparr>\<rparr>))"

text \<open>One more character against a fixed name: to \<open>ok\<close> at its last character, to \<open>bad\<close> when it differs.\<close>

definition match_name :: "string \<Rightarrow> header_state \<Rightarrow> header_state \<Rightarrow> char \<Rightarrow> http_parser \<Rightarrow> http_parser" where
  "match_name name ok bad k P =
     (let i = (hp_index P + 1) mod 32; P = P\<lparr>hp_index := i\<rparr>
      in if length name < i \<or> k \<noteq> c_at name i then P\<lparr>hp_header_state := bad\<rparr>
         else if i = length name - 1 then P\<lparr>hp_header_state := ok\<rparr>
         else P)"

definition bump_index :: "header_state \<Rightarrow> http_parser \<Rightarrow> http_parser" where
  "bump_index h P = P\<lparr>hp_index := (hp_index P + 1) mod 32, hp_header_state := h\<rparr>"

text \<open>The switch in \<open>s_header_field\<close>, on a character \<open>ch\<close> whose token is \<open>k\<close>.\<close>

definition field_char :: "char \<Rightarrow> http_parser \<Rightarrow> http_parser" where
  "field_char ch P =
     (let k = token ch
      in case hp_header_state P of
           H_general \<Rightarrow> P
         | H_C \<Rightarrow> bump_index (if k = CHR ''o'' then H_CO else H_general) P
         | H_CO \<Rightarrow> bump_index (if k = CHR ''n'' then H_CON else H_general) P
         | H_CON \<Rightarrow>
             bump_index (if k = CHR ''n'' then H_matching_connection
                         else if k = CHR ''t'' then H_matching_content_length else H_general) P
         | H_matching_connection \<Rightarrow> match_name ''connection'' H_connection H_general k P
         | H_matching_proxy_connection \<Rightarrow> match_name ''proxy-connection'' H_connection H_general k P
         | H_matching_content_length \<Rightarrow> match_name ''content-length'' H_content_length H_general k P
         | H_matching_transfer_encoding \<Rightarrow>
             (let P = match_name ''transfer-encoding'' H_transfer_encoding H_general k P
              in if hp_header_state P = H_transfer_encoding then P\<lparr>hp_uses_te := True\<rparr> else P)
         | H_matching_upgrade \<Rightarrow> match_name ''upgrade'' H_upgrade H_general k P
         | h \<Rightarrow> if h \<in> {H_connection, H_content_length, H_transfer_encoding, H_upgrade} \<and> ch \<noteq> CHR '' ''
                then P\<lparr>hp_header_state := H_general\<rparr> else P)"

text \<open>The loop over the token characters: the parser after them and their number.\<close>

fun field_loop :: "string \<Rightarrow> http_parser \<Rightarrow> http_parser \<times> nat" where
  "field_loop [] P = (P, 0)"
| "field_loop (ch # s) P =
     (if token ch = CHR 0x00 then (P, 0)
      else case field_loop s (field_char ch P) of (P, n) \<Rightarrow> (P, Suc n))"

definition do_header_field :: "'s callbacks \<Rightarrow> string \<Rightarrow> 's cfg \<Rightarrow> 's outcome" where
  "do_header_field cb data c =
     (case field_loop (drop (pos c) data) (pr c) of
        (P, n) \<Rightarrow>
          (let c = c\<lparr>pr := P, pos := pos c + n\<rparr>
           in if pos c = length data then
                count_header (n - 1) (c\<lparr>pos := pos c - 1\<rparr>) Advance
              else count_header n c (\<lambda>c.
                if data ! pos c = CHR '':'' then
                  data_callback cb On_header_field (field_mark c) data (pos c) (pos c + 1)
                    (set_state S_header_value_discard_ws c) (\<lambda>c. Advance (c\<lparr>field_mark := None\<rparr>))
                else error CHPE_INVALID_HEADER_TOKEN c)))"

section \<open>Header values\<close>

text \<open>
  The first character of a value; an error carries the parser it leaves.  The connection does not
  upgrade to HTTP/2: the flag is not set when the value starts with \<open>h2\<close>.
\<close>

definition value_start_char :: "string \<Rightarrow> nat \<Rightarrow> char \<Rightarrow> http_parser \<Rightarrow> http_errno + http_parser" where
  "value_start_char data p ch P =
     (let k = lower_or ch
      in case hp_header_state P of
           H_upgrade \<Rightarrow>
             Inr (P\<lparr>f_upgrade := (f_upgrade P \<or> ch \<noteq> CHR ''h'' \<or> p + 1 = length data \<or> data ! (p + 1) \<noteq> CHR ''2''),
                    hp_header_state := H_general\<rparr>)
         | H_transfer_encoding \<Rightarrow>
             Inr (P\<lparr>hp_header_state := (if k = CHR ''c'' then H_matching_transfer_encoding_chunked
                                        else H_matching_transfer_encoding_token)\<rparr>)
         | H_matching_transfer_encoding_token_start \<Rightarrow> Inr P
         | H_content_length \<Rightarrow>
             if \<not> isdigit ch then Inl CHPE_INVALID_CONTENT_LENGTH
             else if f_contentlength P then Inl CHPE_UNEXPECTED_CONTENT_LENGTH
             else Inr (P\<lparr>f_contentlength := True, hp_content_length := word_of_nat (digit_val ch),
                        hp_header_state := H_content_length_num\<rparr>)
         | H_content_length_ws \<Rightarrow> Inr P
         | H_connection \<Rightarrow>
             Inr (P\<lparr>hp_header_state :=
                     (if k = CHR ''k'' then H_matching_connection_keep_alive
                      else if k = CHR ''c'' then H_matching_connection_close
                      else if k = CHR '' '' \<or> k = CHR 0x09 then H_connection
                      else H_general)\<rparr>)
         | _ \<Rightarrow> Inr (P\<lparr>hp_header_state := H_general\<rparr>))"

definition do_header_value_start :: "string \<Rightarrow> char \<Rightarrow> 's cfg \<Rightarrow> 's outcome" where
  "do_header_value_start data ch c =
     (let c = c\<lparr>value_mark := mark_at (pos c) (value_mark c),
                pr := (pr c)\<lparr>hp_state := S_header_value, hp_index := 0\<rparr>\<rparr>
      in case value_start_char data (pos c) ch (pr c) of
           Inl e \<Rightarrow> error e c
         | Inr P \<Rightarrow> Advance (c\<lparr>pr := P\<rparr>))"

definition do_discard_ws :: "string \<Rightarrow> char \<Rightarrow> 's cfg \<Rightarrow> 's outcome" where
  "do_discard_ws data ch c =
     (if ch = CHR '' '' \<or> ch = CHR 0x09 then Advance c
      else if ch = CHR 0x0D then Advance (set_state S_header_value_discard_ws_almost_done c)
      else if ch = CHR 0x0A then Advance (set_state S_header_value_discard_lws c)
      else do_header_value_start data ch c)"

text \<open>One digit of a Content-Length, in 64 bits with the code's conservative limit.\<close>

definition length_digit :: "char \<Rightarrow> http_parser \<Rightarrow> http_errno + http_parser" where
  "length_digit ch P =
     (let t = hp_content_length P * 10 + word_of_nat (digit_val ch)
      in if (ullong_max - 10) div 10 < hp_content_length P then Inl CHPE_INVALID_CONTENT_LENGTH
         else Inr (P\<lparr>hp_content_length := t\<rparr>))"

text \<open>
  The switch in \<open>s_header_value\<close> on a character that is not a line end.  The loop keeps the header state
  in a local variable; it is the parser's field here, and \<open>Inl\<close> says whether the error stores it.
\<close>

definition value_char :: "char \<Rightarrow> http_parser \<Rightarrow> http_errno + http_parser" where
  "value_char ch P =
     (let k = lower_or ch; go = (\<lambda>h. Inr (P\<lparr>hp_header_state := h\<rparr>))
      in case hp_header_state P of
           H_general \<Rightarrow> Inr P
         | H_connection \<Rightarrow> Inr P
         | H_transfer_encoding \<Rightarrow> Inr P
         | H_content_length_ws \<Rightarrow> if ch = CHR '' '' then Inr P else Inl CHPE_INVALID_CONTENT_LENGTH
         | H_matching_transfer_encoding_token_start \<Rightarrow>
             if k = CHR ''c'' then go H_matching_transfer_encoding_chunked
             else if token k \<noteq> CHR 0x00 then go H_matching_transfer_encoding_token
             else if k = CHR '' '' \<or> k = CHR 0x09 then Inr P
             else go H_general
         | H_matching_transfer_encoding_chunked \<Rightarrow>
             Inr (match_name ''chunked'' H_transfer_encoding_chunked H_matching_transfer_encoding_token k P)
         | H_matching_transfer_encoding_token \<Rightarrow>
             if ch = CHR '','' then Inr (P\<lparr>hp_header_state := H_matching_transfer_encoding_token_start, hp_index := 0\<rparr>)
             else Inr P
         | H_matching_connection_keep_alive \<Rightarrow>
             Inr (match_name ''keep-alive'' H_connection_keep_alive H_general k P)
         | H_matching_connection_close \<Rightarrow> Inr (match_name ''close'' H_connection_close H_general k P)
         | H_transfer_encoding_chunked \<Rightarrow>
             if ch \<noteq> CHR '' '' then go H_matching_transfer_encoding_token else Inr P
         | h \<Rightarrow>
             if h = H_content_length \<and> ch = CHR '' '' then Inr P
             else if h = H_content_length \<or> h = H_content_length_num then
               (let P = P\<lparr>hp_header_state := H_content_length_num\<rparr>
                in if ch = CHR '' '' then Inr (P\<lparr>hp_header_state := H_content_length_ws\<rparr>)
                   else if \<not> isdigit ch then Inl CHPE_INVALID_CONTENT_LENGTH
                   else length_digit ch P)
             else if h = H_connection_keep_alive \<or> h = H_connection_close then
               (if ch \<noteq> CHR '' '' then go H_general else Inr P)
             else go H_general)"

datatype value_exit = Value_end | Value_cr | Value_lf | Value_error http_errno

fun value_loop :: "string \<Rightarrow> http_parser \<Rightarrow> value_exit \<times> http_parser \<times> nat" where
  "value_loop [] P = (Value_end, P, 0)"
| "value_loop (ch # s) P =
     (if ch = CHR 0x0D then (Value_cr, P, 0)
      else if ch = CHR 0x0A then (Value_lf, P, 0)
      else if \<not> hp_lenient P \<and> \<not> is_header_char ch then (Value_error CHPE_INVALID_HEADER_TOKEN, P, 0)
      else case value_char ch P of
             Inl e \<Rightarrow> (Value_error e, P, 0)
           | Inr P \<Rightarrow> (case value_loop s P of (x, P, n) \<Rightarrow> (x, P, Suc n)))"

definition do_header_value :: "'s callbacks \<Rightarrow> string \<Rightarrow> 's cfg \<Rightarrow> 's outcome" where
  "do_header_value cb data c =
     (case value_loop (drop (pos c) data) (pr c) of
        (x, P, n) \<Rightarrow>
          (let c = c\<lparr>pr := P, pos := pos c + n\<rparr>
           in case x of
                Value_cr \<Rightarrow>
                  data_callback cb On_header_value (value_mark c) data (pos c) (pos c + 1)
                    (set_state S_header_almost_done c)
                    (\<lambda>c. count_header n (set_header_state (hp_header_state P) (c\<lparr>value_mark := None\<rparr>)) Advance)
              | Value_lf \<Rightarrow>
                  count_header n (set_state S_header_almost_done c) (\<lambda>c.
                    data_callback cb On_header_value (value_mark c) data (pos c) (pos c) c
                      (\<lambda>c. Reexecute (CHR 0x0A) (c\<lparr>value_mark := None\<rparr>)))
              | Value_end \<Rightarrow> count_header (n - 1) (c\<lparr>pos := pos c - 1\<rparr>) Advance
              | Value_error e \<Rightarrow> error e c))"

definition do_header_almost_done :: "char \<Rightarrow> 's cfg \<Rightarrow> 's outcome" where
  "do_header_almost_done ch c =
     (if ch \<noteq> CHR 0x0A then error CHPE_LF_EXPECTED c else Advance (set_state S_header_value_lws c))"

definition finish_header :: "http_parser \<Rightarrow> http_parser" where
  "finish_header P =
     (case hp_header_state P of
        H_connection_keep_alive \<Rightarrow> P\<lparr>f_keep_alive := True\<rparr>
      | H_connection_close \<Rightarrow> P\<lparr>f_close := True\<rparr>
      | H_transfer_encoding_chunked \<Rightarrow> P\<lparr>f_chunked := True\<rparr>
      | _ \<Rightarrow> P)"

definition do_header_value_lws :: "char \<Rightarrow> 's cfg \<Rightarrow> 's outcome" where
  "do_header_value_lws ch c =
     (if ch = CHR '' '' \<or> ch = CHR 0x09 then
        (let c = (if hp_header_state (pr c) = H_content_length_num then set_header_state H_content_length_ws c else c)
         in Reexecute ch (set_state S_header_value_start c))
      else Reexecute ch (set_state S_header_field_start (c\<lparr>pr := finish_header (pr c)\<rparr>)))"

text \<open>A value that is empty up to a line end: folded, or really empty.\<close>

definition do_discard_lws :: "'s callbacks \<Rightarrow> string \<Rightarrow> char \<Rightarrow> 's cfg \<Rightarrow> 's outcome" where
  "do_discard_lws cb data ch c =
     (if ch = CHR '' '' \<or> ch = CHR 0x09 then Advance (set_state S_header_value_discard_ws c)
      else let c = set_state S_header_field_start (c\<lparr>value_mark := mark_at (pos c) (value_mark c)\<rparr>)
           in data_callback cb On_header_value (value_mark c) data (pos c) (pos c) c
                (\<lambda>c. Reexecute ch (c\<lparr>value_mark := None\<rparr>)))"

section \<open>End of the headers\<close>

definition do_headers_almost_done :: "'s callbacks \<Rightarrow> char \<Rightarrow> 's cfg \<Rightarrow> 's outcome" where
  "do_headers_almost_done cb ch c =
     strict_check (ch \<noteq> CHR 0x0A) c
       (let P = pr c
        in if f_trailing P then notify cb On_message_complete (pos c + 1) c Advance
           else if hp_uses_te P \<and> f_contentlength P \<and>
               (if f_chunked P then \<not> hp_allow_chunked_length P else \<not> hp_lenient P)
           then error CHPE_UNEXPECTED_CONTENT_LENGTH c
           else (let c = c\<lparr>pr := P\<lparr>hp_state := S_headers_done, hp_upgrade := (f_upgrade P \<or> hp_method P = Connect)\<rparr>\<rparr>
                 in case cb On_headers_complete (pr c) (app c) of
                      (s, e) \<Rightarrow>
                        (let P = apply_effect e (pr c)
                         in if hp_errno P \<noteq> CHPE_OK then Return (pos c) (P\<lparr>hp_nread := nread c\<rparr>) s
                            else Reexecute ch (c\<lparr>pr := P, app := s\<rparr>))))"

definition do_headers_done :: "'s callbacks \<Rightarrow> char \<Rightarrow> 's cfg \<Rightarrow> 's outcome" where
  "do_headers_done cb ch c =
     strict_check (ch \<noteq> CHR 0x0A) c
       (let c = c\<lparr>nread := 0, pr := (pr c)\<lparr>hp_nread := 0\<rparr>\<rparr>; P = pr c
        in if hp_upgrade P then
             notify cb On_message_complete (pos c + 1) c
               (\<lambda>c. Return (pos c + 1) ((pr c)\<lparr>hp_nread := nread c\<rparr>) (app c))
           else if f_skipbody P then notify cb On_message_complete (pos c + 1) c Advance
           else if f_chunked P then Advance (set_state S_chunk_size_start c)
           else if hp_uses_te P then
             (if \<not> hp_lenient P then error CHPE_INVALID_TRANSFER_ENCODING c
              else Advance (set_state S_body_identity_eof c))
           else if hp_content_length P = 0 then notify cb On_message_complete (pos c + 1) c Advance
           else if hp_content_length P \<noteq> ullong_max then Advance (set_state S_body_identity c)
           else notify cb On_message_complete (pos c + 1) c Advance)"

section \<open>Bodies\<close>

definition to_read :: "string \<Rightarrow> 's cfg \<Rightarrow> nat" where
  "to_read data c = min (unat (hp_content_length (pr c))) (length data - pos c)"

definition do_body_identity :: "'s callbacks \<Rightarrow> string \<Rightarrow> char \<Rightarrow> 's cfg \<Rightarrow> 's outcome" where
  "do_body_identity cb data ch c =
     (let n = to_read data c;
          c = c\<lparr>body_mark := mark_at (pos c) (body_mark c), pos := pos c + n - 1,
                pr := (pr c)\<lparr>hp_content_length := hp_content_length (pr c) - word_of_nat n\<rparr>\<rparr>
      in if hp_content_length (pr c) = 0 then
           data_callback cb On_body (body_mark c) data (pos c + 1) (pos c) (set_state S_message_done c)
             (\<lambda>c. Reexecute ch (c\<lparr>body_mark := None\<rparr>))
         else Advance c)"

definition do_body_identity_eof :: "string \<Rightarrow> 's cfg \<Rightarrow> 's outcome" where
  "do_body_identity_eof data c =
     Advance (c\<lparr>body_mark := mark_at (pos c) (body_mark c), pos := length data - 1\<rparr>)"

definition do_chunk_size_start :: "char \<Rightarrow> 's cfg \<Rightarrow> 's outcome" where
  "do_chunk_size_start ch c =
     (if unhex ch = - 1 then error CHPE_INVALID_CHUNK_SIZE c
      else Advance (c\<lparr>pr := (pr c)\<lparr>hp_content_length := word_of_int (unhex ch), hp_state := S_chunk_size\<rparr>\<rparr>))"

definition do_chunk_size :: "char \<Rightarrow> 's cfg \<Rightarrow> 's outcome" where
  "do_chunk_size ch c =
     (if ch = CHR 0x0D then Advance (set_state S_chunk_size_almost_done c)
      else if unhex ch = - 1 then
        (if ch = CHR '';'' \<or> ch = CHR '' '' then Advance (set_state S_chunk_parameters c)
         else error CHPE_INVALID_CHUNK_SIZE c)
      else let t = hp_content_length (pr c) * 16 + word_of_int (unhex ch)
           in if (ullong_max - 16) div 16 < hp_content_length (pr c) then error CHPE_INVALID_CONTENT_LENGTH c
              else Advance (c\<lparr>pr := (pr c)\<lparr>hp_content_length := t\<rparr>\<rparr>))"

definition do_chunk_size_almost_done :: "char \<Rightarrow> 's cfg \<Rightarrow> 's outcome" where
  "do_chunk_size_almost_done ch c =
     strict_check (ch \<noteq> CHR 0x0A) c
       (let c = c\<lparr>nread := 0, pr := (pr c)\<lparr>hp_nread := 0\<rparr>\<rparr>
        in if hp_content_length (pr c) = 0
           then Advance (c\<lparr>pr := (pr c)\<lparr>f_trailing := True, hp_state := S_header_field_start\<rparr>\<rparr>)
           else Advance (set_state S_chunk_data c))"

definition do_chunk_data :: "string \<Rightarrow> 's cfg \<Rightarrow> 's outcome" where
  "do_chunk_data data c =
     (let n = to_read data c;
          c = c\<lparr>body_mark := mark_at (pos c) (body_mark c), pos := pos c + n - 1,
                pr := (pr c)\<lparr>hp_content_length := hp_content_length (pr c) - word_of_nat n\<rparr>\<rparr>
      in Advance (if hp_content_length (pr c) = 0 then set_state S_chunk_data_almost_done c else c))"

definition do_chunk_data_almost_done :: "'s callbacks \<Rightarrow> string \<Rightarrow> char \<Rightarrow> 's cfg \<Rightarrow> 's outcome" where
  "do_chunk_data_almost_done cb data ch c =
     strict_check (ch \<noteq> CHR 0x0D) c
       (data_callback cb On_body (body_mark c) data (pos c) (pos c + 1) (set_state S_chunk_data_done c)
          (\<lambda>c. Advance (c\<lparr>body_mark := None\<rparr>)))"

definition do_chunk_data_done :: "char \<Rightarrow> 's cfg \<Rightarrow> 's outcome" where
  "do_chunk_data_done ch c =
     strict_check (ch \<noteq> CHR 0x0A) c
       (Advance (set_state S_chunk_size_start (c\<lparr>nread := 0, pr := (pr c)\<lparr>hp_nread := 0\<rparr>\<rparr>)))"


section \<open>The loop over the bytes\<close>

text \<open>The switch over the parser's state.\<close>

definition exec_state :: "'s callbacks \<Rightarrow> nat \<Rightarrow> string \<Rightarrow> char \<Rightarrow> 's cfg \<Rightarrow> 's outcome" where
  "exec_state cb base data ch c =
     (case hp_state (pr c) of
        S_dead \<Rightarrow> if ch = CHR 0x0D \<or> ch = CHR 0x0A then Advance c else error CHPE_CLOSED_CONNECTION c
      | S_start_req \<Rightarrow> do_start_req cb ch c
      | S_req_method \<Rightarrow> do_req_method cb ch c
      | S_req_spaces_before_url \<Rightarrow> do_spaces_before_url base ch c
      | S_req_schema \<Rightarrow> do_url_no_space base ch c
      | S_req_schema_slash \<Rightarrow> do_url_no_space base ch c
      | S_req_schema_slash_slash \<Rightarrow> do_url_no_space base ch c
      | S_req_server_start \<Rightarrow> do_url_no_space base ch c
      | S_req_server \<Rightarrow> do_url cb base data ch c
      | S_req_server_with_at \<Rightarrow> do_url cb base data ch c
      | S_req_path \<Rightarrow> do_url cb base data ch c
      | S_req_query_string_start \<Rightarrow> do_url cb base data ch c
      | S_req_query_string \<Rightarrow> do_url cb base data ch c
      | S_header_field_start \<Rightarrow> do_header_field_start ch c
      | S_header_field \<Rightarrow> do_header_field cb data c
      | S_header_value_discard_ws \<Rightarrow> do_discard_ws data ch c
      | S_header_value_discard_ws_almost_done \<Rightarrow>
          strict_check (ch \<noteq> CHR 0x0A) c (Advance (set_state S_header_value_discard_lws c))
      | S_header_value_discard_lws \<Rightarrow> do_discard_lws cb data ch c
      | S_header_value_start \<Rightarrow> do_header_value_start data ch c
      | S_header_value \<Rightarrow> do_header_value cb data c
      | S_header_value_lws \<Rightarrow> do_header_value_lws ch c
      | S_header_almost_done \<Rightarrow> do_header_almost_done ch c
      | S_chunk_size_start \<Rightarrow> do_chunk_size_start ch c
      | S_chunk_size \<Rightarrow> do_chunk_size ch c
      | S_chunk_parameters \<Rightarrow> if ch = CHR 0x0D then Advance (set_state S_chunk_size_almost_done c) else Advance c
      | S_chunk_size_almost_done \<Rightarrow> do_chunk_size_almost_done ch c
      | S_headers_almost_done \<Rightarrow> do_headers_almost_done cb ch c
      | S_headers_done \<Rightarrow> do_headers_done cb ch c
      | S_chunk_data \<Rightarrow> do_chunk_data data c
      | S_chunk_data_almost_done \<Rightarrow> do_chunk_data_almost_done cb data ch c
      | S_chunk_data_done \<Rightarrow> do_chunk_data_done ch c
      | S_body_identity \<Rightarrow> do_body_identity cb data ch c
      | S_body_identity_eof \<Rightarrow> do_body_identity_eof data c
      | S_message_done \<Rightarrow> notify cb On_message_complete (pos c + 1) c Advance
      | _ \<Rightarrow> do_version ch c)"

text \<open>One turn of the loop: the byte is counted while the header is parsed.\<close>

definition next_byte :: "'s callbacks \<Rightarrow> nat \<Rightarrow> string \<Rightarrow> 's cfg \<Rightarrow> 's outcome" where
  "next_byte cb base data c =
     (let ch = data ! pos c
      in if parsing_header (hp_state (pr c)) then count_header 1 c (exec_state cb base data ch)
         else exec_state cb base data ch c)"

text \<open>After the last byte: the callbacks for what is still marked.\<close>

definition leftover :: "'s callbacks \<Rightarrow> string \<Rightarrow> 's cfg \<Rightarrow> 's outcome" where
  "leftover cb data c =
     data_callback cb On_header_field (field_mark c) data (pos c) (pos c) c (\<lambda>c.
     data_callback cb On_header_value (value_mark c) data (pos c) (pos c) c (\<lambda>c.
     data_callback cb On_url (url_mark c) data (pos c) (pos c) c (\<lambda>c.
     data_callback cb On_body (body_mark c) data (pos c) (pos c) c (\<lambda>c.
       Return (length data) ((pr c)\<lparr>hp_nread := nread c\<rparr>) (app c)))))"

text \<open>
  The loop itself.  It may in principle not end (\<open>p\<close> goes back by one when a body of length zero is
  read), so that it is an option; \<open>parser_returns\<close> below shows that it does end.
\<close>

partial_function (option) run ::
    "'s callbacks \<Rightarrow> nat \<Rightarrow> string \<Rightarrow> 's outcome \<Rightarrow> (nat \<times> http_parser \<times> 's) option" where
  [code]: "run cb base data x =
     (case x of
        Return n P s \<Rightarrow> Some (n, P, s)
      | Reexecute ch c \<Rightarrow> run cb base data (exec_state cb base data ch c)
      | Advance c \<Rightarrow>
          (let c = c\<lparr>pos := pos c + 1\<rparr>
           in run cb base data
                (if pos c = length data then leftover cb data c else next_byte cb base data c)))"

text \<open>The states in which a URL goes on from the previous buffer.\<close>

definition in_url :: "pstate \<Rightarrow> bool" where
  "in_url s \<longleftrightarrow> s \<in> {S_req_path, S_req_schema, S_req_schema_slash, S_req_schema_slash_slash,
     S_req_server_start, S_req_server, S_req_server_with_at, S_req_query_string_start, S_req_query_string}"

definition start_cfg :: "http_parser \<Rightarrow> 's \<Rightarrow> 's cfg" where
  "start_cfg P s =
     (let m = (\<lambda>b. if b then Some 0 else None)
      in \<lparr> pr = P, pos = 0, field_mark = m (hp_state P = S_header_field),
           value_mark = m (hp_state P = S_header_value), url_mark = m (in_url (hp_state P)),
           url_start_mark = None, body_mark = None, nread = hp_nread P, app = s \<rparr>)"

text \<open>\<open>http_parser_execute\<close>: how many bytes were parsed, and the parser and the application after them.\<close>

definition http_parser_execute ::
    "'s callbacks \<Rightarrow> nat \<Rightarrow> string \<Rightarrow> http_parser \<Rightarrow> 's \<Rightarrow> (nat \<times> http_parser \<times> 's) option" where
  "http_parser_execute cb base data P s =
     (if hp_errno P \<noteq> CHPE_OK then Some (0, P, s)
      else if data = [] then
        (case hp_state P of
           S_body_identity_eof \<Rightarrow>
             (case cb On_message_complete P s of (s, e) \<Rightarrow> Some (0, apply_effect e P, s))
         | S_dead \<Rightarrow> Some (0, P, s)
         | S_start_req \<Rightarrow> Some (0, P, s)
         | _ \<Rightarrow> Some (1, P\<lparr>hp_errno := CHPE_INVALID_EOF_STATE\<rparr>, s))
      else run cb base data (next_byte cb base data (start_cfg P s)))"

section \<open>The loop ends\<close>

text \<open>What holds of a parser between two bytes: a body being read has some bytes left.\<close>

definition parser_ok :: "http_parser \<Rightarrow> bool" where
  "parser_ok P \<longleftrightarrow> (hp_state P = S_body_identity \<or> hp_state P = S_chunk_data \<longrightarrow> hp_content_length P \<noteq> 0)"

text \<open>How many more states can run on the same byte.\<close>

definition rank :: "pstate \<Rightarrow> nat" where
  "rank s =
     (case s of S_header_value_lws \<Rightarrow> 3 | S_header_value_discard_lws \<Rightarrow> 3 | S_header_field_start \<Rightarrow> 2
      | S_headers_almost_done \<Rightarrow> 1 | S_header_value \<Rightarrow> 1 | S_body_identity \<Rightarrow> 1 | _ \<Rightarrow> 0)"

definition steady :: "nat \<Rightarrow> nat \<Rightarrow> nat \<Rightarrow> 's outcome \<Rightarrow> bool" where
  "steady len p r x \<longleftrightarrow>
     (case x of
        Return n P s \<Rightarrow> n \<le> len \<and> parser_ok P \<and> (hp_errno P = CHPE_OK \<longrightarrow> n = len \<or> hp_upgrade P)
      | Advance c \<Rightarrow> p \<le> pos c \<and> pos c < len \<and> parser_ok (pr c)
      | Reexecute ch c \<Rightarrow> p \<le> pos c \<and> pos c < len \<and> parser_ok (pr c) \<and> rank (hp_state (pr c)) < r)"

lemma steady_simps [simp]:
  "steady len p r (Return n P s) \<longleftrightarrow>
     n \<le> len \<and> parser_ok P \<and> (hp_errno P = CHPE_OK \<longrightarrow> n = len \<or> hp_upgrade P)"
  "steady len p r (Advance c) \<longleftrightarrow> p \<le> pos c \<and> pos c < len \<and> parser_ok (pr c)"
  "steady len p r (Reexecute ch c) \<longleftrightarrow> p \<le> pos c \<and> pos c < len \<and> parser_ok (pr c) \<and> rank (hp_state (pr c)) < r"
  by (simp_all add: steady_def)

lemma parser_ok_simps [simp]:
  "parser_ok (P\<lparr>hp_errno := e\<rparr>) = parser_ok P"
  "parser_ok (P\<lparr>hp_nread := n\<rparr>) = parser_ok P"
  "parser_ok (P\<lparr>hp_header_state := h\<rparr>) = parser_ok P"
  "parser_ok (P\<lparr>hp_index := n\<rparr>) = parser_ok P"
  "parser_ok (P\<lparr>f_keep_alive := b\<rparr>) = parser_ok P"
  "parser_ok (P\<lparr>f_close := b\<rparr>) = parser_ok P"
  "parser_ok (P\<lparr>f_chunked := b\<rparr>) = parser_ok P"
  "parser_ok (P\<lparr>f_upgrade := b\<rparr>) = parser_ok P"
  "parser_ok (P\<lparr>f_trailing := b\<rparr>) = parser_ok P"
  "parser_ok (P\<lparr>hp_method := m\<rparr>) = parser_ok P"
  "parser_ok (P\<lparr>hp_major := n\<rparr>) = parser_ok P"
  "parser_ok (P\<lparr>hp_minor := n\<rparr>) = parser_ok P"
  by (simp_all add: parser_ok_def)

lemma parser_ok_state [simp]:
  "parser_ok (P\<lparr>hp_state := s\<rparr>) \<longleftrightarrow> (s = S_body_identity \<or> s = S_chunk_data \<longrightarrow> hp_content_length P \<noteq> 0)"
  by (simp add: parser_ok_def)

lemma cfg_set_simps [simp]:
  "pos (set_state s c) = pos c" "nread (set_state s c) = nread c" "app (set_state s c) = app c"
  "pr (set_state s c) = (pr c)\<lparr>hp_state := s\<rparr>" "pr (set_header_state h c) = (pr c)\<lparr>hp_header_state := h\<rparr>"
  "pos (set_header_state h c) = pos c" "nread (set_header_state h c) = nread c" "app (set_header_state h c) = app c"
  "field_mark (set_state s c) = field_mark c" "value_mark (set_state s c) = value_mark c"
  "url_mark (set_state s c) = url_mark c" "body_mark (set_state s c) = body_mark c"
  "url_start_mark (set_state s c) = url_start_mark c"
  "field_mark (set_header_state h c) = field_mark c" "value_mark (set_header_state h c) = value_mark c"
  "url_mark (set_header_state h c) = url_mark c" "body_mark (set_header_state h c) = body_mark c"
  "url_start_mark (set_header_state h c) = url_start_mark c"
  by (simp_all add: set_state_def set_header_state_def)

lemma apply_effect_ok: "parser_ok P \<Longrightarrow> parser_ok (apply_effect e P)"
  by (cases e) (simp_all add: apply_effect_def parser_ok_def)

lemma apply_effect_rank: "rank (hp_state (apply_effect e P)) \<le> rank (hp_state P)"
  by (cases e) (simp_all add: apply_effect_def rank_def)

lemma apply_effect_upgrade [simp]: "hp_upgrade (apply_effect e P) = hp_upgrade P"
  by (cases e) (simp_all add: apply_effect_def)

lemma apply_effect_rank0: "hp_state P = S_headers_done \<Longrightarrow> rank (hp_state (apply_effect e P)) = 0"
  by (cases e) (simp_all add: apply_effect_def rank_def)

lemma steady_error: "e \<noteq> CHPE_OK \<Longrightarrow> pos c \<le> len \<Longrightarrow> parser_ok (pr c) \<Longrightarrow> steady len p r (error e c)"
  by (simp add: error_def)

lemma steady_notify:
  assumes "er \<le> len" "parser_ok (pr c)"
    and "\<And>P s. parser_ok P \<Longrightarrow> rank (hp_state P) \<le> rank (hp_state (pr c)) \<Longrightarrow>
      hp_upgrade P = hp_upgrade (pr c) \<Longrightarrow> steady len p r (k (c\<lparr>pr := P, app := s\<rparr>))"
  shows "steady len p r (notify cb ev er c k)"
  using assms apply_effect_ok[of "pr c"] apply_effect_rank[of _ "pr c"]
  by (simp add: notify_def Let_def split: prod.split)

lemma steady_data_callback:
  assumes "er \<le> len" "parser_ok (pr c)"
    and "\<And>P s. parser_ok P \<Longrightarrow> rank (hp_state P) \<le> rank (hp_state (pr c)) \<Longrightarrow>
      hp_upgrade P = hp_upgrade (pr c) \<Longrightarrow> steady len p r (k (c\<lparr>pr := P, app := s\<rparr>))"
  shows "steady len p r (data_callback cb ev m data stop er c k)"
proof (cases m)
  case None
  have "c\<lparr>pr := pr c, app := app c\<rparr> = c" by simp
  then show ?thesis using None assms(2) assms(3)[of "pr c" "app c"] by (simp add: data_callback_def)
next
  case (Some a)
  then show ?thesis using assms by (simp add: data_callback_def) (rule steady_notify)
qed

lemma steady_count_header:
  assumes "pos c \<le> len" "parser_ok (pr c)" "steady len p r (k (c\<lparr>nread := nread c + v\<rparr>))"
  shows "steady len p r (count_header v c k)"
  using assms by (simp add: count_header_def Let_def steady_error)

lemma steady_strict:
  "pos c \<le> len \<Longrightarrow> parser_ok (pr c) \<Longrightarrow> (\<not> bad \<Longrightarrow> steady len p r k) \<Longrightarrow> steady len p r (strict_check bad c k)"
  by (simp add: strict_check_def steady_error)


lemma parser_ok_other: "hp_state P \<noteq> S_body_identity \<Longrightarrow> hp_state P \<noteq> S_chunk_data \<Longrightarrow> parser_ok P"
  by (simp add: parser_ok_def)

lemma match_name_state [simp]: "hp_state (match_name name ok bad k P) = hp_state P"
  by (simp add: match_name_def Let_def)

lemma bump_index_state [simp]: "hp_state (bump_index h P) = hp_state P"
  by (simp add: bump_index_def)

lemma field_char_state [simp]: "hp_state (field_char ch P) = hp_state P"
  unfolding field_char_def Let_def by (cases "hp_header_state P") simp_all

lemma field_loop_facts:
  "field_loop s P = (P', n) \<Longrightarrow> hp_state P' = hp_state P \<and> n \<le> length s \<and> (n = length s \<longrightarrow> (\<forall>c \<in> set s. token c \<noteq> CHR 0x00))"
  by (induction s P arbitrary: P' n rule: field_loop.induct) (auto split: if_splits prod.splits)

lemma value_char_state: "value_char ch P = Inr P' \<Longrightarrow> hp_state P' = hp_state P"
  unfolding value_char_def Let_def
  by (cases "hp_header_state P") (auto simp: length_digit_def Let_def split: if_splits)

lemma value_char_error: "value_char ch P = Inl e \<Longrightarrow> e \<noteq> CHPE_OK"
  unfolding value_char_def Let_def
  by (cases "hp_header_state P") (auto simp: length_digit_def Let_def split: if_splits)

lemma value_loop_facts:
  "value_loop s P = (x, P', n) \<Longrightarrow> hp_state P' = hp_state P \<and> n \<le> length s \<and> (x = Value_end \<longleftrightarrow> n = length s)
     \<and> x \<noteq> Value_error CHPE_OK"
proof (induction s P arbitrary: x P' n rule: value_loop.induct)
  case (2 ch s P)
  show ?case
  proof (cases "ch = CHR 0x0D \<or> ch = CHR 0x0A \<or> \<not> hp_lenient P \<and> \<not> is_header_char ch \<or> (\<exists>e. value_char ch P = Inl e)")
    case True
    then show ?thesis using "2.prems" by (auto split: if_splits dest: value_char_error)
  next
    case False
    then obtain Q where Q: "value_char ch P = Inr Q" by (cases "value_char ch P") auto
    obtain x' P'' n' where w: "value_loop s Q = (x', P'', n')" by (metis prod_cases3)
    have "hp_state P'' = hp_state Q \<and> n' \<le> length s \<and> (x' = Value_end \<longleftrightarrow> n' = length s) \<and> x' \<noteq> Value_error CHPE_OK"
      using "2.IH"[OF _ _ _ Q w] False by blast
    moreover have "x = x' \<and> P' = P'' \<and> n = Suc n'" using "2.prems" False Q w by (auto split: if_splits)
    ultimately show ?thesis using value_char_state[OF Q] by simp
  qed
qed simp

lemma method_char_state: "method_char ch P = Some P' \<Longrightarrow> hp_state P' = hp_state P \<or> hp_state P' = S_req_spaces_before_url"
  unfolding method_char_def Let_def by (auto split: if_splits option.splits)

lemma parse_url_char_state:
  "parse_url_char s ch = (s', q) \<Longrightarrow> s' \<in> {S_dead, S_req_path, S_req_schema, S_req_schema_slash, S_req_schema_slash_slash,
     S_req_server_start, S_req_server, S_req_server_with_at, S_req_query_string_start, S_req_query_string}"
  by (cases s) (auto simp: parse_url_char_def split: if_splits)

lemma steady_url_char:
  "pos c < len \<Longrightarrow> p \<le> pos c \<Longrightarrow> steady len p r (url_char base s ch c)"
  unfolding url_char_def Let_def
  by (auto simp: error_def intro!: parser_ok_other split: prod.splits dest!: parse_url_char_state)


text \<open>Each state keeps to it; \<open>pos c < len\<close> is the position of the byte that is looked at.\<close>

lemma steady_start_req: "pos c < len \<Longrightarrow> parser_ok (pr c) \<Longrightarrow> hp_state (pr c) = S_start_req \<Longrightarrow> p \<le> pos c \<Longrightarrow>
    steady len p r (do_start_req cb ch c)"
  unfolding do_start_req_def Let_def
  by (auto intro!: steady_notify steady_error parser_ok_other split: option.splits)

lemma steady_req_method: "pos c < len \<Longrightarrow> hp_state (pr c) = S_req_method \<Longrightarrow> p \<le> pos c \<Longrightarrow>
    steady len p r (do_req_method cb ch c)"
  unfolding do_req_method_def
  by (auto intro!: steady_notify steady_error parser_ok_other split: option.splits dest!: method_char_state)

lemma steady_spaces: "pos c < len \<Longrightarrow> hp_state (pr c) = S_req_spaces_before_url \<Longrightarrow> p \<le> pos c \<Longrightarrow>
    steady len p r (do_spaces_before_url base ch c)"
  unfolding do_spaces_before_url_def Let_def
  by (auto intro!: steady_url_char parser_ok_other)

lemma steady_url_no_space: "pos c < len \<Longrightarrow> parser_ok (pr c) \<Longrightarrow> p \<le> pos c \<Longrightarrow>
    steady len p r (do_url_no_space base ch c)"
  unfolding do_url_no_space_def
  by (auto intro!: steady_url_char steady_error)

lemma steady_url: "pos c < len \<Longrightarrow> p \<le> pos c \<Longrightarrow> steady len p r (do_url cb base data ch c)"
  unfolding do_url_def
  by (auto intro!: steady_url_char steady_data_callback steady_error parser_ok_other)

lemma steady_version: "pos c < len \<Longrightarrow> parser_ok (pr c) \<Longrightarrow> p \<le> pos c \<Longrightarrow> steady len p r (do_version ch c)"
  unfolding do_version_def
  by (cases "hp_state (pr c)") (auto intro!: steady_strict steady_error parser_ok_other)

lemma steady_field_start: "pos c < len \<Longrightarrow> hp_state (pr c) = S_header_field_start \<Longrightarrow> p \<le> pos c \<Longrightarrow>
    steady len p 2 (do_header_field_start ch c)"
  unfolding do_header_field_start_def Let_def
  by (auto intro!: steady_error parser_ok_other simp: rank_def)

lemma steady_field: "pos c < length data \<Longrightarrow> hp_state (pr c) = S_header_field \<Longrightarrow> p \<le> pos c \<Longrightarrow>
    steady (length data) p r (do_header_field cb data c)"
  unfolding do_header_field_def Let_def
  by (auto intro!: steady_count_header steady_data_callback steady_error parser_ok_other split: prod.splits
       dest!: field_loop_facts)

lemma value_start_char_state: "value_start_char data q ch P = Inr P' \<Longrightarrow> hp_state P' = hp_state P"
  unfolding value_start_char_def Let_def
  by (cases "hp_header_state P") (auto split: if_splits)

lemma value_start_char_error: "value_start_char data q ch P = Inl e \<Longrightarrow> e \<noteq> CHPE_OK"
  unfolding value_start_char_def Let_def
  by (cases "hp_header_state P") (auto split: if_splits)

lemma steady_value_start: "pos c < len \<Longrightarrow> p \<le> pos c \<Longrightarrow> steady len p r (do_header_value_start data ch c)"
  unfolding do_header_value_start_def Let_def
  by (auto intro!: steady_error parser_ok_other split: sum.splits dest!: value_start_char_state value_start_char_error)

lemma steady_discard_ws: "pos c < len \<Longrightarrow> parser_ok (pr c) \<Longrightarrow> p \<le> pos c \<Longrightarrow>
    steady len p r (do_discard_ws data ch c)"
  unfolding do_discard_ws_def
  by (auto intro!: steady_value_start)

lemma steady_value: "pos c < length data \<Longrightarrow> hp_state (pr c) = S_header_value \<Longrightarrow> p \<le> pos c \<Longrightarrow>
    steady (length data) p 1 (do_header_value cb data c)"
  unfolding do_header_value_def Let_def
  by (auto intro!: steady_count_header steady_data_callback steady_error simp: rank_def parser_ok_other
       split: prod.splits value_exit.splits dest!: value_loop_facts)

lemma steady_almost_done: "pos c < len \<Longrightarrow> parser_ok (pr c) \<Longrightarrow> p \<le> pos c \<Longrightarrow>
    steady len p r (do_header_almost_done ch c)"
  unfolding do_header_almost_done_def by (auto intro!: steady_error)

lemma finish_header_ok [simp]: "parser_ok (finish_header P) = parser_ok P" "hp_state (finish_header P) = hp_state P"
  by (simp_all add: finish_header_def split: header_state.split)

lemma steady_value_lws: "pos c < len \<Longrightarrow> parser_ok (pr c) \<Longrightarrow> p \<le> pos c \<Longrightarrow>
    steady len p 3 (do_header_value_lws ch c)"
  unfolding do_header_value_lws_def Let_def by (auto simp: rank_def)

lemma steady_discard_lws: "pos c < length data \<Longrightarrow> parser_ok (pr c) \<Longrightarrow> p \<le> pos c \<Longrightarrow>
    steady (length data) p 3 (do_discard_lws cb data ch c)"
  unfolding do_discard_lws_def Let_def
  by (auto intro!: steady_data_callback simp: rank_def)

lemma steady_headers_almost_done:
  "pos c < len \<Longrightarrow> parser_ok (pr c) \<Longrightarrow> hp_state (pr c) = S_headers_almost_done \<Longrightarrow> p \<le> pos c \<Longrightarrow>
    steady len p 1 (do_headers_almost_done cb ch c)"
  unfolding do_headers_almost_done_def Let_def
  by (auto intro!: steady_strict steady_notify steady_error simp: apply_effect_ok apply_effect_rank0 parser_ok_other
       split: prod.split)

lemma steady_headers_done: "pos c < len \<Longrightarrow> hp_state (pr c) = S_headers_done \<Longrightarrow>
    p \<le> pos c \<Longrightarrow> steady len p r (do_headers_done cb ch c)"
  unfolding do_headers_done_def Let_def
  by (auto intro!: steady_strict steady_notify steady_error simp: parser_ok_other)

lemma to_read_bound: "to_read data c \<le> length data - pos c" "to_read data c \<le> unat (hp_content_length (pr c))"
  by (simp_all add: to_read_def)

lemma to_read_pos: "hp_content_length (pr c) \<noteq> 0 \<Longrightarrow> pos c < length data \<Longrightarrow> 0 < to_read data c"
  by (simp add: to_read_def unat_gt_0)

lemma steady_body: "pos c < length data \<Longrightarrow> parser_ok (pr c) \<Longrightarrow> hp_state (pr c) = S_body_identity \<Longrightarrow> p \<le> pos c \<Longrightarrow>
    steady (length data) p 1 (do_body_identity cb data ch c)"
  using to_read_pos[of c data] to_read_bound(1)[of data c]
  unfolding do_body_identity_def Let_def
  by (auto intro!: steady_data_callback simp: rank_def parser_ok_other parser_ok_def)

lemma steady_body_eof: "pos c < length data \<Longrightarrow> parser_ok (pr c) \<Longrightarrow> p \<le> pos c \<Longrightarrow>
    steady (length data) p r (do_body_identity_eof data c)"
  unfolding do_body_identity_eof_def by auto

lemma steady_chunk_size_start: "pos c < len \<Longrightarrow> parser_ok (pr c) \<Longrightarrow> p \<le> pos c \<Longrightarrow>
    steady len p r (do_chunk_size_start ch c)"
  unfolding do_chunk_size_start_def by (auto intro!: steady_error simp: parser_ok_other)

lemma steady_chunk_size: "pos c < len \<Longrightarrow> hp_state (pr c) = S_chunk_size \<Longrightarrow> p \<le> pos c \<Longrightarrow>
    steady len p r (do_chunk_size ch c)"
  unfolding do_chunk_size_def Let_def by (auto intro!: steady_error simp: parser_ok_other)

lemma steady_chunk_size_done: "pos c < len \<Longrightarrow> parser_ok (pr c) \<Longrightarrow> p \<le> pos c \<Longrightarrow>
    steady len p r (do_chunk_size_almost_done ch c)"
  unfolding do_chunk_size_almost_done_def Let_def by (auto intro!: steady_strict simp: parser_ok_other)

lemma steady_chunk_data: "pos c < length data \<Longrightarrow> parser_ok (pr c) \<Longrightarrow> hp_state (pr c) = S_chunk_data \<Longrightarrow> p \<le> pos c \<Longrightarrow>
    steady (length data) p r (do_chunk_data data c)"
  using to_read_pos[of c data] to_read_bound(1)[of data c]
  unfolding do_chunk_data_def Let_def by (auto simp: parser_ok_def)

lemma steady_chunk_data_almost_done: "pos c < length data \<Longrightarrow> parser_ok (pr c) \<Longrightarrow> p \<le> pos c \<Longrightarrow>
    steady (length data) p r (do_chunk_data_almost_done cb data ch c)"
  unfolding do_chunk_data_almost_done_def by (auto intro!: steady_strict steady_data_callback)

lemma steady_chunk_data_done: "pos c < len \<Longrightarrow> parser_ok (pr c) \<Longrightarrow> p \<le> pos c \<Longrightarrow>
    steady len p r (do_chunk_data_done ch c)"
  unfolding do_chunk_data_done_def by (auto intro!: steady_strict simp: parser_ok_other)

lemmas steady_states = steady_start_req steady_req_method steady_spaces steady_url_no_space steady_url
  steady_version steady_field_start steady_field steady_value_start steady_discard_ws steady_value
  steady_almost_done steady_value_lws steady_discard_lws steady_headers_almost_done steady_headers_done
  steady_body steady_body_eof steady_chunk_size_start steady_chunk_size steady_chunk_size_done
  steady_chunk_data steady_chunk_data_almost_done steady_chunk_data_done

lemma steady_exec: "pos c < length data \<Longrightarrow> parser_ok (pr c) \<Longrightarrow> p \<le> pos c \<Longrightarrow>
    steady (length data) p (rank (hp_state (pr c))) (exec_state cb base data ch c)"
  unfolding exec_state_def
  by (cases "hp_state (pr c)")
    (simp_all add: rank_def del: One_nat_def, auto intro!: steady_states steady_error steady_strict steady_notify
       simp: rank_def simp del: One_nat_def)


lemma steady_next: "pos c < length data \<Longrightarrow> parser_ok (pr c) \<Longrightarrow> p \<le> pos c \<Longrightarrow>
    steady (length data) p (rank (hp_state (pr c))) (next_byte cb base data c)"
  using steady_exec[of "c\<lparr>nread := nread c + 1\<rparr>" data p cb base "data ! pos c"] steady_exec[of c data p cb base "data ! pos c"]
  unfolding next_byte_def Let_def
  by (auto intro!: steady_count_header)

lemma steady_leftover: "pos c = length data \<Longrightarrow> parser_ok (pr c) \<Longrightarrow> steady (length data) p r (leftover cb data c)"
  unfolding leftover_def by (auto intro!: steady_data_callback)

text \<open>The loop returns, and keeps what its turns keep.\<close>

lemma run_returns_with:
  assumes "steady (length data) p r x" "Q x"
    and again: "\<And>ch c. Q (Reexecute ch c) \<Longrightarrow> Q (exec_state cb base data ch c)"
    and on: "\<And>c. Q (Advance c) \<Longrightarrow> Q (let c = c\<lparr>pos := pos c + 1\<rparr>
      in if pos c = length data then leftover cb data c else next_byte cb base data c)"
  shows "\<exists>n P s. run cb base data x = Some (n, P, s) \<and> steady (length data) 0 0 (Return n P s :: 's outcome)
    \<and> Q (Return n P s)"
proof -
  have "wf (inv_image (less_than <*lex*> less_than) (\<lambda>x :: 's outcome. case x of Return n P s \<Rightarrow> (0, 0)
      | Advance c \<Rightarrow> (Suc (length data - pos c), 0)
      | Reexecute ch c \<Rightarrow> (Suc (length data - pos c), Suc (rank (hp_state (pr c))))))" (is "wf ?R")
    by auto
  then show ?thesis
    using assms(1,2)
  proof (induction x arbitrary: p r rule: wf_induct_rule)
    case (less x)
    show ?case
    proof (cases x)
      case (Return n P s)
      then show ?thesis using less.prems by (subst run.simps) simp
    next
      case (Reexecute ch c)
      let ?y = "exec_state cb base data ch c"
      have y: "steady (length data) (pos c) (rank (hp_state (pr c))) ?y" "Q ?y"
        using less.prems Reexecute steady_exec[of c data "pos c"] again[of ch c] by simp_all
      then have "(?y, x) \<in> ?R"
        using Reexecute less.prems by (cases ?y) auto
      then show ?thesis using less.IH[of ?y] y Reexecute by (subst run.simps) simp
    next
      case (Advance c)
      let ?c = "c\<lparr>pos := pos c + 1\<rparr>"
      let ?y = "if pos ?c = length data then leftover cb data ?c else next_byte cb base data ?c"
      have y: "steady (length data) (pos c + 1) (rank (hp_state (pr c))) ?y" "Q ?y"
        using less.prems Advance steady_next[of ?c data "pos c + 1"] steady_leftover[of ?c data] on[of c]
        by (auto simp: Let_def)
      have "(?y, x) \<in> ?R"
        using y Advance less.prems by (cases ?y) auto
      moreover have "run cb base data x = run cb base data ?y"
        using Advance by (subst run.simps) (simp add: Let_def)
      ultimately show ?thesis using less.IH[OF _ y] by simp
    qed
  qed
qed

lemma run_returns:
  assumes "steady (length data) p r x"
  shows "\<exists>n P s. run cb base data x = Some (n, P, s) \<and> steady (length data) 0 0 (Return n P s :: 's outcome)"
  using run_returns_with[OF assms, of "\<lambda>_. True"] by simp

section \<open>Properties\<close>

text \<open>C6. A call of the parser on a buffer that is not empty, while no error is recorded, returns, whatever the callbacks do, and consumes no more bytes
  than the buffer holds; the parser it leaves can take the next buffer.  Unless an error is recorded
  or the connection changes its protocol, every byte of the buffer was consumed.\<close>

theorem parser_returns:
  assumes "parser_ok P" and "hp_errno P = CHPE_OK" and "data \<noteq> []"
  shows "\<exists>n P' s'. http_parser_execute cb base data P s = Some (n, P', s') \<and> n \<le> length data \<and> parser_ok P'
     \<and> (hp_errno P' = CHPE_OK \<longrightarrow> n = length data \<or> hp_upgrade P')"
proof -
  have "steady (length data) 0 (rank (hp_state P)) (next_byte cb base data (start_cfg P s))"
    using assms steady_next[of "start_cfg P s" data 0] by (simp add: start_cfg_def Let_def)
  from run_returns[OF this] show ?thesis using assms by (auto simp: http_parser_execute_def)
qed

theorem parser_returns_witness:
  "\<exists>n P' s'. http_parser_execute (\<lambda>ev P s. (s @ [ev], Unchanged)) 4096 ''GET /code HTTP'' http_parser_init [] = Some (n, P', s')
     \<and> n \<le> 14 \<and> parser_ok P' \<and> (hp_errno P' = CHPE_OK \<longrightarrow> n = 14 \<or> hp_upgrade P')"
proof -
  have "parser_ok http_parser_init" "hp_errno http_parser_init = CHPE_OK" "''GET /code HTTP'' \<noteq> []"
    and len: "length ''GET /code HTTP'' = 14"
    by (simp_all add: http_parser_init_def parser_ok_def)
  from parser_returns[OF this(1-3), unfolded len] show ?thesis .
qed

end
