(* ===== verification/ParserFields.thy ===== *)
theory ParserFields
  imports HttpParser
begin

text \<open>
  The fields of the parser fit their types (\<open>struct http_parser\<close> of crow/http_parser_merged.h): the index into a
  name its five bits, the version numbers a digit, and the counter of header bytes its limit.  So natural
  numbers stand for them faithfully.  The second part shows that the counter counts: in every state and on
  every path through \<open>http_parser_execute\<close>, each byte taken before the end of the headers adds one to it.
\<close>

section \<open>Fields in range\<close>

definition fields_ok :: "http_parser \<Rightarrow> bool" where
  "fields_ok P \<longleftrightarrow> hp_index P < 32 \<and> hp_major P \<le> 9 \<and> hp_minor P \<le> 9 \<and> hp_nread P \<le> max_header_size"

text \<open>After an error the counter may exceed the limit by the bytes of the buffer.\<close>

definition fields_left :: "nat \<Rightarrow> http_parser \<Rightarrow> bool" where
  "fields_left len P \<longleftrightarrow> hp_index P < 32 \<and> hp_major P \<le> 9 \<and> hp_minor P \<le> 9 \<and> hp_nread P \<le> max_header_size + len
     \<and> (hp_errno P = CHPE_OK \<longrightarrow> hp_nread P \<le> max_header_size)"

definition cfg_ok :: "'s cfg \<Rightarrow> bool" where
  "cfg_ok c \<longleftrightarrow> fields_ok (pr c) \<and> nread c \<le> max_header_size"

definition kept :: "nat \<Rightarrow> 's outcome \<Rightarrow> bool" where
  "kept len x \<longleftrightarrow>
     (case x of Return n P s \<Rightarrow> fields_left len P | Advance c \<Rightarrow> cfg_ok c | Reexecute ch c \<Rightarrow> cfg_ok c)"

lemma kept_simps [simp]:
  "kept len (Return n P s) = fields_left len P" "kept len (Advance c) = cfg_ok c" "kept len (Reexecute ch c) = cfg_ok c"
  by (simp_all add: kept_def)

lemmas field_defs = cfg_ok_def fields_ok_def fields_left_def

lemma kept_error: "e \<noteq> CHPE_OK \<Longrightarrow> cfg_ok c \<Longrightarrow> kept len (error e c)"
  by (simp add: error_def field_defs)

lemma effect_fields: "fields_ok (apply_effect e P) = fields_ok P"
  by (cases e) (simp_all add: apply_effect_def fields_ok_def)

lemma fields_ok_left: "fields_ok P \<Longrightarrow> fields_left len P"
  by (simp add: field_defs)

lemma kept_notify:
  assumes "cfg_ok c" "\<And>P s. fields_ok P \<Longrightarrow> kept len (k (c\<lparr>pr := P, app := s\<rparr>))"
  shows "kept len (notify cb ev er c k)"
proof -
  obtain s e where r: "cb ev (pr c) (app c) = (s, e)" by (cases "cb ev (pr c) (app c)")
  have "fields_ok (apply_effect e (pr c))" using assms(1) effect_fields[of e "pr c"] by (simp add: cfg_ok_def)
  with assms(2) show ?thesis by (simp add: notify_def r Let_def fields_ok_left)
qed

lemma kept_data_callback:
  assumes "cfg_ok c" "\<And>P s. fields_ok P \<Longrightarrow> kept len (k (c\<lparr>pr := P, app := s\<rparr>))"
  shows "kept len (data_callback cb ev m data stop er c k)"
proof (cases m)
  case None
  then show ?thesis using assms(1) assms(2)[of "pr c" "app c"] by (simp add: data_callback_def cfg_ok_def)
next
  case (Some a)
  then show ?thesis using assms by (simp add: data_callback_def kept_notify)
qed

lemma kept_count_header:
  assumes "cfg_ok c" "v \<le> len" "\<And>n. n \<le> max_header_size \<Longrightarrow> kept len (k (c\<lparr>nread := n\<rparr>))"
  shows "kept len (count_header v c k)"
proof (cases "max_header_size < nread c + v")
  case True
  then show ?thesis using assms(1,2) by (simp add: count_header_def error_def field_defs)
next
  case False
  then show ?thesis using assms(3)[of "nread c + v"] by (simp add: count_header_def)
qed

lemma kept_strict: "cfg_ok c \<Longrightarrow> (\<not> bad \<Longrightarrow> kept len k) \<Longrightarrow> kept len (strict_check bad c k)"
  by (simp add: strict_check_def kept_error)

lemmas kept_intros = kept_error kept_notify kept_data_callback kept_count_header kept_strict

text \<open>Updates that keep to the ranges.\<close>

lemma cfg_ok_parts [simp]:
  "cfg_ok (c\<lparr>pr := P\<rparr>) \<longleftrightarrow> fields_ok P \<and> nread c \<le> max_header_size" "cfg_ok (c\<lparr>pos := p\<rparr>) = cfg_ok c"
  "cfg_ok (c\<lparr>field_mark := m\<rparr>) = cfg_ok c" "cfg_ok (c\<lparr>value_mark := m\<rparr>) = cfg_ok c"
  "cfg_ok (c\<lparr>url_mark := m\<rparr>) = cfg_ok c" "cfg_ok (c\<lparr>url_start_mark := m\<rparr>) = cfg_ok c"
  "cfg_ok (c\<lparr>body_mark := m\<rparr>) = cfg_ok c" "cfg_ok (c\<lparr>app := s\<rparr>) = cfg_ok c"
  "cfg_ok (c\<lparr>nread := n\<rparr>) \<longleftrightarrow> fields_ok (pr c) \<and> n \<le> max_header_size"
  "cfg_ok (set_state st c) = cfg_ok c" "cfg_ok (set_header_state h c) = cfg_ok c"
  by (simp_all add: field_defs)

lemma fields_ok_updates [simp]:
  "fields_ok (P\<lparr>hp_state := st\<rparr>) = fields_ok P" "fields_ok (P\<lparr>hp_header_state := h\<rparr>) = fields_ok P"
  "fields_ok (P\<lparr>f_chunked := b\<rparr>) = fields_ok P" "fields_ok (P\<lparr>f_keep_alive := b\<rparr>) = fields_ok P"
  "fields_ok (P\<lparr>f_close := b\<rparr>) = fields_ok P" "fields_ok (P\<lparr>f_trailing := b\<rparr>) = fields_ok P"
  "fields_ok (P\<lparr>f_upgrade := b\<rparr>) = fields_ok P" "fields_ok (P\<lparr>f_skipbody := b\<rparr>) = fields_ok P"
  "fields_ok (P\<lparr>f_contentlength := b\<rparr>) = fields_ok P" "fields_ok (P\<lparr>hp_uses_te := b\<rparr>) = fields_ok P"
  "fields_ok (P\<lparr>hp_content_length := l\<rparr>) = fields_ok P" "fields_ok (P\<lparr>hp_qs_point := q\<rparr>) = fields_ok P"
  "fields_ok (P\<lparr>hp_method := m\<rparr>) = fields_ok P" "fields_ok (P\<lparr>hp_upgrade := b\<rparr>) = fields_ok P"
  "fields_ok (P\<lparr>hp_errno := e\<rparr>) = fields_ok P"
  by (simp_all add: fields_ok_def)

lemma fields_ok_numbers:
  "fields_ok P \<Longrightarrow> i < 32 \<Longrightarrow> fields_ok (P\<lparr>hp_index := i\<rparr>)" "fields_ok P \<Longrightarrow> n \<le> 9 \<Longrightarrow> fields_ok (P\<lparr>hp_major := n\<rparr>)"
  "fields_ok P \<Longrightarrow> n \<le> 9 \<Longrightarrow> fields_ok (P\<lparr>hp_minor := n\<rparr>)" "fields_ok P \<Longrightarrow> n \<le> max_header_size \<Longrightarrow> fields_ok (P\<lparr>hp_nread := n\<rparr>)"
  by (simp_all add: fields_ok_def)

lemma digit_small: "isdigit ch \<Longrightarrow> digit_val ch \<le> 9"
  by (auto simp: isdigit_def digit_val_def char_code_def)

lemma cfg_okD: "cfg_ok c \<Longrightarrow> fields_ok (pr c)" "cfg_ok c \<Longrightarrow> nread c \<le> max_header_size"
  by (simp_all add: cfg_ok_def)

section \<open>Each state keeps the ranges\<close>

lemma match_name_fields: "fields_ok P \<Longrightarrow> fields_ok (match_name name ok bad k P)"
  by (simp add: match_name_def Let_def fields_ok_numbers)

lemma bump_index_fields: "fields_ok P \<Longrightarrow> fields_ok (bump_index h P)"
  by (simp add: bump_index_def fields_ok_numbers)

lemma field_char_fields: "fields_ok P \<Longrightarrow> fields_ok (field_char ch P)"
  unfolding field_char_def Let_def
  by (cases "hp_header_state P") (simp_all add: match_name_fields bump_index_fields)

lemma field_loop_fields: "fields_ok P \<Longrightarrow> field_loop s P = (P', n) \<Longrightarrow> fields_ok P' \<and> n \<le> length s"
  by (induction s P arbitrary: P' n rule: field_loop.induct) (auto simp: field_char_fields split: if_splits prod.splits)

lemma value_char_fields: "fields_ok P \<Longrightarrow> value_char ch P = Inr P' \<Longrightarrow> fields_ok P'"
  unfolding value_char_def Let_def
  by (cases "hp_header_state P") (auto simp: length_digit_def Let_def match_name_fields fields_ok_numbers split: if_splits)

lemma value_loop_fields: "fields_ok P \<Longrightarrow> value_loop s P = (x, P', n) \<Longrightarrow> fields_ok P' \<and> n \<le> length s"
proof (induction s P arbitrary: x P' n rule: value_loop.induct)
  case (2 ch s P)
  show ?case
  proof (cases "ch = CHR 0x0D \<or> ch = CHR 0x0A \<or> \<not> hp_lenient P \<and> \<not> is_header_char ch \<or> (\<exists>e. value_char ch P = Inl e)")
    case True
    then show ?thesis using "2.prems" by (auto split: if_splits)
  next
    case False
    then obtain Q where Q: "value_char ch P = Inr Q" by (cases "value_char ch P") auto
    obtain x' P'' n' where w: "value_loop s Q = (x', P'', n')" by (metis prod_cases3)
    have "fields_ok P'' \<and> n' \<le> length s"
      using "2.IH"[OF _ _ _ Q _ w] False value_char_fields[OF "2.prems"(1) Q] by blast
    moreover have "P' = P'' \<and> n = Suc n'" using "2.prems"(2) False Q w by (auto split: if_splits)
    ultimately show ?thesis by simp
  qed
qed simp

lemma method_char_fields: "fields_ok P \<Longrightarrow> method_char ch P = Some P' \<Longrightarrow> fields_ok P'"
  unfolding method_char_def Let_def by (auto split: if_splits option.splits)

lemma value_start_char_fields: "fields_ok P \<Longrightarrow> value_start_char data q ch P = Inr P' \<Longrightarrow> fields_ok P'"
  unfolding value_start_char_def Let_def by (cases "hp_header_state P") (auto split: if_splits)

lemma finish_header_fields: "fields_ok (finish_header P) = fields_ok P"
  by (simp add: finish_header_def split: header_state.split)

lemmas keeps = kept_intros cfg_okD fields_ok_numbers digit_small

lemma kept_url_char: "cfg_ok c \<Longrightarrow> kept len (url_char base s ch c)"
  unfolding url_char_def Let_def by (auto intro!: kept_error simp: cfg_okD split: prod.splits)

lemma kept_request_line:
  "cfg_ok c \<Longrightarrow> kept len (do_start_req cb ch c)" "cfg_ok c \<Longrightarrow> kept len (do_req_method cb ch c)"
  "cfg_ok c \<Longrightarrow> kept len (do_spaces_before_url base ch c)" "cfg_ok c \<Longrightarrow> kept len (do_url_no_space base ch c)"
  unfolding do_start_req_def do_req_method_def do_spaces_before_url_def do_url_no_space_def Let_def
  by (auto intro!: keeps kept_url_char dest: method_char_fields[OF cfg_okD(1)] split: option.splits)

lemma kept_url: "cfg_ok c \<Longrightarrow> kept len (do_url cb base data ch c)"
  unfolding do_url_def by (auto intro!: keeps kept_url_char)

lemma kept_version: "cfg_ok c \<Longrightarrow> kept len (do_version ch c)"
  unfolding do_version_def by (cases "hp_state (pr c)") (auto intro!: keeps)

lemma kept_field_start: "cfg_ok c \<Longrightarrow> kept len (do_header_field_start ch c)"
  unfolding do_header_field_start_def Let_def by (auto intro!: keeps)

lemma kept_field:
  assumes "cfg_ok c"
  shows "kept (length data) (do_header_field cb data c)"
proof -
  obtain P n where l: "field_loop (drop (pos c) data) (pr c) = (P, n)" by (cases "field_loop (drop (pos c) data) (pr c)")
  have "fields_ok P" "n \<le> length data - pos c" using field_loop_fields[OF cfg_okD(1)[OF assms] l] by simp_all
  then show ?thesis using assms unfolding do_header_field_def l Let_def
    by (auto intro!: keeps)
qed

lemma kept_value_start:
  assumes "cfg_ok c"
  shows "kept len (do_header_value_start data ch c)"
proof -
  let ?P = "(pr c)\<lparr>hp_state := S_header_value, hp_index := 0\<rparr>"
  let ?c = "c\<lparr>value_mark := mark_at (pos c) (value_mark c), pr := ?P\<rparr>"
  have P: "fields_ok ?P" using assms by (simp add: field_defs)
  have c: "cfg_ok ?c" using P assms by (simp add: cfg_okD)
  show ?thesis
  proof (cases "value_start_char data (pos c) ch ?P")
    case (Inl e)
    from kept_error[OF value_start_char_error[OF Inl] c] have "kept len (error e ?c)" .
    then show ?thesis by (simp add: do_header_value_start_def Let_def Inl)
  next
    case (Inr Q)
    then show ?thesis using value_start_char_fields[OF P Inr] assms by (simp add: do_header_value_start_def Let_def cfg_okD)
  qed
qed

lemma kept_discard_ws: "cfg_ok c \<Longrightarrow> kept len (do_discard_ws data ch c)"
  unfolding do_discard_ws_def by (auto intro!: kept_value_start)

lemma kept_value:
  assumes "cfg_ok c"
  shows "kept (length data) (do_header_value cb data c)"
proof -
  obtain x P n where l: "value_loop (drop (pos c) data) (pr c) = (x, P, n)" by (metis prod_cases3)
  have "fields_ok P" "n \<le> length data - pos c" "x \<noteq> Value_error CHPE_OK"
    using value_loop_fields[OF cfg_okD(1)[OF assms] l] value_loop_facts[OF l] by simp_all
  then show ?thesis using assms unfolding do_header_value_def l Let_def
    by (auto intro!: keeps split: value_exit.splits)
qed

lemma kept_lines:
  "cfg_ok c \<Longrightarrow> kept len (do_header_almost_done ch c)" "cfg_ok c \<Longrightarrow> kept len (do_header_value_lws ch c)"
  "cfg_ok c \<Longrightarrow> kept len (do_discard_lws cb data ch c)"
  unfolding do_header_almost_done_def do_header_value_lws_def do_discard_lws_def Let_def
  by (auto intro!: keeps simp: finish_header_fields)

lemma kept_headers_almost_done: "cfg_ok c \<Longrightarrow> kept len (do_headers_almost_done cb ch c)"
  unfolding do_headers_almost_done_def Let_def
  by (auto intro!: keeps fields_ok_left simp: effect_fields split: prod.split)

lemma kept_headers_done: "cfg_ok c \<Longrightarrow> kept len (do_headers_done cb ch c)"
  unfolding do_headers_done_def Let_def
  by (auto intro!: keeps fields_ok_left)

lemma kept_bodies:
  "cfg_ok c \<Longrightarrow> kept len (do_body_identity cb data ch c)" "cfg_ok c \<Longrightarrow> kept len (do_body_identity_eof data c)"
  "cfg_ok c \<Longrightarrow> kept len (do_chunk_size_start ch c)" "cfg_ok c \<Longrightarrow> kept len (do_chunk_size ch c)"
  "cfg_ok c \<Longrightarrow> kept len (do_chunk_size_almost_done ch c)" "cfg_ok c \<Longrightarrow> kept len (do_chunk_data data c)"
  "cfg_ok c \<Longrightarrow> kept len (do_chunk_data_almost_done cb data ch c)" "cfg_ok c \<Longrightarrow> kept len (do_chunk_data_done ch c)"
  unfolding do_body_identity_def do_body_identity_eof_def do_chunk_size_start_def do_chunk_size_def
    do_chunk_size_almost_done_def do_chunk_data_def do_chunk_data_almost_done_def do_chunk_data_done_def Let_def
  by (auto intro!: keeps)

lemma kept_exec:
  assumes "cfg_ok c"
  shows "kept (length data) (exec_state cb base data ch c)"
  using assms unfolding exec_state_def
  by (cases "hp_state (pr c)")
    (simp_all add: kept_request_line kept_url kept_version kept_field_start kept_field kept_value_start kept_discard_ws
       kept_value kept_lines kept_headers_almost_done kept_headers_done kept_bodies kept_error kept_strict kept_notify cfg_okD)

lemma kept_next:
  assumes "cfg_ok c" "data \<noteq> []"
  shows "kept (length data) (next_byte cb base data c)"
  unfolding next_byte_def Let_def using assms
  by (auto intro!: kept_count_header kept_exec simp: Suc_le_eq cfg_okD)

lemma kept_leftover: "cfg_ok c \<Longrightarrow> kept len (leftover cb data c)"
  unfolding leftover_def by (auto intro!: keeps fields_ok_left)

lemma kept_turn:
  assumes "data \<noteq> []" "kept (length data) (Advance c)"
  shows "kept (length data) (let c = c\<lparr>pos := pos c + 1\<rparr>
    in if pos c = length data then leftover cb data c else next_byte cb base data c)"
proof -
  have c: "cfg_ok (c\<lparr>pos := pos c + 1\<rparr>)" using assms(2) by simp
  show ?thesis
  proof (cases "pos (c\<lparr>pos := pos c + 1\<rparr>) = length data")
    case True
    show ?thesis unfolding Let_def if_P[OF True] by (rule kept_leftover[OF c])
  next
    case False
    show ?thesis unfolding Let_def if_not_P[OF False] by (rule kept_next[OF c assms(1)])
  qed
qed

section \<open>Every byte of a header counts\<close>

text \<open>The states before the end of the headers has been reached.\<close>

definition in_header :: "pstate \<Rightarrow> bool" where
  "in_header s \<longleftrightarrow> parsing_header s
     \<and> s \<notin> {S_headers_done, S_chunk_size_start, S_chunk_size, S_chunk_parameters, S_chunk_size_almost_done}"

text \<open>An application that also notes whether the end of the headers has been reported to it.\<close>

definition watch :: "'s callbacks \<Rightarrow> ('s \<times> bool) callbacks" where
  "watch cb ev P = (\<lambda>(s, b). case cb ev P s of (s, e) \<Rightarrow> ((s, b \<or> ev = On_headers_complete), e))"

text \<open>
  The invariant: until then, the counter has grown by the bytes taken, \<open>taken\<close> many of the buffer besides
  those before the position.
\<close>

definition counts :: "nat \<Rightarrow> nat \<Rightarrow> nat \<Rightarrow> ('s \<times> bool) cfg \<Rightarrow> bool" where
  "counts k len taken c \<longleftrightarrow> snd (app c) \<or> in_header (hp_state (pr c)) \<and> nread c = k + pos c + taken \<and> pos c + taken \<le> len"

definition counted :: "nat \<Rightarrow> nat \<Rightarrow> ('s \<times> bool) outcome \<Rightarrow> bool" where
  "counted k len x \<longleftrightarrow>
     (case x of
        Return n P s \<Rightarrow> hp_errno P = CHPE_OK \<longrightarrow> snd s \<or> in_header (hp_state P) \<and> hp_nread P = k + len
      | Advance c \<Rightarrow> counts k len (Suc 0) c | Reexecute ch c \<Rightarrow> counts k len (Suc 0) c)"

lemma counted_simps [simp]:
  "counted k len (Return n P s) \<longleftrightarrow> (hp_errno P = CHPE_OK \<longrightarrow> snd s \<or> in_header (hp_state P) \<and> hp_nread P = k + len)"
  "counted k len (Advance c) = counts k len (Suc 0) c" "counted k len (Reexecute ch c) = counts k len (Suc 0) c"
  by (simp_all add: counted_def)

lemma counted_error: "e \<noteq> CHPE_OK \<Longrightarrow> counted k len (error e c)"
  by (simp add: error_def)

lemma in_header_start: "in_header S_start_req"
  by (simp add: in_header_def parsing_header_def)

lemma effect_in_header: "in_header (hp_state P) \<Longrightarrow> in_header (hp_state (apply_effect e P))"
  by (cases e) (simp_all add: apply_effect_def in_header_start)

lemma counted_notify:
  assumes "\<And>P s. (snd (app c) \<Longrightarrow> snd s) \<Longrightarrow> (ev = On_headers_complete \<Longrightarrow> snd s)
    \<Longrightarrow> (in_header (hp_state (pr c)) \<Longrightarrow> in_header (hp_state P)) \<Longrightarrow> counted k len (j (c\<lparr>pr := P, app := s\<rparr>))"
  shows "counted k len (notify (watch cb) ev er c j)"
proof -
  obtain s b where a: "app c = (s, b)" by (cases "app c")
  obtain s' e where r: "cb ev (pr c) s = (s', e)" by (cases "cb ev (pr c) s")
  have "counted k len (j (c\<lparr>pr := apply_effect e (pr c), app := (s', b \<or> ev = On_headers_complete)\<rparr>))"
    by (rule assms) (simp_all add: a effect_in_header)
  then show ?thesis by (simp add: notify_def watch_def a r Let_def)
qed

lemma counted_data_callback:
  assumes "\<And>P s. (snd (app c) \<Longrightarrow> snd s) \<Longrightarrow> (in_header (hp_state (pr c)) \<Longrightarrow> in_header (hp_state P))
    \<Longrightarrow> counted k len (j (c\<lparr>pr := P, app := s\<rparr>))"
  shows "counted k len (data_callback (watch cb) ev m data stop er c j)"
proof (cases m)
  case None
  have "c\<lparr>pr := pr c, app := app c\<rparr> = c" by simp
  then show ?thesis using None assms[of "app c" "pr c"] by (simp add: data_callback_def)
next
  case (Some a)
  have "counted k len (notify (watch cb) (ev (slice data a stop)) er c j)"
    by (rule counted_notify, rule assms) auto
  then show ?thesis by (simp add: data_callback_def Some)
qed

lemma counted_count_header: "counted k len (j (c\<lparr>nread := nread c + v\<rparr>)) \<Longrightarrow> counted k len (count_header v c j)"
  by (simp add: count_header_def Let_def counted_error)

lemma counted_strict: "(\<not> bad \<Longrightarrow> counted k len j) \<Longrightarrow> counted k len (strict_check bad c j)"
  by (simp add: strict_check_def counted_error)

lemmas counted_intros = counted_error counted_notify counted_data_callback counted_count_header counted_strict

lemma header_states [simp]:
  "in_header S_dead" "in_header S_req_method" "in_header S_req_spaces_before_url" "in_header S_req_http_start"
  "in_header S_req_http_H" "in_header S_req_http_HT" "in_header S_req_http_HTT" "in_header S_req_http_HTTP"
  "in_header S_req_http_I" "in_header S_req_http_IC" "in_header S_req_http_major" "in_header S_req_http_dot"
  "in_header S_req_http_minor" "in_header S_req_http_end" "in_header S_req_line_almost_done"
  "in_header S_header_field_start" "in_header S_header_field" "in_header S_header_value_discard_ws"
  "in_header S_header_value_discard_ws_almost_done" "in_header S_header_value_discard_lws"
  "in_header S_header_value_start" "in_header S_header_value" "in_header S_header_value_lws"
  "in_header S_header_almost_done" "in_header S_headers_almost_done"
  by (simp_all add: in_header_def parsing_header_def)

lemma url_states: "in_header (fst (parse_url_char s ch))"
  unfolding parse_url_char_def in_header_def parsing_header_def
  by (cases s) auto

lemma counts_state:
  "counts k len t c \<Longrightarrow> in_header s \<Longrightarrow> counts k len t (set_state s c)"
  by (auto simp: counts_def)

lemma counts_parts [simp]:
  "counts k len t (c\<lparr>field_mark := m\<rparr>) = counts k len t c" "counts k len t (c\<lparr>value_mark := m\<rparr>) = counts k len t c"
  "counts k len t (c\<lparr>url_mark := m\<rparr>) = counts k len t c" "counts k len t (c\<lparr>url_start_mark := m\<rparr>) = counts k len t c"
  "counts k len t (c\<lparr>body_mark := m\<rparr>) = counts k len t c" "counts k len t (set_header_state h c) = counts k len t c"
  by (simp_all add: counts_def)

lemma method_char_in_header: "method_char ch P = Some P' \<Longrightarrow> in_header (hp_state P) \<Longrightarrow> in_header (hp_state P')"
  unfolding method_char_def Let_def by (auto split: if_splits option.splits)

lemma value_start_in_header: "value_start_char data q ch P = Inr P' \<Longrightarrow> hp_state P' = hp_state P"
  unfolding value_start_char_def Let_def by (cases "hp_header_state P") (auto split: if_splits)

lemma counted_url_char: "counts k len (Suc 0) c \<Longrightarrow> counted k len (url_char base s ch c)"
proof -
  assume c: "counts k len (Suc 0) c"
  obtain s' q where u: "parse_url_char s ch = (s', q)" by (cases "parse_url_char s ch")
  then have "in_header s'" using url_states[of s ch] by simp
  then show ?thesis using c by (auto simp: url_char_def u Let_def counted_error counts_def)
qed

lemma counted_request_line:
  "counts k len (Suc 0) c \<Longrightarrow> counted k len (do_start_req (watch cb) ch c)"
  "counts k len (Suc 0) c \<Longrightarrow> counted k len (do_req_method (watch cb) ch c)"
  "counts k len (Suc 0) c \<Longrightarrow> counted k len (do_spaces_before_url base ch c)"
  "counts k len (Suc 0) c \<Longrightarrow> counted k len (do_url_no_space base ch c)"
  unfolding do_start_req_def do_req_method_def do_spaces_before_url_def do_url_no_space_def Let_def
  by (auto intro!: counted_intros counted_url_char simp: counts_def dest: method_char_in_header split: option.splits)

lemma counted_url: "counts k len (Suc 0) c \<Longrightarrow> counted k len (do_url (watch cb) base data ch c)"
  unfolding do_url_def by (auto intro!: counted_intros counted_url_char simp: counts_def)

lemma counted_version: "counts k len (Suc 0) c \<Longrightarrow> counted k len (do_version ch c)"
  unfolding do_version_def by (cases "hp_state (pr c)") (auto intro!: counted_intros simp: counts_def)

lemma counted_field_start: "counts k len (Suc 0) c \<Longrightarrow> counted k len (do_header_field_start ch c)"
  unfolding do_header_field_start_def Let_def by (auto intro!: counted_intros simp: counts_def)

lemma counted_field:
  assumes "counts k (length data) (Suc 0) c"
  shows "counted k (length data) (do_header_field (watch cb) data c)"
proof -
  obtain P n where l: "field_loop (drop (pos c) data) (pr c) = (P, n)" by (cases "field_loop (drop (pos c) data) (pr c)")
  have f: "hp_state P = hp_state (pr c)" "snd (app c) \<or> pos c + n \<le> length data"
    using field_loop_facts[OF l] assms by (auto simp: counts_def)
  then show ?thesis using assms unfolding do_header_field_def l Let_def
    by (auto intro!: counted_intros simp: counts_def)
qed

lemma counted_value_start: "counts k len (Suc 0) c \<Longrightarrow> counted k len (do_header_value_start data ch c)"
  unfolding do_header_value_start_def Let_def
  by (auto intro!: counted_error simp: counts_def dest: value_start_in_header value_start_char_error split: sum.split)

lemma counted_discard_ws: "counts k len (Suc 0) c \<Longrightarrow> counted k len (do_discard_ws data ch c)"
  unfolding do_discard_ws_def by (auto intro!: counted_value_start simp: counts_def)

lemma counted_value:
  assumes "counts k (length data) (Suc 0) c"
  shows "counted k (length data) (do_header_value (watch cb) data c)"
proof -
  obtain x P n where l: "value_loop (drop (pos c) data) (pr c) = (x, P, n)" by (metis prod_cases3)
  have f: "hp_state P = hp_state (pr c)" "n \<le> length data - pos c" "x = Value_end \<longleftrightarrow> n = length data - pos c" "x \<noteq> Value_error CHPE_OK"
    using value_loop_facts[OF l] by simp_all
  then show ?thesis using assms unfolding do_header_value_def l Let_def
    by (auto intro!: counted_intros simp: counts_def split: value_exit.splits)
qed

lemma finish_header_state: "hp_state (finish_header P) = hp_state P"
  by (simp add: finish_header_def split: header_state.split)

lemma counted_lines:
  "counts k len (Suc 0) c \<Longrightarrow> counted k len (do_header_almost_done ch c)" "counts k len (Suc 0) c \<Longrightarrow> counted k len (do_header_value_lws ch c)"
  "counts k len (Suc 0) c \<Longrightarrow> counted k len (do_discard_lws (watch cb) data ch c)"
  unfolding do_header_almost_done_def do_header_value_lws_def do_discard_lws_def Let_def
  by (auto intro!: counted_intros simp: counts_def finish_header_state)

text \<open>The end of the headers is reported, and after it nothing is claimed.\<close>

lemma counted_headers_almost_done:
  assumes "counts k len (Suc 0) c"
  shows "counted k len (do_headers_almost_done (watch cb) ch c)"
proof -
  obtain s b where a: "app c = (s, b)" by (cases "app c")
  let ?P = "(pr c)\<lparr>hp_state := S_headers_done, hp_upgrade := (f_upgrade (pr c) \<or> hp_method (pr c) = Connect)\<rparr>"
  obtain s' e where r: "cb On_headers_complete ?P s = (s', e)" by (cases "cb On_headers_complete ?P s")
  show ?thesis using assms unfolding do_headers_almost_done_def Let_def
    by (auto intro!: counted_intros simp: counts_def watch_def a r)
qed

lemma counted_after:
  assumes "snd (app c)"
  shows "counted k len (do_headers_done (watch cb) ch c)" "counted k len (do_body_identity (watch cb) data ch c)"
    "counted k len (do_body_identity_eof data c)"
    "counted k len (do_chunk_size_start ch c)" "counted k len (do_chunk_size ch c)"
    "counted k len (do_chunk_size_almost_done ch c)" "counted k len (do_chunk_data data c)"
    "counted k len (do_chunk_data_almost_done (watch cb) data ch c)" "counted k len (do_chunk_data_done ch c)"
  using assms unfolding do_headers_done_def do_body_identity_def do_body_identity_eof_def do_chunk_size_start_def do_chunk_size_def
    do_chunk_size_almost_done_def do_chunk_data_def do_chunk_data_almost_done_def do_chunk_data_done_def Let_def
  by (auto intro!: counted_intros simp: counts_def)

lemma counts_in_header: "counts k len t c \<Longrightarrow> \<not> in_header (hp_state (pr c)) \<Longrightarrow> snd (app c)"
  by (auto simp: counts_def)

lemma other_states [simp]:
  "\<not> in_header S_headers_done" "\<not> in_header S_body_identity" "\<not> in_header S_body_identity_eof" "\<not> in_header S_message_done"
  "\<not> in_header S_chunk_size_start" "\<not> in_header S_chunk_size" "\<not> in_header S_chunk_parameters"
  "\<not> in_header S_chunk_size_almost_done" "\<not> in_header S_chunk_data" "\<not> in_header S_chunk_data_almost_done"
  "\<not> in_header S_chunk_data_done"
  by (simp_all add: in_header_def parsing_header_def)

lemma counted_exec:
  assumes "counts k (length data) (Suc 0) c"
  shows "counted k (length data) (exec_state (watch cb) base data ch c)"
proof -
  note after = counted_after[OF counts_in_header[OF assms]]
  have ends: "\<not> in_header (hp_state (pr c)) \<Longrightarrow> counted k (length data) (notify (watch cb) On_message_complete er c Advance)" for er
    using counts_in_header[OF assms] by (intro counted_notify) (simp add: counts_def)
  have params: "\<not> in_header (hp_state (pr c)) \<Longrightarrow> counts k (length data) (Suc 0) (set_state s c)" for s
    using counts_in_header[OF assms] by (simp add: counts_def)
  show ?thesis using assms unfolding exec_state_def
    by (cases "hp_state (pr c)")
      (auto simp: counted_request_line counted_url counted_version counted_field_start counted_value_start
         counted_discard_ws counted_lines counted_headers_almost_done after ends params counted_error
         counts_state[OF assms] intro!: counted_strict counted_field counted_value)
qed

lemma counted_next:
  assumes "counts k (length data) 0 c" "pos c \<noteq> length data"
  shows "counted k (length data) (next_byte (watch cb) base data c)"
proof -
  have "counts k (length data) (Suc 0) (c\<lparr>nread := nread c + 1\<rparr>)" using assms by (auto simp: counts_def)
  from counted_exec[OF this] have "counted k (length data) (count_header 1 c (exec_state (watch cb) base data ch))" for ch
    by (rule counted_count_header)
  moreover have "counted k (length data) (exec_state (watch cb) base data ch c)" if "\<not> parsing_header (hp_state (pr c))" for ch
  proof (rule counted_exec)
    have "\<not> in_header (hp_state (pr c))" using that by (simp add: in_header_def)
    then show "counts k (length data) (Suc 0) c" using assms(1) by (simp add: counts_def)
  qed
  ultimately show ?thesis by (simp add: next_byte_def Let_def)
qed

lemma counted_leftover:
  assumes "counts k (length data) 0 c" "pos c = length data"
  shows "counted k (length data) (leftover (watch cb) data c)"
  using assms unfolding leftover_def by (auto intro!: counted_data_callback simp: counts_def)

lemma counted_turn:
  assumes "counted k (length data) (Advance c)"
  shows "counted k (length data) (let c = c\<lparr>pos := pos c + 1\<rparr>
    in if pos c = length data then leftover (watch cb) data c else next_byte (watch cb) base data c)"
proof -
  have c: "counts k (length data) 0 (c\<lparr>pos := pos c + 1\<rparr>)" using assms by (auto simp: counts_def)
  show ?thesis
  proof (cases "pos (c\<lparr>pos := pos c + 1\<rparr>) = length data")
    case True
    show ?thesis unfolding Let_def if_P[OF True] by (rule counted_leftover[OF c True])
  next
    case False
    show ?thesis unfolding Let_def if_not_P[OF False] by (rule counted_next[OF c False])
  qed
qed

section \<open>Properties\<close>

text \<open>C17. No byte of a header goes uncounted: a call on a buffer, from a parser that has not reached the end of the
  headers, either records an error, or reports that end to the application, or leaves a counter grown by exactly
  the bytes of the buffer and still within its limit of 80 KiB.  So a header block that would exceed
  the limit is refused before its end is waited for any longer; and the fields of the parser stay in the
  range of their types.\<close>

theorem header_bytes_counted:
  assumes "parser_ok P" and "fields_ok P" and "hp_errno P = CHPE_OK" and "data \<noteq> []" and "in_header (hp_state P)"
  shows "\<exists>n P' s' b. http_parser_execute (watch cb) base data P (s, False) = Some (n, P', (s', b))
    \<and> (hp_errno P' = CHPE_OK \<longrightarrow> fields_ok P')
    \<and> (hp_errno P' = CHPE_OK \<and> \<not> b \<longrightarrow> in_header (hp_state P') \<and> hp_nread P' = hp_nread P + length data)
    \<and> (max_header_size < hp_nread P + length data \<longrightarrow> hp_errno P' \<noteq> CHPE_OK \<or> b)"
proof -
  let ?c = "start_cfg P (s, False)"
  let ?Q = "\<lambda>x. kept (length data) x \<and> counted (hp_nread P) (length data) x"
  have st: "steady (length data) 0 (rank (hp_state P)) (next_byte (watch cb) base data ?c)"
    using assms steady_next[of ?c data 0] by (simp add: start_cfg_def Let_def)
  have "cfg_ok ?c" "counts (hp_nread P) (length data) 0 ?c" "pos ?c \<noteq> length data"
    using assms by (simp_all add: cfg_ok_def counts_def start_cfg_def Let_def fields_ok_def)
  then have first: "?Q (next_byte (watch cb) base data ?c)" using kept_next counted_next assms(4) by blast
  have again: "?Q (exec_state (watch cb) base data ch c)" if "?Q (Reexecute ch c)" for ch c
  proof
    show "kept (length data) (exec_state (watch cb) base data ch c)" by (rule kept_exec) (use that in simp)
    show "counted (hp_nread P) (length data) (exec_state (watch cb) base data ch c)" by (rule counted_exec) (use that in simp)
  qed
  have on: "?Q (let c = c\<lparr>pos := pos c + 1\<rparr>
      in if pos c = length data then leftover (watch cb) data c else next_byte (watch cb) base data c)"
    if "?Q (Advance c)" for c
    using kept_turn[OF assms(4) conjunct1[OF that]] counted_turn[OF conjunct2[OF that]] by (rule conjI)
  have "\<exists>n P' s'. run (watch cb) base data (next_byte (watch cb) base data ?c) = Some (n, P', s')
      \<and> steady (length data) 0 0 (Return n P' s') \<and> ?Q (Return n P' s')"
    by (rule run_returns_with[where Q = ?Q, OF st first again on])
  then obtain n P' s' b where r: "run (watch cb) base data (next_byte (watch cb) base data ?c) = Some (n, P', (s', b))"
      "fields_left (length data) P'" "counted (hp_nread P) (length data) (Return n P' (s', b))"
    by auto
  have ok: "hp_errno P' = CHPE_OK \<Longrightarrow> fields_ok P'" using r(2) by (simp add: fields_left_def fields_ok_def)
  moreover have "hp_errno P' = CHPE_OK \<Longrightarrow> \<not> b \<Longrightarrow> in_header (hp_state P') \<and> hp_nread P' = hp_nread P + length data"
    using r(3) by simp
  moreover from this ok have "hp_errno P' \<noteq> CHPE_OK \<or> b" if "max_header_size < hp_nread P + length data"
    using that by (force simp: fields_ok_def)
  ultimately show ?thesis using r(1) assms(3,4) by (simp add: http_parser_execute_def)
qed

theorem header_bytes_counted_witness:
  "\<exists>n P' s' b. http_parser_execute (watch (\<lambda>ev P s. (s @ [ev], Unchanged))) 4096 ''GET /code HTTP'' (http_parser_init\<lparr>hp_nread := 81910\<rparr>) ([], False)
     = Some (n, P', (s', b)) \<and> (if hp_errno P' = CHPE_OK then b else True)"
proof -
  let ?P = "http_parser_init\<lparr>hp_nread := 81910\<rparr>"
  have P: "parser_ok ?P" "fields_ok ?P" "hp_errno ?P = CHPE_OK" "''GET /code HTTP'' \<noteq> []" "in_header (hp_state ?P)"
    by (simp_all add: http_parser_init_def parser_ok_def fields_ok_def max_header_size_def in_header_start)
  have "max_header_size < hp_nread ?P + length ''GET /code HTTP''"
    by (simp add: max_header_size_def)
  with header_bytes_counted[OF P, of "\<lambda>ev P s. (s @ [ev], Unchanged)" 4096 "[]"] show ?thesis by (simp only: if_bool_eq_disj simp_thms) blast
qed

end
