(* ===== verification/HttpRequest.thy ===== *)
theory HttpRequest
  imports HttpParser
begin

text \<open>
  The parser object of a connection (crow/parser.h): the callbacks that collect a request from the
  events of the parser, \<open>feed\<close>, \<open>done\<close> and \<open>clear\<close>.  A request written as a client does is read back
  with its method, URL, headers and body, and handed to the connection once.
\<close>

section \<open>The parser object\<close>

text \<open>The application's part of it; \<open>handler\<close> is the state of the connection it calls.\<close>

record 'h http_obj =
  po_req :: request
  header_building_state :: nat
  message_complete :: bool
  header_field :: string
  header_value :: string
  handler :: 'h

text \<open>
  What the connection does when the URL, the header block and the message are there: its new state,
  and whether it calls \<open>clear()\<close>, or \<open>done()\<close> and \<open>clear()\<close>, on the parser.
\<close>

type_synonym 'h hook = "request \<Rightarrow> 'h \<Rightarrow> 'h \<times> cb_effect"

record 'h hooks =
  handle_url_hook :: "'h hook"
  handle_header_hook :: "'h hook"
  handle_hook :: "'h hook"

text \<open>\<open>crow::request()\<close> sets the method and empties the rest; the versions and flags keep what they had.\<close>

definition new_request :: "request \<Rightarrow> request" where
  "new_request r = r\<lparr>req_method := Get, req_raw_url := [], req_url := [], req_url_params := make_query_string [] True,
     req_headers := [], req_body := []\<rparr>"

definition obj_clear :: "'h http_obj \<Rightarrow> 'h http_obj" where
  "obj_clear ob = ob\<lparr>po_req := new_request (po_req ob), header_field := [], header_value := [],
     header_building_state := 0, message_complete := False\<rparr>"

definition call_hook :: "'h hook \<Rightarrow> 'h http_obj \<Rightarrow> 'h http_obj \<times> cb_effect" where
  "call_hook f ob =
     (case f (po_req ob) (handler ob) of
        (h, e) \<Rightarrow> (let ob = ob\<lparr>handler := h\<rparr> in (if e = Unchanged then ob else obj_clear ob, e)))"

definition on_method :: "http_parser \<Rightarrow> 'h http_obj \<Rightarrow> 'h http_obj" where
  "on_method P ob = ob\<lparr>po_req := (po_req ob)\<lparr>req_method := hp_method P\<rparr>\<rparr>"

definition on_url :: "http_parser \<Rightarrow> string \<Rightarrow> 'h http_obj \<Rightarrow> 'h http_obj" where
  "on_url P w ob =
     (let raw = req_raw_url (po_req ob) @ w
      in ob\<lparr>po_req := (po_req ob)\<lparr>req_raw_url := raw, req_url_params := make_query_string raw True,
              req_url := (if hp_qs_point P \<noteq> 0 then take (hp_qs_point P) raw else raw)\<rparr>\<rparr>)"

text \<open>Moving a string leaves an empty one.\<close>

definition emplace_header :: "'h http_obj \<Rightarrow> 'h http_obj" where
  "emplace_header ob = ob\<lparr>po_req := (po_req ob)\<lparr>req_headers := ci_emplace (header_field ob) (header_value ob) (req_headers (po_req ob))\<rparr>,
     header_field := [], header_value := []\<rparr>"

definition on_header_field :: "string \<Rightarrow> 'h http_obj \<Rightarrow> 'h http_obj" where
  "on_header_field w ob =
     (if header_building_state ob = 0 then
        (let ob = (if header_value ob \<noteq> [] then emplace_header ob else ob)
         in ob\<lparr>header_field := w, header_building_state := 1\<rparr>)
      else if header_building_state ob = 1 then ob\<lparr>header_field := header_field ob @ w\<rparr>
      else ob)"

definition on_header_value :: "string \<Rightarrow> 'h http_obj \<Rightarrow> 'h http_obj" where
  "on_header_value w ob =
     (if header_building_state ob = 0 then ob\<lparr>header_value := header_value ob @ w\<rparr>
      else if header_building_state ob = 1 then ob\<lparr>header_building_state := 0, header_value := w\<rparr>
      else ob)"

definition set_connection_parameters :: "http_parser \<Rightarrow> request \<Rightarrow> request" where
  "set_connection_parameters P r =
     r\<lparr>req_http_major := hp_major P, req_http_minor := hp_minor P,
       req_keep_alive := (if hp_major P = 1 \<and> hp_minor P = 0 then (if f_keep_alive P then True else False)
                          else (if hp_major P = 1 \<and> hp_minor P = 1 then True else False)),
       req_close_connection := (if hp_major P = 1 \<and> hp_minor P = 0 then (if f_keep_alive P then False else True)
                          else (if hp_major P = 1 \<and> hp_minor P = 1 then (if f_close P then True else False) else False)),
       req_upgrade := hp_upgrade P\<rparr>"

definition on_headers_complete :: "http_parser \<Rightarrow> 'h http_obj \<Rightarrow> 'h http_obj" where
  "on_headers_complete P ob =
     (let ob = (if header_field ob \<noteq> [] then emplace_header ob else ob)
      in ob\<lparr>po_req := set_connection_parameters P (po_req ob)\<rparr>)"

definition on_body :: "string \<Rightarrow> 'h http_obj \<Rightarrow> 'h http_obj" where
  "on_body w ob = ob\<lparr>po_req := (po_req ob)\<lparr>req_body := req_body (po_req ob) @ w\<rparr>\<rparr>"

definition http_callbacks :: "'h hooks \<Rightarrow> 'h http_obj callbacks" where
  "http_callbacks hk ev P ob =
     (case ev of
        On_message_begin \<Rightarrow> (ob, Unchanged)
      | On_method \<Rightarrow> (on_method P ob, Unchanged)
      | On_url w \<Rightarrow> call_hook (handle_url_hook hk) (on_url P w ob)
      | On_header_field w \<Rightarrow> (on_header_field w ob, Unchanged)
      | On_header_value w \<Rightarrow> (on_header_value w ob, Unchanged)
      | On_headers_complete \<Rightarrow> call_hook (handle_header_hook hk) (on_headers_complete P ob)
      | On_body w \<Rightarrow> (on_body w ob, Unchanged)
      | On_message_complete \<Rightarrow> call_hook (handle_hook hk) (ob\<lparr>message_complete := True\<rparr>))"

text \<open>\<open>feed\<close>: false on an error.  \<open>None\<close> would say that the parser does not return.\<close>

definition feed :: "'h hooks \<Rightarrow> nat \<Rightarrow> string \<Rightarrow> http_parser \<times> 'h http_obj \<Rightarrow> (bool \<times> http_parser \<times> 'h http_obj) option" where
  "feed hk base buffer = (\<lambda>(P, ob).
     if message_complete ob then Some (True, P, ob)
     else case http_parser_execute (http_callbacks hk) base buffer P ob of
            None \<Rightarrow> None
          | Some (nparsed, P, ob) \<Rightarrow>
              Some (if hp_errno P \<noteq> CHPE_OK then False else nparsed = length buffer, P, ob))"

definition feed_done :: "'h hooks \<Rightarrow> http_parser \<times> 'h http_obj \<Rightarrow> (bool \<times> http_parser \<times> 'h http_obj) option" where
  "feed_done hk = feed hk 0 []"

definition parser_clear :: "http_parser \<times> 'h http_obj \<Rightarrow> http_parser \<times> 'h http_obj" where
  "parser_clear = (\<lambda>(P, ob). (P\<lparr>hp_qs_point := 0, hp_state := S_start_req\<rparr>, obj_clear ob))"

section \<open>Moving along the buffer\<close>

definition go :: "'s callbacks \<Rightarrow> nat \<Rightarrow> string \<Rightarrow> 's cfg \<Rightarrow> (nat \<times> http_parser \<times> 's) option" where
  "go cb base data c = run cb base data (if pos c = length data then leftover cb data c else next_byte cb base data c)"

lemma run_simps:
  "run cb base data (Return n P s) = Some (n, P, s)"
  "run cb base data (Reexecute ch c) = run cb base data (exec_state cb base data ch c)"
  "run cb base data (Advance c) = go cb base data (c\<lparr>pos := pos c + 1\<rparr>)"
  by (subst run.simps, simp add: go_def Let_def)+

text \<open>From one position to a later one, whatever the header count is, as long as it is small.\<close>

definition moves :: "'s callbacks \<Rightarrow> nat \<Rightarrow> string \<Rightarrow> 's cfg \<Rightarrow> 's cfg \<Rightarrow> bool" where
  "moves cb base data c c' \<longleftrightarrow>
     (\<forall>n \<le> 2 * pos c. \<exists>n' \<le> 2 * pos c'. go cb base data (c\<lparr>nread := n\<rparr>) = go cb base data (c'\<lparr>nread := n'\<rparr>))"

lemma moves_refl: "moves cb base data c c"
  by (auto simp: moves_def)

lemma moves_trans [trans]: "moves cb base data c c' \<Longrightarrow> moves cb base data c' c'' \<Longrightarrow> moves cb base data c c''"
  unfolding moves_def by metis

definition small :: "string \<Rightarrow> bool" where
  "small data \<longleftrightarrow> 2 * length data \<le> max_header_size"

lemma at_char: "drop p data = ch # s \<Longrightarrow> p < length data \<and> data ! p = ch \<and> drop (p + 1) data = s"
  by (metis Cons_nth_drop_Suc Suc_eq_plus1 drop_eq_Nil2 leI list.distinct(1) list.inject)

lemma go_header:
  assumes "small data" "drop (pos c) data = ch # s" "parsing_header (hp_state (pr c))" "nread c \<le> 2 * pos c"
  shows "go cb base data c = run cb base data (exec_state cb base data ch (c\<lparr>nread := nread c + 1\<rparr>))"
  using assms at_char[OF assms(2)]
  by (auto simp: go_def next_byte_def count_header_def small_def Let_def)

lemma nread_pos: "c\<lparr>nread := n, pos := p\<rparr> = c\<lparr>pos := p, nread := n\<rparr>"
  by (cases c) simp

text \<open>One character in a state that just goes on.\<close>

lemma moves_char:
  assumes "small data" "drop (pos c) data = ch # s" "parsing_header (hp_state (pr c))"
    and step: "\<And>n. exec_state cb base data ch (c\<lparr>nread := n\<rparr>) = Advance (c'\<lparr>nread := n\<rparr>)"
    and "pos c' = pos c"
  shows "moves cb base data c (c'\<lparr>pos := pos c + 1\<rparr>)"
  unfolding moves_def
proof (intro allI impI)
  fix n assume n: "n \<le> 2 * pos c"
  have "go cb base data (c\<lparr>nread := n\<rparr>) = go cb base data (c'\<lparr>pos := pos c + 1\<rparr>\<lparr>nread := n + 1\<rparr>)"
    using go_header[of data "c\<lparr>nread := n\<rparr>" ch s cb base] assms n step[of "n + 1"]
    by (simp add: run_simps nread_pos)
  then show "\<exists>n' \<le> 2 * pos (c'\<lparr>pos := pos c + 1\<rparr>).
      go cb base data (c\<lparr>nread := n\<rparr>) = go cb base data (c'\<lparr>pos := pos c + 1\<rparr>\<lparr>nread := n'\<rparr>)"
    using n by (intro exI[of _ "n + 1"]) simp
qed


section \<open>The request line\<close>

lemma method_names:
  "map method_name all_methods = method_strings"
  by code_simp

text \<open>The part of the parser that a method's spelling depends on: the guess and the position.\<close>

definition method_next :: "http_method \<Rightarrow> nat \<Rightarrow> char \<Rightarrow> (http_method \<times> bool) option" where
  "method_next m i ch =
     (let matcher = method_name m
      in if ch = CHR 0x00 then None
         else if ch = CHR '' '' \<and> c_at matcher i = CHR 0x00 then Some (m, True)
         else if ch = c_at matcher i then Some (m, False)
         else if 65 \<le> char_code ch \<and> char_code ch \<le> 90 \<or> ch = CHR ''-'' then
           (case find (\<lambda>(m', j, x, _). m' = m \<and> j = i \<and> x = ch) method_switch of
              None \<Rightarrow> None | Some (_, _, _, m) \<Rightarrow> Some (m, False))
         else None)"

lemma method_char_next:
  "method_char ch P = map_option (\<lambda>(m, d). P\<lparr>hp_method := m, hp_state := (if d then S_req_spaces_before_url else hp_state P)\<rparr>)
     (method_next (hp_method P) (hp_index P) ch)"
  unfolding method_char_def method_next_def Let_def
  by (simp split: option.split prod.split)

fun spelled :: "http_method \<Rightarrow> nat \<Rightarrow> string \<Rightarrow> http_method option" where
  "spelled m i [] = None"
| "spelled m i (ch # s) =
     (case method_next m i ch of
        None \<Rightarrow> None
      | Some (m, d) \<Rightarrow> if d then (if s = [] then Some m else None) else spelled m ((i + 1) mod 32) s)"

lemma methods_spelled:
  "list_all (\<lambda>m. case method_name m @ '' '' of [] \<Rightarrow> False
     | ch # s \<Rightarrow> is_alpha ch \<and> (case first_method ch of None \<Rightarrow> False | Some g \<Rightarrow> spelled g 1 s = Some m)) all_methods"
  by code_simp

lemma all_methods: "m \<in> set all_methods"
  by (cases m) (simp_all add: all_methods_def)


text \<open>Configurations between two parts of a request, and the parser's fields that outlive them.\<close>

definition at_pos :: "http_parser \<Rightarrow> nat \<Rightarrow> nat option \<Rightarrow> nat option \<Rightarrow> 's \<Rightarrow> 's cfg" where
  "at_pos P p um us ob = \<lparr> pr = P, pos = p, field_mark = None, value_mark = None, url_mark = um, url_start_mark = us,
     body_mark = None, nread = 0, app = ob \<rparr>"

lemma at_pos_simps [simp]:
  "pr (at_pos P p um us ob) = P" "pos (at_pos P p um us ob) = p" "app (at_pos P p um us ob) = ob"
  "field_mark (at_pos P p um us ob) = None" "value_mark (at_pos P p um us ob) = None"
  "url_mark (at_pos P p um us ob) = um" "url_start_mark (at_pos P p um us ob) = us" "body_mark (at_pos P p um us ob) = None"
  "at_pos P p um us ob\<lparr>pr := P'\<rparr> = at_pos P' p um us ob" "at_pos P p um us ob\<lparr>pos := p'\<rparr> = at_pos P p' um us ob"
  "at_pos P p um us ob\<lparr>app := ob'\<rparr> = at_pos P p um us ob'" "at_pos P p um us ob\<lparr>url_mark := um'\<rparr> = at_pos P p um' us ob"
  "at_pos P p um us ob\<lparr>url_start_mark := us'\<rparr> = at_pos P p um us' ob"
  by (simp_all add: at_pos_def)

lemma nread_swaps:
  "c\<lparr>nread := n, pr := P\<rparr> = c\<lparr>pr := P, nread := n\<rparr>"
  "c\<lparr>nread := n, app := ob\<rparr> = c\<lparr>app := ob, nread := n\<rparr>"
  "c\<lparr>nread := n, url_mark := m\<rparr> = c\<lparr>url_mark := m, nread := n\<rparr>"
  "c\<lparr>nread := n, url_start_mark := m\<rparr> = c\<lparr>url_start_mark := m, nread := n\<rparr>"
  "c\<lparr>nread := n, field_mark := m\<rparr> = c\<lparr>field_mark := m, nread := n\<rparr>"
  "c\<lparr>nread := n, value_mark := m\<rparr> = c\<lparr>value_mark := m, nread := n\<rparr>"
  by (cases c; simp)+

lemma moves_one:
  assumes "small data" "drop p data = ch # s" "parsing_header (hp_state P)"
    and "\<And>n. exec_state cb base data ch (at_pos P p um us ob\<lparr>nread := n\<rparr>) = Advance (at_pos P' p um' us' ob'\<lparr>nread := n\<rparr>)"
  shows "moves cb base data (at_pos P p um us ob) (at_pos P' (p + 1) um' us' ob')"
  using moves_char[of data "at_pos P p um us ob" ch s cb base "at_pos P' p um' us' ob'"] assms by simp

definition with_method :: "http_method \<Rightarrow> 'h http_obj \<Rightarrow> 'h http_obj" where
  "with_method m ob = ob\<lparr>po_req := (po_req ob)\<lparr>req_method := m\<rparr>\<rparr>"

lemma with_method_twice [simp]: "with_method m (with_method m' ob) = with_method m ob"
  by (simp add: with_method_def)

lemma method_moves:
  assumes small: "small data"
  shows "drop p data = w @ s \<Longrightarrow> hp_state P = S_req_method \<Longrightarrow> spelled (hp_method P) (hp_index P) w = Some m \<Longrightarrow> hp_errno P = CHPE_OK \<Longrightarrow>
    \<exists>i. moves (http_callbacks hk) base data (at_pos P p um us ob)
      (at_pos (P\<lparr>hp_method := m, hp_state := S_req_spaces_before_url, hp_index := i\<rparr>) (p + length w) um us (with_method m ob))"
proof (induction w arbitrary: P p ob)
  case (Cons ch w)
  let ?cb = "http_callbacks hk"
  obtain g d where g: "method_next (hp_method P) (hp_index P) ch = Some (g, d)"
    using Cons.prems by (auto split: option.splits)
  let ?P = "P\<lparr>hp_method := g, hp_state := (if d then S_req_spaces_before_url else hp_state P),
      hp_index := (hp_index P + 1) mod 32\<rparr>"
  have one: "moves ?cb base data (at_pos P p um us ob) (at_pos ?P (p + 1) um us (with_method g ob))"
  proof (rule moves_one[OF small])
    show "drop p data = ch # w @ s" using Cons.prems by simp
    show "parsing_header (hp_state P)" using Cons.prems by (simp add: parsing_header_def)
    show "exec_state ?cb base data ch (at_pos P p um us ob\<lparr>nread := n\<rparr>) = Advance (at_pos ?P p um us (with_method g ob)\<lparr>nread := n\<rparr>)" for n
      using Cons.prems g
      by (simp add: exec_state_def do_req_method_def method_char_next notify_def http_callbacks_def apply_effect_def
          on_method_def with_method_def nread_swaps Let_def)
  qed
  have drop: "drop (p + 1) data = w @ s" using at_char Cons.prems(1) by (metis append_Cons)
  show ?case
  proof (cases d)
    case True
    then have "w = []" "m = g" using Cons.prems g by (auto split: if_splits)
    then show ?thesis using one True by auto
  next
    case False
    then have "spelled (hp_method ?P) (hp_index ?P) w = Some m" using Cons.prems g by simp
    from Cons.IH[OF drop _ this, of "with_method g ob"] False Cons.prems obtain i where
      "moves ?cb base data (at_pos ?P (p + 1) um us (with_method g ob))
        (at_pos (?P\<lparr>hp_method := m, hp_state := S_req_spaces_before_url, hp_index := i\<rparr>) (p + 1 + length w) um us (with_method m ob))"
      by auto
    with one have "moves ?cb base data (at_pos P p um us ob)
        (at_pos (?P\<lparr>hp_method := m, hp_state := S_req_spaces_before_url, hp_index := i\<rparr>) (p + 1 + length w) um us (with_method m ob))"
      by (rule moves_trans)
    then show ?thesis by (intro exI[of _ i]) simp
  qed
qed simp


definition reset_flags :: "http_parser \<Rightarrow> http_parser" where
  "reset_flags P = P\<lparr>f_chunked := False, f_keep_alive := False, f_close := False, f_trailing := False,
     f_upgrade := False, f_skipbody := False, f_contentlength := False, hp_uses_te := False,
     hp_content_length := ullong_max\<rparr>"

lemma reset_flags_simps [simp]:
  "hp_state (reset_flags P) = hp_state P" "hp_errno (reset_flags P) = hp_errno P" "hp_method (reset_flags P) = hp_method P"
  "hp_qs_point (reset_flags P) = hp_qs_point P"
  "f_chunked (reset_flags P) = False" "f_keep_alive (reset_flags P) = False" "f_close (reset_flags P) = False"
  "f_trailing (reset_flags P) = False" "f_upgrade (reset_flags P) = False" "f_skipbody (reset_flags P) = False"
  "f_contentlength (reset_flags P) = False" "hp_uses_te (reset_flags P) = False" "hp_content_length (reset_flags P) = ullong_max"
  by (simp_all add: reset_flags_def)

lemma start_moves:
  assumes "small data" "hp_errno P = CHPE_OK" "hp_state P = S_start_req" "drop p data = method_name m @ '' '' @ s"
  shows "\<exists>i. moves (http_callbacks hk) base data (at_pos P p um us ob)
      (at_pos ((reset_flags P)\<lparr>hp_method := m, hp_state := S_req_spaces_before_url, hp_index := i\<rparr>)
        (p + length (method_name m) + 1) um us (with_method m ob))"
proof -
  let ?cb = "http_callbacks hk"
  have "case method_name m @ '' '' of [] \<Rightarrow> False
     | ch # s \<Rightarrow> is_alpha ch \<and> (case first_method ch of None \<Rightarrow> False | Some g \<Rightarrow> spelled g 1 s = Some m)"
    using methods_spelled all_methods[of m] by (simp add: list_all_iff)
  then obtain ch w g where w: "method_name m @ '' '' = ch # w" "is_alpha ch" "first_method ch = Some g" "spelled g 1 w = Some m"
    by (auto split: list.splits option.splits)
  have ch: "ch \<noteq> CHR 0x0D" "ch \<noteq> CHR 0x0A" using w(2) by (auto simp: is_alpha_def lower_or_def char_code_def)
  let ?P = "(reset_flags P)\<lparr>hp_method := g, hp_state := S_req_method, hp_index := 1\<rparr>"
  have d: "drop p data = ch # w @ s" using assms(4) w(1) by (metis append_Cons append_assoc)
  have "moves ?cb base data (at_pos P p um us ob) (at_pos ?P (p + 1) um us ob)"
  proof (rule moves_one[OF assms(1) d])
    show "parsing_header (hp_state P)" using assms by (simp add: parsing_header_def)
    show "exec_state ?cb base data ch (at_pos P p um us ob\<lparr>nread := n\<rparr>) = Advance (at_pos ?P p um us ob\<lparr>nread := n\<rparr>)" for n
      using assms ch w
      by (simp add: exec_state_def do_start_req_def notify_def http_callbacks_def apply_effect_def nread_swaps Let_def reset_flags_def)
  qed
  moreover have "drop (p + 1) data = w @ s" using at_char[OF d] by simp
  then obtain i where "moves ?cb base data (at_pos ?P (p + 1) um us ob)
      (at_pos (?P\<lparr>hp_method := m, hp_state := S_req_spaces_before_url, hp_index := i\<rparr>) (p + 1 + length w) um us (with_method m ob))"
    using method_moves[OF assms(1), of "p + 1" w s ?P m hk base um us ob] assms(2) w(4) by auto
  moreover have "length (method_name m) = length w" using w(1) by (metis length_Cons length_append_singleton nat.inject)
  ultimately have "moves ?cb base data (at_pos P p um us ob)
      (at_pos ((reset_flags P)\<lparr>hp_method := m, hp_state := S_req_spaces_before_url, hp_index := i\<rparr>)
        (p + length (method_name m) + 1) um us (with_method m ob))"
    using moves_trans by (simp add: add.commute add.left_commute)
  then show ?thesis by blast
qed

text \<open>The URL of a request: a path of URL characters, and perhaps a query.\<close>

definition url_ok :: "string \<Rightarrow> string \<Rightarrow> bool" where
  "url_ok path q \<longleftrightarrow> (\<exists>w. path = CHR ''/'' # w) \<and> list_all is_url_char path
     \<and> (case q of [] \<Rightarrow> True | ch # w \<Rightarrow> ch = CHR ''?'' \<and> list_all (\<lambda>c. is_url_char c \<or> c = CHR ''?'') w)"

lemma url_char_not_space: "is_url_char c \<Longrightarrow>
   c \<noteq> CHR '' '' \<and> c \<noteq> CHR 0x0D \<and> c \<noteq> CHR 0x0A \<and> c \<noteq> CHR 0x09 \<and> c \<noteq> CHR 0x0C"
  by (auto simp: is_url_char_def char_code_def)

lemma path_moves:
  assumes "small data"
  shows "drop p data = w @ s \<Longrightarrow> list_all is_url_char w \<Longrightarrow> hp_state P = S_req_path \<Longrightarrow>
    moves cb base data (at_pos P p um us ob) (at_pos P (p + length w) um us ob)"
proof (induction w arbitrary: p)
  case (Cons ch w)
  have "moves cb base data (at_pos P p um us ob) (at_pos P (p + 1) um us ob)"
  proof (rule moves_one[OF assms])
    show "drop p data = ch # w @ s" using Cons.prems by simp
    show "parsing_header (hp_state P)" using Cons.prems by (simp add: parsing_header_def)
    show "exec_state cb base data ch (at_pos P p um us ob\<lparr>nread := n\<rparr>) = Advance (at_pos P p um us ob\<lparr>nread := n\<rparr>)" for n
      using Cons.prems url_char_not_space[of ch]
      by (cases P) (simp add: exec_state_def do_url_def url_char_def parse_url_char_def nread_swaps Let_def)
  qed
  moreover have "drop (p + 1) data = w @ s" using at_char Cons.prems(1) by (metis append_Cons)
  ultimately show ?case using Cons moves_trans by fastforce
qed (simp add: moves_refl)

lemma query_moves:
  assumes "small data"
  shows "drop p data = w @ s \<Longrightarrow> list_all (\<lambda>c. is_url_char c \<or> c = CHR ''?'') w \<Longrightarrow>
    hp_state P = S_req_query_string_start \<or> hp_state P = S_req_query_string \<Longrightarrow>
    \<exists>st. (st = S_req_query_string_start \<or> st = S_req_query_string) \<and>
      moves cb base data (at_pos P p um us ob) (at_pos (P\<lparr>hp_state := st\<rparr>) (p + length w) um us ob)"
proof (induction w arbitrary: p P)
  case Nil
  then show ?case by (intro exI[of _ "hp_state P"]) (simp add: moves_refl)
next
  case (Cons ch w)
  let ?P = "P\<lparr>hp_state := S_req_query_string\<rparr>"
  have "moves cb base data (at_pos P p um us ob) (at_pos ?P (p + 1) um us ob)"
  proof (rule moves_one[OF assms])
    show "drop p data = ch # w @ s" using Cons.prems by simp
    show "parsing_header (hp_state P)" using Cons.prems by (auto simp: parsing_header_def)
    show "exec_state cb base data ch (at_pos P p um us ob\<lparr>nread := n\<rparr>) = Advance (at_pos ?P p um us ob\<lparr>nread := n\<rparr>)" for n
      using Cons.prems url_char_not_space[of ch]
      by (cases P) (auto simp: exec_state_def do_url_def url_char_def parse_url_char_def nread_swaps Let_def)
  qed
  moreover have "drop (p + 1) data = w @ s" using at_char Cons.prems(1) by (metis append_Cons)
  with Cons.IH[of "p + 1" ?P] Cons.prems(2) obtain st where "st = S_req_query_string_start \<or> st = S_req_query_string"
      "moves cb base data (at_pos ?P (p + 1) um us ob) (at_pos (?P\<lparr>hp_state := st\<rparr>) (p + 1 + length w) um us ob)"
    by auto
  ultimately show ?case using moves_trans by (intro exI[of _ st]) fastforce
qed


lemma drop_append: "drop p data = w @ s \<Longrightarrow> drop (p + length w) data = s"
  by (metis add.commute append_eq_conv_conj drop_drop)

definition query_point :: "string \<Rightarrow> string \<Rightarrow> http_parser \<Rightarrow> nat" where
  "query_point path q P = (if q = [] then hp_qs_point P else length path)"

lemma url_chars_move:
  assumes "small data" "url_ok path q" "hp_state P = S_req_spaces_before_url" "hp_method P \<noteq> Connect"
    and d: "drop p data = path @ q @ s"
  shows "\<exists>st. st \<in> {S_req_path, S_req_query_string_start, S_req_query_string} \<and>
    moves cb base data (at_pos P p None None ob)
      (at_pos (P\<lparr>hp_qs_point := query_point path q P, hp_state := st\<rparr>) (p + length (path @ q)) (Some p) (Some p) ob)"
proof -
  obtain w where path: "path = CHR ''/'' # w" "list_all is_url_char w" using assms(2) by (auto simp: url_ok_def)
  let ?P1 = "P\<lparr>hp_state := S_req_path\<rparr>"
  have d1: "drop p data = CHR ''/'' # w @ q @ s" using d path by simp
  have "moves cb base data (at_pos P p None None ob) (at_pos ?P1 (p + 1) (Some p) (Some p) ob)"
  proof (rule moves_one[OF assms(1) d1])
    show "parsing_header (hp_state P)" using assms by (simp add: parsing_header_def)
    show "exec_state cb base data (CHR ''/'') (at_pos P p None None ob\<lparr>nread := n\<rparr>) =
        Advance (at_pos ?P1 p (Some p) (Some p) ob\<lparr>nread := n\<rparr>)" for n
      using assms
      by (cases P) (simp add: exec_state_def do_spaces_before_url_def mark_at_def url_char_def parse_url_char_def nread_swaps Let_def)
  qed
  also have "moves cb base data (at_pos ?P1 (p + 1) (Some p) (Some p) ob) (at_pos ?P1 (p + length path) (Some p) (Some p) ob)"
    using path_moves[OF assms(1), of "p + 1" w "q @ s" ?P1 cb base "Some p" "Some p" ob] path
      at_char[OF d1, THEN conjunct2, THEN conjunct2] by simp
  finally have m1: "moves cb base data (at_pos P p None None ob) (at_pos ?P1 (p + length path) (Some p) (Some p) ob)" .
  show ?thesis
  proof (cases q)
    case Nil
    then have "P\<lparr>hp_qs_point := query_point path q P, hp_state := S_req_path\<rparr> = ?P1" by (cases P) (simp add: query_point_def)
    with m1 Nil show ?thesis by (intro exI[of _ S_req_path]) simp
  next
    case (Cons ch v)
    then have v: "ch = CHR ''?''" "list_all (\<lambda>c. is_url_char c \<or> c = CHR ''?'') v"
      using assms(2) by (auto simp: url_ok_def)
    let ?P2 = "P\<lparr>hp_qs_point := length path, hp_state := S_req_query_string_start\<rparr>"
    have d2: "drop (p + length path) data = CHR ''?'' # v @ s" using drop_append[OF d] Cons v by simp
    have "moves cb base data (at_pos ?P1 (p + length path) (Some p) (Some p) ob)
        (at_pos ?P2 (p + length path + 1) (Some p) (Some p) ob)"
    proof (rule moves_one[OF assms(1) d2])
      show "parsing_header (hp_state ?P1)" by (simp add: parsing_header_def)
      show "exec_state cb base data (CHR ''?'') (at_pos ?P1 (p + length path) (Some p) (Some p) ob\<lparr>nread := n\<rparr>) =
          Advance (at_pos ?P2 (p + length path) (Some p) (Some p) ob\<lparr>nread := n\<rparr>)" for n
        by (cases P) (simp add: exec_state_def do_url_def url_char_def parse_url_char_def is_url_char_def nread_swaps Let_def)
    qed
    note m2 = moves_trans[OF m1 this]
    obtain st where st: "st = S_req_query_string_start \<or> st = S_req_query_string"
      "moves cb base data (at_pos ?P2 (p + length path + 1) (Some p) (Some p) ob)
        (at_pos (?P2\<lparr>hp_state := st\<rparr>) (p + length path + 1 + length v) (Some p) (Some p) ob)"
      using query_moves[OF assms(1), of "p + length path + 1" v s ?P2 cb base "Some p" "Some p" ob] v at_char[OF d2] by auto
    show ?thesis
      using moves_trans[OF m2 st(2)] st(1) Cons
      by (intro exI[of _ st]) (simp add: query_point_def add.assoc)
  qed
qed

lemma url_moves:
  assumes "small data" "url_ok path q" "hp_state P = S_req_spaces_before_url" "hp_method P \<noteq> Connect" "hp_errno P = CHPE_OK"
    and d: "drop p data = path @ q @ CHR '' '' # s"
    and P': "P' = P\<lparr>hp_qs_point := query_point path q P, hp_state := S_req_http_start\<rparr>"
    and hook: "call_hook (handle_url_hook hk) (on_url P' (path @ q) ob) = (ob', Unchanged)"
  shows "moves (http_callbacks hk) base data (at_pos P p None None ob) (at_pos P' (p + length (path @ q) + 1) None (Some p) ob')"
proof -
  let ?cb = "http_callbacks hk"
  obtain st where st: "st \<in> {S_req_path, S_req_query_string_start, S_req_query_string}"
    "moves ?cb base data (at_pos P p None None ob)
      (at_pos (P\<lparr>hp_qs_point := query_point path q P, hp_state := st\<rparr>) (p + length (path @ q)) (Some p) (Some p) ob)"
    using url_chars_move[OF assms(1-4) d, where cb = "http_callbacks hk" and base = base and ob = ob] by auto
  let ?Q = "P\<lparr>hp_qs_point := query_point path q P, hp_state := st\<rparr>"
  have d2: "drop (p + length (path @ q)) data = CHR '' '' # s" using drop_append[of p data "path @ q"] d by simp
  have slice: "slice data p (p + length (path @ q)) = path @ q" using d by (simp add: slice_def)
  have "moves ?cb base data (at_pos ?Q (p + length (path @ q)) (Some p) (Some p) ob)
     (at_pos P' (p + length (path @ q) + 1) None (Some p) ob')"
  proof (rule moves_one[OF assms(1) d2])
    show "parsing_header (hp_state ?Q)" using st(1) by (auto simp: parsing_header_def)
    have exec: "exec_state ?cb base data (CHR '' '') c = do_url ?cb base data (CHR '' '') c"
      if "pr c = ?Q" for c :: "'a http_obj cfg"
      using st(1) that by (auto simp: exec_state_def)
    show "exec_state ?cb base data (CHR '' '') (at_pos ?Q (p + length (path @ q)) (Some p) (Some p) ob\<lparr>nread := n\<rparr>) =
        Advance (at_pos P' (p + length (path @ q)) None (Some p) ob'\<lparr>nread := n\<rparr>)" for n
      using hook slice assms(5)
      by (simp add: exec do_url_def data_callback_def notify_def http_callbacks_def P' set_state_def apply_effect_def nread_swaps Let_def
          del: length_append)
  qed
  with st(2) show ?thesis using moves_trans by blast
qed


text \<open>The version: the states of \<open>do_version\<close> read a word of their own.\<close>

definition version_states :: "pstate set" where
  "version_states = {S_req_http_start, S_req_http_H, S_req_http_HT, S_req_http_HTT, S_req_http_HTTP, S_req_http_major,
     S_req_http_dot, S_req_http_minor, S_req_http_end, S_req_line_almost_done}"

primrec version_walk :: "string \<Rightarrow> http_parser \<Rightarrow> http_parser option" where
  "version_walk [] P = Some P"
| "version_walk (ch # w) P =
     (if hp_state P \<in> version_states then
        (case do_version ch (at_pos P 0 None None ()) of Advance c \<Rightarrow> version_walk w (pr c) | _ \<Rightarrow> None)
      else None)"

lemma version_local:
  assumes "do_version ch (at_pos P 0 None None ()) = Advance c"
  shows "do_version ch (at_pos P p um us ob\<lparr>nread := n\<rparr>) = Advance (at_pos (pr c) p um us ob\<lparr>nread := n\<rparr>)"
  using assms unfolding do_version_def
  by (cases "hp_state P") (auto simp: error_def strict_check_def set_state_def nread_swaps split: if_splits)

lemma version_moves:
  assumes "small data"
  shows "drop p data = w @ s \<Longrightarrow> version_walk w P = Some P' \<Longrightarrow>
    moves cb base data (at_pos P p um us ob) (at_pos P' (p + length w) um us ob)"
proof (induction w arbitrary: p P)
  case (Cons ch w)
  then obtain c where c: "hp_state P \<in> version_states" "do_version ch (at_pos P 0 None None ()) = Advance c"
      "version_walk w (pr c) = Some P'"
    by (auto split: if_splits outcome.splits)
  have d: "drop p data = ch # w @ s" using Cons.prems by simp
  have "moves cb base data (at_pos P p um us ob) (at_pos (pr c) (p + 1) um us ob)"
  proof (rule moves_one[OF assms d])
    show "parsing_header (hp_state P)" using c(1) by (auto simp: version_states_def parsing_header_def)
    show "exec_state cb base data ch (at_pos P p um us ob\<lparr>nread := n\<rparr>) = Advance (at_pos (pr c) p um us ob\<lparr>nread := n\<rparr>)" for n
      using c(1) version_local[OF c(2)] by (auto simp: exec_state_def version_states_def)
  qed
  moreover have "drop (p + 1) data = w @ s" using at_char[OF d] by blast
  ultimately show ?case using Cons.IH[of "p + 1"] c(3) moves_trans by fastforce
qed (simp add: moves_refl)

definition version_text :: "char \<Rightarrow> string" where
  "version_text d = ''HTTP/1.'' @ d # crlf"

lemma version_read:
  "isdigit d \<Longrightarrow> hp_state P = S_req_http_start \<Longrightarrow>
    version_walk (version_text d) P = Some (P\<lparr>hp_major := 1, hp_minor := digit_val d, hp_state := S_header_field_start\<rparr>)"
  by (simp add: version_text_def crlf_def version_states_def do_version_def strict_check_def set_state_def
      isdigit_def digit_val_def char_code_def)

section \<open>Header lines\<close>

lemma moves_jump:
  assumes "small data" "drop (pos c) data = ch # s" "parsing_header (hp_state (pr c))"
    and "pos c \<le> pos c'" "pos c' < length data" "k \<le> 2 * (pos c' - pos c) + 1"
    and step: "\<And>n. n + k \<le> max_header_size \<Longrightarrow> exec_state cb base data ch (c\<lparr>nread := n\<rparr>) = Advance (c'\<lparr>nread := n + k\<rparr>)"
  shows "moves cb base data c (c'\<lparr>pos := pos c' + 1\<rparr>)"
  unfolding moves_def
proof (intro allI impI)
  fix n assume n: "n \<le> 2 * pos c"
  have b: "n + 1 + k \<le> 2 * (pos c' + 1)" using n assms(4,6) by arith
  moreover have "2 * (pos c' + 1) \<le> max_header_size" using assms(1,5) by (simp add: small_def)
  ultimately have "go cb base data (c\<lparr>nread := n\<rparr>) = go cb base data (c'\<lparr>pos := pos c' + 1\<rparr>\<lparr>nread := n + 1 + k\<rparr>)"
    using go_header[of data "c\<lparr>nread := n\<rparr>" ch s cb base] assms(1-3) n step[of "n + 1"]
    by (simp add: run_simps nread_pos)
  then show "\<exists>n' \<le> 2 * pos (c'\<lparr>pos := pos c' + 1\<rparr>).
      go cb base data (c\<lparr>nread := n\<rparr>) = go cb base data (c'\<lparr>pos := pos c' + 1\<rparr>\<lparr>nread := n'\<rparr>)"
    using b by (intro exI[of _ "n + 1 + k"]) simp
qed

text \<open>The states that run before any other on the first byte of a line.\<close>

lemma moves_lws:
  assumes "small data" "drop p data = ch # s" "ch \<noteq> CHR '' ''" "ch \<noteq> CHR 0x09" "hp_state P = S_header_value_lws"
  shows "moves cb base data (at_pos P p um us ob) (at_pos ((finish_header P)\<lparr>hp_state := S_header_field_start\<rparr>) p um us ob)"
proof -
  have "parsing_header (hp_state P)" "parsing_header S_header_field_start"
    using assms(5) by (simp_all add: parsing_header_def)
  then have "go cb base data (at_pos P p um us ob\<lparr>nread := n\<rparr>) =
      go cb base data (at_pos ((finish_header P)\<lparr>hp_state := S_header_field_start\<rparr>) p um us ob\<lparr>nread := n\<rparr>)" if "n \<le> 2 * p" for n
    using go_header[of data "at_pos P p um us ob\<lparr>nread := n\<rparr>" ch s cb base]
      go_header[of data "at_pos ((finish_header P)\<lparr>hp_state := S_header_field_start\<rparr>) p um us ob\<lparr>nread := n\<rparr>" ch s cb base] assms that
    by (simp add: exec_state_def do_header_value_lws_def run_simps set_state_def nread_swaps)
  then show ?thesis by (auto simp: moves_def)
qed


text \<open>What \<open>do_header_field_start\<close> leaves after the first character of a name.\<close>

definition header_begin :: "string \<Rightarrow> http_parser \<Rightarrow> http_parser" where
  "header_begin k P = P\<lparr>hp_index := 0, hp_state := S_header_field, hp_header_state :=
     (let t = token (hd k) in
        if t = CHR ''c'' then H_C else if t = CHR ''p'' then H_matching_proxy_connection
        else if t = CHR ''t'' then H_matching_transfer_encoding else if t = CHR ''u'' then H_matching_upgrade
        else H_general)\<rparr>"

text \<open>The parser reads a value from \<open>Q\<close> (on its first character) to \<open>Q'\<close>, wherever it stands.\<close>

definition value_read :: "string \<Rightarrow> http_parser \<Rightarrow> http_parser \<Rightarrow> bool" where
  "value_read v P P' \<longleftrightarrow>
     (\<exists>Q. (\<forall>data q. value_start_char data q (hd v) (P\<lparr>hp_state := S_header_value, hp_index := 0\<rparr>) = Inr Q)
        \<and> (\<forall>s. value_loop (tl v @ CHR 0x0D # s) Q = (Value_cr, P', length (tl v))))"

definition text_ok :: "string \<Rightarrow> string \<Rightarrow> bool" where
  "text_ok k v \<longleftrightarrow> k \<noteq> [] \<and> list_all (\<lambda>c. token c \<noteq> CHR 0x00) k \<and> v \<noteq> [] \<and> hd v \<noteq> CHR '' '' \<and> hd v \<noteq> CHR 0x09
     \<and> list_all (\<lambda>c. is_header_char c \<and> c \<noteq> CHR 0x0D \<and> c \<noteq> CHR 0x0A) v"

definition with_header :: "string \<Rightarrow> string \<Rightarrow> 'h http_obj \<Rightarrow> 'h http_obj" where
  "with_header k v ob = on_header_value v (on_header_field k ob)"

lemma field_loop_stop:
  "list_all (\<lambda>c. token c \<noteq> CHR 0x00) w \<Longrightarrow> token ch = CHR 0x00 \<Longrightarrow>
    field_loop (w @ ch # s) P = (fold field_char w P, length w)"
  by (induction w arbitrary: P) auto

lemma fold_field_char_state: "hp_state (fold field_char w P) = hp_state P"
  by (induction w arbitrary: P) auto

lemma name_moves:
  assumes "small data" "k \<noteq> []" "list_all (\<lambda>c. token c \<noteq> CHR 0x00) k" "hp_state P = S_header_field_start"
    and "hp_errno (fold field_char (tl k) (header_begin k P)) = CHPE_OK"
    and d: "drop p data = k @ CHR '':'' # s"
  shows "moves (http_callbacks hk) base data (at_pos P p None us ob)
    (at_pos ((fold field_char (tl k) (header_begin k P))\<lparr>hp_state := S_header_value_discard_ws\<rparr>) (p + length k + 1)
       None us (on_header_field k ob))"
proof -
  let ?cb = "http_callbacks hk" and ?P = "fold field_char (tl k) (header_begin k P)"
  obtain ch w where k: "k = ch # w" using assms(2) by (cases k) auto
  have t: "token ch \<noteq> CHR 0x00" "list_all (\<lambda>c. token c \<noteq> CHR 0x00) w" using assms(3) k by auto
  have ch: "ch \<noteq> CHR 0x0D" "ch \<noteq> CHR 0x0A" using t(1) by (auto simp: token_def char_code_def isdigit_def)
  have d1: "drop p data = ch # w @ CHR '':'' # s" using d k by simp
  have d2: "drop (p + 1) data = w @ CHR '':'' # s" using at_char[OF d1] by blast
  have d3: "drop (p + 1 + length w) data = CHR '':'' # s" using drop_append[OF d2] .
  let ?c = "at_pos (header_begin k P) p None us ob\<lparr>field_mark := Some p\<rparr>"
  have "moves ?cb base data (at_pos P p None us ob) (?c\<lparr>pos := p + 1\<rparr>)"
  proof -
    have "moves ?cb base data (at_pos P p None us ob) (?c\<lparr>pos := pos (at_pos P p None us ob) + 1\<rparr>)"
    proof (rule moves_char[OF assms(1)])
      show "drop (pos (at_pos P p None us ob)) data = ch # w @ CHR '':'' # s" using d1 by simp
      show "parsing_header (hp_state (pr (at_pos P p None us ob)))" using assms(4) by (simp add: parsing_header_def)
      show "exec_state ?cb base data ch (at_pos P p None us ob\<lparr>nread := n\<rparr>) = Advance (?c\<lparr>nread := n\<rparr>)" for n
        using assms(4) t ch
        by (simp add: exec_state_def do_header_field_start_def header_begin_def k mark_at_def nread_swaps Let_def)
    qed simp
    then show ?thesis by simp
  qed
  also have "moves ?cb base data (?c\<lparr>pos := p + 1\<rparr>)
    (at_pos (?P\<lparr>hp_state := S_header_value_discard_ws\<rparr>) (p + 1 + length w) None us (on_header_field k ob)
       \<lparr>pos := p + 1 + length w + 1\<rparr>)"
  proof -
    let ?c1 = "?c\<lparr>pos := p + 1\<rparr>"
      and ?c2 = "at_pos (?P\<lparr>hp_state := S_header_value_discard_ws\<rparr>) (p + 1 + length w) None us (on_header_field k ob)"
    obtain ch' s' where d2': "drop (p + 1) data = ch' # s'" using d2 by (cases w) auto
    have len: "p + 1 + length w < length data" using at_char[OF d3] by blast
    have nth: "data ! (p + 1 + length w) = CHR '':''" using at_char[OF d3] by blast
    have slice: "slice data p (p + 1 + length w) = k" using d1 k by (simp add: slice_def)
    have "moves ?cb base data ?c1 (?c2\<lparr>pos := pos ?c2 + 1\<rparr>)"
    proof (rule moves_jump[OF assms(1)])
      show "drop (pos ?c1) data = ch' # s'" using d2' by simp
      show "parsing_header (hp_state (pr ?c1))" by (simp add: parsing_header_def header_begin_def)
      show "pos ?c2 < length data" using len by simp
      show "length w \<le> 2 * (pos ?c2 - pos ?c1) + 1" by simp
      have loop: "field_loop (drop (p + 1) data) (header_begin k P) = (?P, length w)"
        unfolding d2 using field_loop_stop[OF t(2), of "CHR '':''" s "header_begin k P"] k by (simp add: token_def isdigit_def char_code_def)
      show "exec_state ?cb base data ch' (?c1\<lparr>nread := n\<rparr>) = Advance (?c2\<lparr>nread := n + length w\<rparr>)"
        if "n + length w \<le> max_header_size" for n
        using that loop len nth slice assms(5)
        by (simp add: exec_state_def header_begin_def do_header_field_def count_header_def data_callback_def notify_def
            http_callbacks_def set_state_def apply_effect_def nread_swaps Let_def at_pos_def)
    qed simp
    then show ?thesis by simp
  qed
  finally show ?thesis using k by (simp add: add.assoc)
qed


lemma crlf_char: "token (CHR '':'') = CHR 0x00"
  by (simp add: token_def isdigit_def char_code_def)

lemma value_moves:
  assumes "small data" "v \<noteq> []" "hd v \<noteq> CHR '' ''" "hd v \<noteq> CHR 0x09" "hd v \<noteq> CHR 0x0D" "hd v \<noteq> CHR 0x0A"
    and P: "hp_state P = S_header_value_discard_ws" "value_read v P P'" "hp_errno P' = CHPE_OK"
    and d: "drop p data = CHR '' '' # v @ crlf @ s"
  shows "moves (http_callbacks hk) base data (at_pos P p None us ob)
    (at_pos (P'\<lparr>hp_state := S_header_value_lws\<rparr>) (p + length v + 3) None us (on_header_value v ob))"
proof -
  let ?cb = "http_callbacks hk"
  obtain ch w where v: "v = ch # w" using assms(2) by (cases v) auto
  obtain Q where Q: "\<And>data q. value_start_char data q ch (P\<lparr>hp_state := S_header_value, hp_index := 0\<rparr>) = Inr Q"
      "\<And>s. value_loop (w @ CHR 0x0D # s) Q = (Value_cr, P', length w)"
    using P(2) v by (auto simp: value_read_def)
  have Q_state: "hp_state Q = S_header_value"
    using value_start_char_state[OF Q(1)] by simp
  have d1: "drop (p + 1) data = ch # w @ CHR 0x0D # CHR 0x0A # s"
    using at_char[OF d] v by (simp add: crlf_def)
  have d2: "drop (p + 2) data = w @ CHR 0x0D # CHR 0x0A # s" using at_char[OF d1] by simp
  have d3: "drop (p + 2 + length w) data = CHR 0x0D # CHR 0x0A # s" using drop_append[OF d2] .
  have d4: "drop (p + 3 + length w) data = CHR 0x0A # s" using at_char[OF d3] by (simp add: eval_nat_numeral)
  have "moves ?cb base data (at_pos P p None us ob) (at_pos P (p + 1) None us ob)"
  proof (rule moves_one[OF assms(1) d])
    show "parsing_header (hp_state P)" using P(1) by (simp add: parsing_header_def)
    show "exec_state ?cb base data (CHR '' '') (at_pos P p None us ob\<lparr>nread := n\<rparr>) = Advance (at_pos P p None us ob\<lparr>nread := n\<rparr>)" for n
      using P(1) by (simp add: exec_state_def do_discard_ws_def)
  qed
  also have "moves ?cb base data (at_pos P (p + 1) None us ob) (at_pos Q (p + 2) None us ob\<lparr>value_mark := Some (p + 1)\<rparr>)"
  proof -
    let ?c = "at_pos P (p + 1) None us ob" and ?c' = "at_pos Q (p + 1) None us ob\<lparr>value_mark := Some (p + 1)\<rparr>"
    have "moves ?cb base data ?c (?c'\<lparr>pos := pos ?c + 1\<rparr>)"
    proof (rule moves_char[OF assms(1)])
      show "drop (pos ?c) data = ch # w @ CHR 0x0D # CHR 0x0A # s" using d1 by simp
      show "parsing_header (hp_state (pr ?c))" using P(1) by (simp add: parsing_header_def)
      show "exec_state ?cb base data ch (?c\<lparr>nread := n\<rparr>) = Advance (?c'\<lparr>nread := n\<rparr>)" for n
        using P(1) assms(3-6) v Q(1)
        by (simp add: exec_state_def do_discard_ws_def do_header_value_start_def mark_at_def nread_swaps Let_def at_pos_def)
    qed simp
    then show ?thesis by (simp add: at_pos_def)
  qed
  also have "moves ?cb base data (at_pos Q (p + 2) None us ob\<lparr>value_mark := Some (p + 1)\<rparr>)
      (at_pos (P'\<lparr>hp_state := S_header_almost_done\<rparr>) (p + 3 + length w) None us (on_header_value v ob))"
  proof -
    let ?c = "at_pos Q (p + 2) None us ob\<lparr>value_mark := Some (p + 1)\<rparr>"
      and ?c' = "at_pos (P'\<lparr>hp_state := S_header_almost_done\<rparr>) (p + 2 + length w) None us (on_header_value v ob)"
    obtain ch' s' where d2': "drop (p + 2) data = ch' # s'" using d2 by (cases w) auto
    have slice: "slice data (p + 1) (p + 2 + length w) = v" using d1 v by (simp add: slice_def)
    have hs: "P'\<lparr>hp_state := S_header_almost_done, hp_header_state := hp_header_state P'\<rparr> = P'\<lparr>hp_state := S_header_almost_done\<rparr>"
      by (cases P') simp
    have "moves ?cb base data ?c (?c'\<lparr>pos := pos ?c' + 1\<rparr>)"
    proof (rule moves_jump[OF assms(1)])
      show "drop (pos ?c) data = ch' # s'" using d2' by simp
      show "parsing_header (hp_state (pr ?c))" using Q_state by (simp add: parsing_header_def)
      show "pos ?c' < length data" using at_char[OF d3] by simp
      show "length w \<le> 2 * (pos ?c' - pos ?c) + 1" by simp
      have loop: "value_loop (drop (p + 2) data) Q = (Value_cr, P', length w)" unfolding d2 by (rule Q(2))
      show "exec_state ?cb base data ch' (?c\<lparr>nread := n\<rparr>) = Advance (?c'\<lparr>nread := n + length w\<rparr>)"
        if "n + length w \<le> max_header_size" for n
        using that Q_state loop slice P(3) hs
        by (simp add: exec_state_def do_header_value_def count_header_def data_callback_def notify_def
            http_callbacks_def set_state_def set_header_state_def apply_effect_def nread_swaps Let_def at_pos_def)
    qed simp
    then show ?thesis by (simp add: eval_nat_numeral)
  qed
  also have "moves ?cb base data (at_pos (P'\<lparr>hp_state := S_header_almost_done\<rparr>) (p + 3 + length w) None us (on_header_value v ob))
      (at_pos (P'\<lparr>hp_state := S_header_value_lws\<rparr>) (p + 3 + length w + 1) None us (on_header_value v ob))"
  proof (rule moves_one[OF assms(1) d4])
    show "parsing_header (hp_state (P'\<lparr>hp_state := S_header_almost_done\<rparr>))" by (simp add: parsing_header_def)
    show "exec_state ?cb base data (CHR 0x0A)
        (at_pos (P'\<lparr>hp_state := S_header_almost_done\<rparr>) (p + 3 + length w) None us (on_header_value v ob)\<lparr>nread := n\<rparr>) =
      Advance (at_pos (P'\<lparr>hp_state := S_header_value_lws\<rparr>) (p + 3 + length w) None us (on_header_value v ob)\<lparr>nread := n\<rparr>)" for n
      by (simp add: exec_state_def do_header_almost_done_def set_state_def nread_swaps)
  qed
  finally show ?thesis using v by (simp add: eval_nat_numeral)
qed

text \<open>The parser after a header line.\<close>

definition after_header :: "http_parser \<Rightarrow> http_parser" where
  "after_header P = (finish_header (P\<lparr>hp_state := S_header_value_lws\<rparr>))\<lparr>hp_state := S_header_field_start\<rparr>"

lemma header_moves:
  assumes "small data" "text_ok k v" "hp_state P = S_header_field_start"
    and "hp_errno (fold field_char (tl k) (header_begin k P)) = CHPE_OK"
    and "value_read v ((fold field_char (tl k) (header_begin k P))\<lparr>hp_state := S_header_value_discard_ws\<rparr>) P'"
    and "hp_errno P' = CHPE_OK"
    and d: "drop p data = header_line k v @ ch # s" and ch: "ch \<noteq> CHR '' ''" "ch \<noteq> CHR 0x09"
  shows "moves (http_callbacks hk) base data (at_pos P p None us ob)
    (at_pos (after_header P') (p + length (header_line k v)) None us (with_header k v ob))"
proof -
  let ?cb = "http_callbacks hk"
    and ?P = "(fold field_char (tl k) (header_begin k P))\<lparr>hp_state := S_header_value_discard_ws\<rparr>"
  have ok: "k \<noteq> []" "list_all (\<lambda>c. token c \<noteq> CHR 0x00) k" "v \<noteq> []" "hd v \<noteq> CHR '' ''" "hd v \<noteq> CHR 0x09"
      "hd v \<noteq> CHR 0x0D" "hd v \<noteq> CHR 0x0A"
    using assms(2) by (cases v; auto simp: text_ok_def)+
  have d1: "drop p data = k @ CHR '':'' # CHR '' '' # v @ crlf @ ch # s"
    using d by (simp add: header_line_def)
  have d2: "drop (p + length k + 1) data = CHR '' '' # v @ crlf @ ch # s"
    using at_char[OF drop_append[OF d1]] by blast
  have d3: "drop (p + length k + 1 + length v + 3) data = ch # s"
    using drop_append[of "p + length k + 1" data "CHR '' '' # v @ crlf"] d2 by (simp add: crlf_def eval_nat_numeral)
  have "moves ?cb base data (at_pos P p None us ob) (at_pos ?P (p + length k + 1) None us (on_header_field k ob))"
    by (rule name_moves[OF assms(1) ok(1,2) assms(3,4) d1])
  also have "moves ?cb base data (at_pos ?P (p + length k + 1) None us (on_header_field k ob))
      (at_pos (P'\<lparr>hp_state := S_header_value_lws\<rparr>) (p + length k + 1 + length v + 3) None us (with_header k v ob))"
    unfolding with_header_def by (rule value_moves[OF assms(1) ok(3-) _ assms(5,6) d2]) simp
  also have "moves ?cb base data (at_pos (P'\<lparr>hp_state := S_header_value_lws\<rparr>) (p + length k + 1 + length v + 3) None us (with_header k v ob))
      (at_pos (after_header P') (p + length k + 1 + length v + 3) None us (with_header k v ob))"
    unfolding after_header_def by (rule moves_lws[OF assms(1) d3 ch]) simp
  finally show ?thesis by (simp add: header_line_def crlf_def eval_nat_numeral add.commute add.left_commute)
qed

end
