(* ===== verification/HeaderNames.thy ===== *)
theory HeaderNames
  imports HttpRequest
begin

text \<open>
  How the parser recognises the header names it treats specially: the little automaton that follows a
  name letter by letter is shown to compare the whole name with the five known ones, ignoring case.
\<close>

section \<open>Recognising header names\<close>

text \<open>
  The names the parser looks for, the state in which it is matching each, and the state when the name
  is complete.  \<open>name_track w h i\<close> is what the states say after the (lower-case) characters \<open>w\<close>.
\<close>

definition known_names :: "(string \<times> header_state \<times> header_state) list" where
  "known_names =
     [(''connection'', H_matching_connection, H_connection),
      (''content-length'', H_matching_content_length, H_content_length),
      (''proxy-connection'', H_matching_proxy_connection, H_connection),
      (''transfer-encoding'', H_matching_transfer_encoding, H_transfer_encoding),
      (''upgrade'', H_matching_upgrade, H_upgrade)]"

definition name_track :: "string \<Rightarrow> header_state \<Rightarrow> nat \<Rightarrow> bool" where
  "name_track w h i \<longleftrightarrow>
     (w, h, i) \<in> {(''c'', H_C, 0), (''co'', H_CO, 1), (''con'', H_CON, 2)}
     \<or> (\<exists>(X, M, ok) \<in> set known_names. strict_prefix w X \<and> w \<noteq> [] \<and> (hd X = CHR ''c'' \<longrightarrow> 4 \<le> length w) \<and> h = M \<and> i = length w - 1)
     \<or> (\<exists>(X, M, ok) \<in> set known_names. w = X \<and> h = ok)
     \<or> h = H_general \<and> (\<forall>(X, M, ok) \<in> set known_names. \<not> prefix w X)"

definition name_step :: "char \<Rightarrow> header_state \<times> nat \<Rightarrow> header_state \<times> nat" where
  "name_step ch = (\<lambda>(h, i).
     (let P = field_char ch (http_parser_init\<lparr>hp_header_state := h, hp_index := i\<rparr>)
      in (hp_header_state P, hp_index P)))"

lemma field_char_step:
  "field_char ch P =
     (let (h, i) = name_step ch (hp_header_state P, hp_index P)
      in P\<lparr>hp_header_state := h, hp_index := i,
           hp_uses_te := (hp_uses_te P \<or> hp_header_state P = H_matching_transfer_encoding \<and> h = H_transfer_encoding)\<rparr>)"
  unfolding field_char_def name_step_def Let_def
  by (cases "hp_header_state P"; cases P) (simp_all add: match_name_def bump_index_def Let_def http_parser_init_def)


lemma name_step_cases:
  "name_step ch (H_C, i) = (if token ch = CHR ''o'' then H_CO else H_general, (i + 1) mod 32)"
  "name_step ch (H_CO, i) = (if token ch = CHR ''n'' then H_CON else H_general, (i + 1) mod 32)"
  "name_step ch (H_CON, i) = (if token ch = CHR ''n'' then H_matching_connection
     else if token ch = CHR ''t'' then H_matching_content_length else H_general, (i + 1) mod 32)"
  "name_step ch (H_general, i) = (H_general, i)"
  by (simp_all add: name_step_def field_char_def bump_index_def)

lemma name_step_match:
  assumes "(X, M, ok) \<in> set known_names" "i + 1 < length X"
  shows "name_step ch (M, i) = (if token ch \<noteq> X ! (i + 1) then H_general else if i + 2 = length X then ok else M, i + 1)"
  using assms by (auto simp: known_names_def name_step_def field_char_def match_name_def c_at_def Let_def)

lemma name_step_end:
  assumes "(X, M, ok) \<in> set known_names" "ch \<noteq> CHR '' ''"
  shows "name_step ch (ok, i) = (H_general, i)"
  using assms by (auto simp: known_names_def name_step_def field_char_def)

text \<open>Four characters tell the names apart, and one those that do not start with c.\<close>

lemma known_names_differ:
  "list_all (\<lambda>(X, _, _). list_all (\<lambda>(Y, _, _).
     (take 4 X = take 4 Y \<longrightarrow> X = Y) \<and> (hd X = hd Y \<longrightarrow> X = Y \<or> hd X = CHR ''c'')) known_names) known_names"
  by code_simp

lemma known_names_apart:
  assumes "(X, M, ok) \<in> set known_names" "(Y, N, ok') \<in> set known_names" "prefix w X" "prefix w Y" "w \<noteq> []"
    and "hd X = CHR ''c'' \<longrightarrow> 4 \<le> length w"
  shows "Y = X"
proof -
  have differ: "take 4 X = take 4 Y \<longrightarrow> X = Y" "hd X = hd Y \<longrightarrow> X = Y \<or> hd X = CHR ''c''"
    using known_names_differ assms(1,2) by (auto simp: list_all_iff)
  have "hd X = hd Y" using assms(3-5) by (auto simp: prefix_def)
  moreover have "take 4 X = take 4 Y" if "4 \<le> length w" using assms(3,4) that by (auto simp: prefix_def)
  ultimately show ?thesis using differ assms(6) by auto
qed

lemma known_name_nonempty: "(X, M, ok) \<in> set known_names \<Longrightarrow> X \<noteq> []"
  by (auto simp: known_names_def)

lemma name_track_step:
  assumes t: "name_track w h i" and w: "w \<noteq> []" and k: "token ch \<noteq> CHR 0x00"
  shows "case name_step ch (h, i) of (h', i') \<Rightarrow> name_track (w @ [token ch]) h' i'"
proof -
  have "ch \<noteq> CHR '' ''" using k by (auto simp: token_def isdigit_def char_code_def)
  consider (c) "w = ''c''" "h = H_C" "i = 0" | (co) "w = ''co''" "h = H_CO" "i = 1" | (con) "w = ''con''" "h = H_CON" "i = 2"
    | (matching) X M ok where "(X, M, ok) \<in> set known_names" "strict_prefix w X" "hd X = CHR ''c'' \<longrightarrow> 4 \<le> length w"
        "h = M" "i = length w - 1"
    | (complete) X M ok where "(X, M, ok) \<in> set known_names" "w = X" "h = ok"
    | (general) "h = H_general" "\<forall>(X, M, ok) \<in> set known_names. \<not> prefix w X"
    using t unfolding name_track_def by blast
  then show ?thesis
  proof cases
    case c
    then show ?thesis by (auto simp: name_step_cases name_track_def known_names_def)
  next
    case co
    then show ?thesis by (auto simp: name_step_cases name_track_def known_names_def)
  next
    case con
    then show ?thesis by (auto simp: name_step_cases name_track_def known_names_def strict_prefix_def)
  next
    case matching
    from matching(2) obtain x r where X: "X = w @ x # r" by (rule strict_prefixE')
    have "i + 1 = length w" using matching w by (cases w) auto
    then have step: "name_step ch (h, i) = (if token ch \<noteq> x then H_general else if r = [] then ok else M, length w)"
      using name_step_match[OF matching(1), of i ch] X matching(4) by (auto simp: nth_append)
    have no: "\<forall>(Y, N, ok') \<in> set known_names. \<not> prefix (w @ [token ch]) Y" if "token ch \<noteq> x"
    proof (intro ballI, clarify)
      fix Y N ok' assume Y: "(Y, N, ok') \<in> set known_names" "prefix (w @ [token ch]) Y"
      then have "Y = X" using known_names_apart[OF matching(1) Y(1)] matching(2,3) w
        by (auto simp: strict_prefix_def dest: append_prefixD)
      with Y(2) X that show False by simp
    qed
    show ?thesis
    proof (cases "token ch = x")
      case True
      then show ?thesis
      proof (cases "r = []")
        case True
        with \<open>token ch = x\<close> step X matching(1) show ?thesis by (auto simp: name_track_def)
      next
        case False
        then have "strict_prefix (w @ [token ch]) X" using X True by (auto simp: strict_prefix_def)
        with False True step matching(1,3) w show ?thesis
          unfolding name_track_def by (auto simp: less_Suc_eq_le)
      qed
    next
      case False
      with no step show ?thesis by (auto simp: name_track_def)
    qed
  next
    case complete
    have "\<not> prefix (w @ [token ch]) Y" if "(Y, N, ok') \<in> set known_names" for Y N ok'
      using complete(1,2) that by (auto simp: known_names_def)
    with complete name_step_end[OF complete(1) \<open>ch \<noteq> CHR '' ''\<close>] show ?thesis by (auto simp: name_track_def)
  next
    case general
    then have "\<forall>(X, M, ok) \<in> set known_names. \<not> prefix (w @ [token ch]) X"
      by (auto dest: append_prefixD)
    with general show ?thesis by (simp add: name_step_cases name_track_def)
  qed
qed


lemma token_lower: "token c \<noteq> CHR 0x00 \<Longrightarrow> token c = tolower c"
  by (auto simp: token_def tolower_def isdigit_def char_code_def split: if_splits)

lemma name_track_start:
  assumes "k \<noteq> []"
  shows "name_track [token (hd k)] (hp_header_state (header_begin k P)) 0"
  unfolding name_track_def header_begin_def known_names_def Let_def
  by (auto simp: strict_prefix_def)

lemma name_track_te:
  assumes "name_track w h i" "w \<noteq> []" "name_track (w @ [x]) h' i'"
  shows "prefix ''transfer-encoding'' (w @ [x]) \<longleftrightarrow>
    prefix ''transfer-encoding'' w \<or> h = H_matching_transfer_encoding \<and> h' = H_transfer_encoding"
proof -
  have "h = H_matching_transfer_encoding" if "w @ [x] = ''transfer-encoding''"
  proof -
    have "w = butlast ''transfer-encoding''" using that by (metis butlast_snoc)
    then show ?thesis using assms(1) by (auto simp: name_track_def known_names_def)
  qed
  moreover have "h' = H_transfer_encoding" if "w @ [x] = ''transfer-encoding''"
    using assms(3) unfolding that by (auto simp: name_track_def known_names_def)
  moreover have "w @ [x] = ''transfer-encoding''" if "h' = H_transfer_encoding"
    using assms(3) that by (auto simp: name_track_def known_names_def)
  moreover have "prefix ''transfer-encoding'' (w @ [x]) \<longleftrightarrow> ''transfer-encoding'' = w @ [x] \<or> prefix ''transfer-encoding'' w"
    by (rule prefix_snoc)
  ultimately show ?thesis by metis
qed

text \<open>The whole loop over the rest of a name.\<close>

lemma fold_name_track:
  assumes "name_track w (hp_header_state P) (hp_index P)" "w \<noteq> []" "list_all (\<lambda>c. token c \<noteq> CHR 0x00) ks"
    and "hp_uses_te P \<longleftrightarrow> te \<or> prefix ''transfer-encoding'' w"
  shows "\<exists>h i. name_track (w @ map token ks) h i \<and>
    fold field_char ks P = P\<lparr>hp_header_state := h, hp_index := i, hp_uses_te := (te \<or> prefix ''transfer-encoding'' (w @ map token ks))\<rparr>"
  using assms
proof (induction ks arbitrary: w P)
  case Nil
  then show ?case by (intro exI[of _ "hp_header_state P"] exI[of _ "hp_index P"]) (cases P; simp)
next
  case (Cons ch ks)
  obtain h i where hi: "name_step ch (hp_header_state P, hp_index P) = (h, i)" by (cases "name_step ch (hp_header_state P, hp_index P)")
  have t: "name_track (w @ [token ch]) h i"
    using name_track_step[OF Cons.prems(1,2), of ch] Cons.prems(3) hi by simp
  let ?P = "field_char ch P"
  have P: "?P = P\<lparr>hp_header_state := h, hp_index := i,
      hp_uses_te := (hp_uses_te P \<or> hp_header_state P = H_matching_transfer_encoding \<and> h = H_transfer_encoding)\<rparr>"
    by (simp add: field_char_step hi)
  have "hp_uses_te ?P \<longleftrightarrow> te \<or> prefix ''transfer-encoding'' (w @ [token ch])"
    using name_track_te[OF Cons.prems(1,2) t] Cons.prems(4) P by auto
  from Cons.IH[of "w @ [token ch]" ?P, OF _ _ _ this] t P Cons.prems(3) obtain h' i' where
    "name_track (w @ map token (ch # ks)) h' i'"
    "fold field_char ks ?P = ?P\<lparr>hp_header_state := h', hp_index := i', hp_uses_te := (te \<or> prefix ''transfer-encoding'' (w @ map token (ch # ks)))\<rparr>"
    by auto
  then show ?case unfolding fold_simps o_apply using P
    by (intro exI[of _ h'] exI[of _ i']) simp
qed

lemma names_recognised:
  assumes "k \<noteq> []" "list_all (\<lambda>c. token c \<noteq> CHR 0x00) k"
  shows "\<exists>h i. name_track (map tolower k) h i \<and>
    fold field_char (tl k) (header_begin k P) = P\<lparr>hp_state := S_header_field, hp_header_state := h, hp_index := i,
      hp_uses_te := (hp_uses_te P \<or> prefix ''transfer-encoding'' (map tolower k))\<rparr>"
proof -
  obtain ch ks where k: "k = ch # ks" using assms(1) by (cases k) auto
  have w: "map tolower k = [token ch] @ map token ks"
    using assms(2) token_lower by (auto simp: k list_all_iff)
  have "name_track [token ch] (hp_header_state (header_begin k P)) (hp_index (header_begin k P))"
    using name_track_start[OF assms(1), of P] by (simp add: k) (simp add: header_begin_def)
  moreover have "hp_uses_te (header_begin k P) \<longleftrightarrow> hp_uses_te P \<or> prefix ''transfer-encoding'' [token ch]"
    by (simp add: header_begin_def)
  moreover have "list_all (\<lambda>c. token c \<noteq> CHR 0x00) ks" using assms(2) k by simp
  ultimately obtain h i where hi: "name_track ([token ch] @ map token ks) h i"
      "fold field_char ks (header_begin k P) = (header_begin k P)\<lparr>hp_header_state := h, hp_index := i,
         hp_uses_te := (hp_uses_te P \<or> prefix ''transfer-encoding'' ([token ch] @ map token ks))\<rparr>"
    using fold_name_track[of "[token ch]" "header_begin k P" ks "hp_uses_te P"] by blast
  have "(header_begin k P)\<lparr>hp_header_state := h, hp_index := i, hp_uses_te := t\<rparr> =
      P\<lparr>hp_state := S_header_field, hp_header_state := h, hp_index := i, hp_uses_te := t\<rparr>" for t
    by (simp add: header_begin_def)
  with hi show ?thesis unfolding w by (intro exI[of _ h] exI[of _ i]) (simp add: k)
qed


text \<open>What the automaton knows at the end of a name.\<close>

lemma name_track_known:
  assumes "name_track w h i"
  shows "(h = H_connection \<longleftrightarrow> w = ''connection'' \<or> w = ''proxy-connection'')
    \<and> (h = H_content_length \<longleftrightarrow> w = ''content-length'')
    \<and> (h = H_transfer_encoding \<longleftrightarrow> w = ''transfer-encoding'')
    \<and> (h = H_upgrade \<longleftrightarrow> w = ''upgrade'')"
proof -
  have "w = ''connection'' \<or> w = ''proxy-connection''" if "h = H_connection"
    using assms that by (auto simp: name_track_def known_names_def)
  moreover have "w = ''content-length''" if "h = H_content_length"
    using assms that by (auto simp: name_track_def known_names_def)
  moreover have "w = ''transfer-encoding''" if "h = H_transfer_encoding"
    using assms that by (auto simp: name_track_def known_names_def)
  moreover have "w = ''upgrade''" if "h = H_upgrade"
    using assms that by (auto simp: name_track_def known_names_def)
  moreover have "h = H_connection" if "w = ''connection''"
    using assms unfolding that by (auto simp: name_track_def known_names_def)
  moreover have "h = H_connection" if "w = ''proxy-connection''"
    using assms unfolding that by (auto simp: name_track_def known_names_def)
  moreover have "h = H_content_length" if "w = ''content-length''"
    using assms unfolding that by (auto simp: name_track_def known_names_def)
  moreover have "h = H_transfer_encoding" if "w = ''transfer-encoding''"
    using assms unfolding that by (auto simp: name_track_def known_names_def)
  moreover have "h = H_upgrade" if "w = ''upgrade''"
    using assms unfolding that by (auto simp: name_track_def known_names_def)
  ultimately show ?thesis by metis
qed

definition name_states :: "header_state set" where
  "name_states = {H_general, H_C, H_CO, H_CON, H_matching_connection, H_matching_proxy_connection, H_matching_content_length,
     H_matching_transfer_encoding, H_matching_upgrade, H_connection, H_content_length, H_transfer_encoding, H_upgrade}"

lemma name_track_states: "name_track w h i \<Longrightarrow> h \<in> name_states"
  by (auto simp: name_track_def known_names_def name_states_def)

section \<open>Properties\<close>

text \<open>C10. A header name is recognised as a whole and in any case: after a name of token characters the
  parser is in the state for Connection, Content-Length, Transfer-Encoding or Upgrade exactly when
  the name in lower case is that name (or Proxy-Connection, for the first).  Only the flag for
  Transfer-Encoding is set by every name that begins with it.\<close>

theorem header_names_exact:
  assumes "k \<noteq> []" and "list_all (\<lambda>c. token c \<noteq> CHR 0x00) k"
  shows "\<exists>c'. do_header_field_start (hd k) c = Advance c'
    \<and> (let P' = fst (field_loop (tl k @ CHR '':'' # s) (pr c')); h = hp_header_state P'; w = lower_string k
       in (h = H_connection \<longleftrightarrow> w = ''connection'' \<or> w = ''proxy-connection'')
          \<and> (h = H_content_length \<longleftrightarrow> w = ''content-length'')
          \<and> (h = H_transfer_encoding \<longleftrightarrow> w = ''transfer-encoding'')
          \<and> (h = H_upgrade \<longleftrightarrow> w = ''upgrade'')
          \<and> (hp_uses_te P' \<longleftrightarrow> hp_uses_te (pr c) \<or> prefix ''transfer-encoding'' w))"
proof -
  have ch: "token (hd k) \<noteq> CHR 0x00" using assms by (cases k) auto
  then have "hd k \<noteq> CHR 0x0D" "hd k \<noteq> CHR 0x0A" by (auto simp: token_def char_code_def isdigit_def)
  with ch have start: "do_header_field_start (hd k) c =
      Advance (c\<lparr>field_mark := mark_at (pos c) (field_mark c), pr := header_begin k (pr c)\<rparr>)"
    by (simp add: do_header_field_start_def header_begin_def Let_def)
  obtain h i where hi: "name_track (lower_string k) h i"
      "fold field_char (tl k) (header_begin k (pr c)) = (pr c)\<lparr>hp_state := S_header_field, hp_header_state := h, hp_index := i,
        hp_uses_te := (hp_uses_te (pr c) \<or> prefix ''transfer-encoding'' (lower_string k))\<rparr>"
    using names_recognised[OF assms] by blast
  have "list_all (\<lambda>c. token c \<noteq> CHR 0x00) (tl k)" using assms(2) by (cases k) auto
  then have "fst (field_loop (tl k @ CHR '':'' # s) (header_begin k (pr c))) = fold field_char (tl k) (header_begin k (pr c))"
    using field_loop_stop crlf_char by simp
  with start hi name_track_known[OF hi(1)] show ?thesis by (simp add: Let_def)
qed

theorem header_names_exact_witness:
  "\<exists>c'. do_header_field_start (CHR ''C'') (start_cfg http_parser_init ()) = Advance c'
     \<and> hp_header_state (fst (field_loop ''ONTENT-length:'' (pr c'))) = H_content_length"
proof -
  have k: "''CONTENT-length'' \<noteq> []" by simp
  have t: "list_all (\<lambda>c. token c \<noteq> CHR 0x00) ''CONTENT-length''" by code_simp
  have low: "lower_string ''CONTENT-length'' = ''content-length''" by code_simp
  have parts: "hd ''CONTENT-length'' = CHR ''C''" "tl ''CONTENT-length'' @ CHR '':'' # [] = ''ONTENT-length:''" by simp_all
  from header_names_exact[OF k t, of "start_cfg http_parser_init ()" "[]", unfolded parts Let_def low]
  obtain c' where "do_header_field_start (CHR ''C'') (start_cfg http_parser_init ()) = Advance c'"
    "hp_header_state (fst (field_loop ''ONTENT-length:'' (pr c'))) = H_content_length"
    by (elim exE conjE) iprover
  then show ?thesis by iprover
qed

end
