(* ===== verification/RequestText.thy ===== *)
theory RequestText
  imports HeaderNames
begin

text \<open>
  A request as a client writes it, and its way through the parser object: the values of the headers
  that the parser looks at, one header line after the other, the end of the headers, and the body.
\<close>

section \<open>Header values\<close>

text \<open>Any value of a header that is not looked at.\<close>

lemma plain_loop:
  "list_all (\<lambda>c. is_header_char c \<and> c \<noteq> CHR 0x0D \<and> c \<noteq> CHR 0x0A) w \<Longrightarrow> hp_header_state P = H_general \<Longrightarrow>
    value_loop (w @ CHR 0x0D # s) P = (Value_cr, P, length w)"
  by (induction w) (auto simp: value_char_def)

lemma plain_value:
  assumes "text_ok k v" "hp_header_state P \<in> name_states"
    and "hp_header_state P \<notin> {H_connection, H_content_length, H_transfer_encoding, H_upgrade}"
  shows "value_read v P (P\<lparr>hp_state := S_header_value, hp_index := 0, hp_header_state := H_general\<rparr>)"
proof -
  have "value_start_char data q (hd v) (P\<lparr>hp_state := S_header_value, hp_index := 0\<rparr>) =
      Inr (P\<lparr>hp_state := S_header_value, hp_index := 0, hp_header_state := H_general\<rparr>)" for data q
    using assms(2,3) by (auto simp: value_start_char_def name_states_def)
  moreover have "list_all (\<lambda>c. is_header_char c \<and> c \<noteq> CHR 0x0D \<and> c \<noteq> CHR 0x0A) (tl v)"
    using assms(1) by (cases v) (auto simp: text_ok_def)
  ultimately show ?thesis unfolding value_read_def
    by (intro exI[of _ "P\<lparr>hp_state := S_header_value, hp_index := 0, hp_header_state := H_general\<rparr>"])
      (simp add: plain_loop)
qed

text \<open>The digits of a Content-Length, far below the limit of 64 bits.\<close>

definition length_limit :: nat where "length_limit = 10 ^ 18"

lemma digits_val_mono: "acc \<le> digits_val acc w"
proof (induction w arbitrary: acc)
  case (Cons c w)
  have "acc \<le> acc * 10 + (char_code c - 48)" by simp
  also have "\<dots> \<le> digits_val (acc * 10 + (char_code c - 48)) w" by (rule Cons)
  finally show ?case by simp
qed simp

lemma digit_plain: "isdigit c \<Longrightarrow> is_header_char c \<and> c \<noteq> CHR 0x0D \<and> c \<noteq> CHR 0x0A \<and> c \<noteq> CHR '' '' \<and> c \<noteq> CHR 0x09"
  by (auto simp: isdigit_def is_header_char_def char_code_def)

lemma length_guard: "acc \<le> length_limit \<Longrightarrow> \<not> (ullong_max - 10) div 10 < word_of_nat acc"
proof -
  assume a: "acc \<le> length_limit"
  have "unat (word_of_nat acc :: 64 word) \<le> 10 ^ 18"
    using a order_trans[OF take_bit_nat_less_eq_self] by (simp add: length_limit_def unsigned_of_nat)
  moreover have "unat ((ullong_max - 10) div 10) = 1844674407370955160"
    by (simp add: ullong_max_def unat_div)
  ultimately show ?thesis by (simp add: word_less_nat_alt)
qed

lemma digits_loop:
  "list_all isdigit w \<Longrightarrow> hp_header_state P = H_content_length_num \<Longrightarrow> hp_content_length P = word_of_nat acc \<Longrightarrow>
    digits_val acc w \<le> length_limit \<Longrightarrow>
    value_loop (w @ CHR 0x0D # s) P = (Value_cr, P\<lparr>hp_content_length := word_of_nat (digits_val acc w)\<rparr>, length w)"
proof (induction w arbitrary: P acc)
  case (Cons c w)
  let ?acc = "acc * 10 + (char_code c - 48)"
  have "acc \<le> ?acc" by simp
  also have "?acc \<le> digits_val ?acc w" by (rule digits_val_mono)
  finally have acc: "acc \<le> length_limit" using Cons.prems(4) by simp
  have P: "P\<lparr>hp_header_state := H_content_length_num\<rparr> = P" using Cons.prems(2) by (cases P) simp
  have "value_char c P = Inr (P\<lparr>hp_content_length := word_of_nat ?acc\<rparr>)"
    using Cons.prems digit_plain[of c] length_guard[OF acc] P
    by (simp add: value_char_def length_digit_def digit_val_def Let_def)
  with Cons.IH[of "P\<lparr>hp_content_length := word_of_nat ?acc\<rparr>" ?acc] Cons.prems digit_plain[of c]
  show ?case by simp
qed (cases P; simp)

lemma length_value:
  assumes "v \<noteq> []" "list_all isdigit v" "digits_val 0 v \<le> length_limit" "hp_header_state P = H_content_length" "\<not> f_contentlength P"
  shows "value_read v P (P\<lparr>hp_state := S_header_value, hp_index := 0, hp_header_state := H_content_length_num,
    f_contentlength := True, hp_content_length := word_of_nat (digits_val 0 v)\<rparr>)"
proof -
  obtain c w where v: "v = c # w" using assms(1) by (cases v) auto
  let ?Q = "P\<lparr>hp_state := S_header_value, hp_index := 0, f_contentlength := True,
      hp_content_length := word_of_nat (digit_val c), hp_header_state := H_content_length_num\<rparr>"
  have "value_start_char data q (hd v) (P\<lparr>hp_state := S_header_value, hp_index := 0\<rparr>) = Inr ?Q" for data q
    using assms v by (simp add: value_start_char_def)
  moreover have "value_loop (tl v @ CHR 0x0D # s) ?Q =
      (Value_cr, ?Q\<lparr>hp_content_length := word_of_nat (digits_val 0 v)\<rparr>, length (tl v))" for s
    using digits_loop[of w ?Q "digit_val c" s] assms v by (simp add: digit_val_def)
  ultimately show ?thesis unfolding value_read_def by (intro exI[of _ ?Q]) simp
qed

text \<open>The words of the Connection header.\<close>

lemma word_loop:
  assumes step: "\<And>k Q. hp_header_state Q = M \<Longrightarrow> value_char k Q = Inr (match_name name ok H_general (lower_or k) Q)"
    and name: "length name < 32"
  shows "w \<noteq> [] \<Longrightarrow> map lower_or w = drop (hp_index P + 1) name \<Longrightarrow> hp_header_state P = M \<Longrightarrow>
    list_all (\<lambda>c. is_header_char c \<and> c \<noteq> CHR 0x0D \<and> c \<noteq> CHR 0x0A) w \<Longrightarrow>
    value_loop (w @ CHR 0x0D # s) P = (Value_cr, P\<lparr>hp_index := length name - 1, hp_header_state := ok\<rparr>, length w)"
proof (induction w arbitrary: P)
  case (Cons c w)
  have i: "hp_index P + 1 < length name" and c: "lower_or c = name ! (hp_index P + 1)"
    and w: "map lower_or w = drop (hp_index P + 2) name"
    using Cons.prems(2) at_char[of "hp_index P + 1" name "lower_or c" "map lower_or w"] by auto
  have m: "(hp_index P + 1) mod 32 = hp_index P + 1" using i name by simp
  have char: "value_char c P = Inr (if hp_index P + 1 = length name - 1 then P\<lparr>hp_index := hp_index P + 1, hp_header_state := ok\<rparr>
      else P\<lparr>hp_index := hp_index P + 1\<rparr>)"
    unfolding step[OF Cons.prems(3)] match_name_def using i c m by (simp add: c_at_def Let_def)
  show ?case
  proof (cases "w = []")
    case True
    then have "hp_index P + 1 = length name - 1" using w i by simp
    with True char Cons.prems show ?thesis by simp
  next
    case False
    then have "hp_index P + 1 \<noteq> length name - 1" using w by auto
    with False char Cons.prems Cons.IH[of "P\<lparr>hp_index := hp_index P + 1\<rparr>"] w show ?thesis by simp
  qed
qed simp

definition word_char :: "char \<Rightarrow> char \<Rightarrow> bool" where
  "word_char x c \<longleftrightarrow> lower_or c = x \<and> is_header_char c \<and> c \<noteq> CHR 0x0D \<and> c \<noteq> CHR 0x0A \<and> c \<noteq> CHR '' '' \<and> c \<noteq> CHR 0x09"

lemma word_chars:
  "list_all (\<lambda>x. word_char x x \<and> (x \<noteq> CHR ''-'' \<longrightarrow> word_char x (char_of (char_code x - 32)))) ''-acehiklnopsv''"
  by (simp add: word_char_def lower_or_def is_header_char_def char_code_def char_of_def bit_numeral_rec bit_0)

lemma tolower_cases: "tolower c = x \<Longrightarrow> c = x \<or> 97 \<le> char_code x \<and> c = char_of (char_code x - 32)"
  by (auto simp: tolower_def char_code_def split: if_splits)

lemma lower_word_char:
  assumes "tolower c = x" "x \<in> set ''-acehiklnopsv''"
  shows "word_char x c"
proof -
  have "word_char x x" "x \<noteq> CHR ''-'' \<longrightarrow> word_char x (char_of (char_code x - 32))"
    using word_chars assms(2) unfolding list_all_iff by blast+
  moreover have "\<not> 97 \<le> char_code (CHR ''-'')" by (simp add: char_code_def)
  ultimately show ?thesis using tolower_cases[OF assms(1)] by metis
qed

lemma lower_word:
  "set w \<subseteq> set ''-acehiklnopsv'' \<Longrightarrow> lower_string v = w \<Longrightarrow> map lower_or v = w \<and>
    list_all (\<lambda>c. is_header_char c \<and> c \<noteq> CHR 0x0D \<and> c \<noteq> CHR 0x0A) v"
proof (induction v arbitrary: w)
  case (Cons c v)
  then obtain x u where w: "w = x # u" "tolower c = x" "lower_string v = u" by auto
  with Cons.prems(1) have "x \<in> set ''-acehiklnopsv''" "set u \<subseteq> set ''-acehiklnopsv''" by auto
  with lower_word_char[OF w(2)] Cons.IH[of u] w show ?case by (auto simp: word_char_def)
qed simp

lemma connection_value:
  assumes "(name, M, ok) \<in> {(''close'', H_matching_connection_close, H_connection_close),
      (''keep-alive'', H_matching_connection_keep_alive, H_connection_keep_alive)}"
    and v: "lower_string v = name" and P: "hp_header_state P = H_connection"
  shows "value_read v P (P\<lparr>hp_state := S_header_value, hp_index := length name - 1, hp_header_state := ok\<rparr>)"
proof -
  have "set name \<subseteq> set ''-acehiklnopsv''" "length name < 32" "1 < length name" using assms(1) by auto
  note low = lower_word[OF this(1) v] and len = this(2,3)
  obtain c w where cw: "v = c # w" using len v by (cases v) auto
  have "w \<noteq> []" using len(2) v cw by auto
  let ?Q = "P\<lparr>hp_state := S_header_value, hp_index := 0, hp_header_state := M\<rparr>"
  have c: "lower_or c = name ! 0" and w: "map lower_or w = drop 1 name" using low cw by auto
  have "value_start_char data q (hd v) (P\<lparr>hp_state := S_header_value, hp_index := 0\<rparr>) = Inr ?Q" for data q
    using assms(1) P c cw by (auto simp: value_start_char_def)
  moreover have "value_loop (tl v @ CHR 0x0D # s) ?Q = (Value_cr, ?Q\<lparr>hp_index := length name - 1, hp_header_state := ok\<rparr>, length (tl v))" for s
  proof -
    have step: "value_char k Q = Inr (match_name name ok H_general (lower_or k) Q)" if "hp_header_state Q = M" for k Q
      using assms(1) that by (auto simp: value_char_def Let_def)
    show ?thesis
      using word_loop[of M name ok w ?Q s, OF step len(1) \<open>w \<noteq> []\<close>] w low cw by simp
  qed
  ultimately show ?thesis unfolding value_read_def by (intro exI[of _ ?Q]) simp
qed


section \<open>Header lines one after the other\<close>

text \<open>What the headers so far say: the Content-Length, and whether to close or to keep the connection.\<close>

type_synonym header_info = "nat option \<times> bool \<times> bool"

definition connection_names :: "string set" where
  "connection_names = {''connection'', ''proxy-connection''}"

definition header_effect :: "string \<times> string \<Rightarrow> header_info \<Rightarrow> header_info" where
  "header_effect = (\<lambda>(k, v) (cl, close, keep).
     if lower_string k = ''content-length'' then (Some (digits_val 0 v), close, keep)
     else if lower_string k \<in> connection_names
     then (cl, close \<or> lower_string v = ''close'', keep \<or> lower_string v = ''keep-alive'')
     else (cl, close, keep))"

text \<open>Headers a client may send: no transfer coding or upgrade, one Content-Length at most.\<close>

definition header_allowed :: "string \<times> string \<Rightarrow> header_info \<Rightarrow> bool" where
  "header_allowed = (\<lambda>(k, v) (cl, close, keep).
     text_ok k v \<and> \<not> prefix ''transfer-encoding'' (lower_string k) \<and> lower_string k \<noteq> ''upgrade''
     \<and> (if lower_string k = ''content-length'' then list_all isdigit v \<and> digits_val 0 v \<le> length_limit \<and> cl = None else True)
     \<and> (if lower_string k \<in> connection_names then lower_string v = ''close'' \<or> lower_string v = ''keep-alive'' else True))"

primrec headers_allowed :: "(string \<times> string) list \<Rightarrow> header_info \<Rightarrow> bool" where
  "headers_allowed [] e \<longleftrightarrow> True"
| "headers_allowed (kv # hs) e \<longleftrightarrow> header_allowed kv e \<and> headers_allowed hs (header_effect kv e)"

definition between :: "header_info \<Rightarrow> http_method \<Rightarrow> nat \<Rightarrow> nat \<Rightarrow> http_parser \<Rightarrow> bool" where
  "between = (\<lambda>(cl, close, keep) m a b P.
     hp_state P = S_header_field_start \<and> hp_errno P = CHPE_OK \<and> hp_method P = m \<and> hp_major P = a \<and> hp_minor P = b
     \<and> \<not> f_chunked P \<and> \<not> f_trailing P \<and> \<not> f_upgrade P \<and> \<not> f_skipbody P \<and> \<not> hp_uses_te P
     \<and> f_close P = close \<and> f_keep_alive P = keep
     \<and> (case cl of None \<Rightarrow> \<not> f_contentlength P \<and> hp_content_length P = ullong_max
         | Some n \<Rightarrow> f_contentlength P \<and> hp_content_length P = word_of_nat n))"

lemma one_header_moves:
  assumes "small data" "between e m a b P" "header_allowed (k, v) e"
    and d: "drop p data = header_line k v @ ch # s" "ch \<noteq> CHR '' ''" "ch \<noteq> CHR 0x09"
  shows "\<exists>P'. between (header_effect (k, v) e) m a b P' \<and> moves (http_callbacks hk) base data
    (at_pos P p None us ob) (at_pos P' (p + length (header_line k v)) None us (with_header k v ob))"
proof -
  obtain cl close keep where e: "e = (cl, close, keep)" by (cases e)
  have ok: "text_ok k v" "k \<noteq> []" "list_all (\<lambda>c. token c \<noteq> CHR 0x00) k" "v \<noteq> []"
    and no: "\<not> prefix ''transfer-encoding'' (lower_string k)" "lower_string k \<noteq> ''transfer-encoding''" "lower_string k \<noteq> ''upgrade''"
    using assms(3) by (auto simp: header_allowed_def e text_ok_def)
  obtain h i where hi: "name_track (lower_string k) h i"
      "fold field_char (tl k) (header_begin k P) = P\<lparr>hp_state := S_header_field, hp_header_state := h, hp_index := i,
        hp_uses_te := (hp_uses_te P \<or> prefix ''transfer-encoding'' (lower_string k))\<rparr>"
    using names_recognised[OF ok(2,3)] by blast
  note known = name_track_known[OF hi(1)]
  let ?P = "(fold field_char (tl k) (header_begin k P))\<lparr>hp_state := S_header_value_discard_ws\<rparr>"
  have P: "hp_state P = S_header_field_start" using assms(2) by (simp add: between_def e)
  have err: "hp_errno (fold field_char (tl k) (header_begin k P)) = CHPE_OK"
    using assms(2) hi(2) by (simp add: between_def e)
  have "\<exists>P'. value_read v ?P P' \<and> between (header_effect (k, v) e) m a b (after_header P') \<and> hp_errno P' = CHPE_OK"
  proof -
    consider (len) "lower_string k = ''content-length''" | (conn) "lower_string k \<in> connection_names"
      | (plain) "lower_string k \<noteq> ''content-length''" "lower_string k \<notin> connection_names" by blast
    then show ?thesis
    proof cases
      case len
      then have h: "h = H_content_length" using known by simp
      have v: "list_all isdigit v" "digits_val 0 v \<le> length_limit" "cl = None"
        using assms(3) len by (simp_all add: header_allowed_def e)
      have "\<not> f_contentlength ?P" using assms(2) v(3) hi(2) by (simp add: between_def e)
      from length_value[OF ok(4) v(1,2) _ this] h hi(2) assms(2) len show ?thesis
        by (intro exI conjI) (assumption | simp add: between_def after_header_def finish_header_def e v header_effect_def no)+
    next
      case conn
      then have h: "h = H_connection" and ne: "lower_string k \<noteq> ''content-length''"
        using known by (auto simp: connection_names_def)
      have hP: "hp_header_state ?P = H_connection" using hi(2) h by simp
      have "lower_string v = ''close'' \<or> lower_string v = ''keep-alive''"
        using assms(3) conn ne by (simp add: header_allowed_def e)
      then show ?thesis
      proof
        assume v: "lower_string v = ''close''"
        from connection_value[OF _ v hP, of H_matching_connection_close H_connection_close]
        show ?thesis using hi(2) assms(2) conn ne v
          by (intro exI conjI) (simp | simp add: between_def after_header_def finish_header_def e header_effect_def no split: option.splits)+
      next
        assume v: "lower_string v = ''keep-alive''"
        from connection_value[OF _ v hP, of H_matching_connection_keep_alive H_connection_keep_alive]
        show ?thesis using hi(2) assms(2) conn ne v
          by (intro exI conjI) (simp | simp add: between_def after_header_def finish_header_def e header_effect_def no split: option.splits)+
      qed
    next
      case plain
      then have h: "h \<notin> {H_connection, H_content_length, H_transfer_encoding, H_upgrade}"
        using known no by (auto simp: connection_names_def)
      from plain_value[OF ok(1), of ?P] h name_track_states[OF hi(1)] hi(2) assms(2) plain show ?thesis
        by (intro exI conjI) (assumption | simp add: between_def after_header_def finish_header_def e header_effect_def no split: option.splits)+
    qed
  qed
  then obtain P' where P': "value_read v ?P P'" "between (header_effect (k, v) e) m a b (after_header P')" "hp_errno P' = CHPE_OK"
    by blast
  from header_moves[OF assms(1) ok(1) P err P'(1,3) d] P'(2) show ?thesis by blast
qed


definition header_lines :: "(string \<times> string) list \<Rightarrow> string" where
  "header_lines hs = concat (map (\<lambda>(k, v). header_line k v) hs)"

definition with_headers :: "(string \<times> string) list \<Rightarrow> 'h http_obj \<Rightarrow> 'h http_obj" where
  "with_headers hs ob = fold (\<lambda>(k, v). with_header k v) hs ob"

lemma token_not_blank: "token c \<noteq> CHR 0x00 \<Longrightarrow> c \<noteq> CHR '' '' \<and> c \<noteq> CHR 0x09"
  by (auto simp: token_def isdigit_def char_code_def)

lemma next_line_start:
  assumes "headers_allowed hs e"
  shows "\<exists>ch s'. header_lines hs @ CHR 0x0D # s = ch # s' \<and> ch \<noteq> CHR '' '' \<and> ch \<noteq> CHR 0x09"
proof (cases hs)
  case (Cons kv hs')
  obtain k v where kv: "kv = (k, v)" by (cases kv)
  have "text_ok k v" using assms Cons kv by (cases e) (simp add: header_allowed_def)
  then show ?thesis using Cons kv token_not_blank
    by (cases k) (auto simp: header_lines_def header_line_def text_ok_def)
qed (simp add: header_lines_def)

lemma headers_move:
  assumes "small data"
  shows "between e m a b P \<Longrightarrow> headers_allowed hs e \<Longrightarrow> drop p data = header_lines hs @ CHR 0x0D # s \<Longrightarrow>
    \<exists>P'. between (fold header_effect hs e) m a b P' \<and> moves (http_callbacks hk) base data
      (at_pos P p None us ob) (at_pos P' (p + length (header_lines hs)) None us (with_headers hs ob))"
proof (induction hs arbitrary: e P p ob)
  case Nil
  then show ?case by (intro exI[of _ P]) (simp add: header_lines_def with_headers_def moves_refl)
next
  case (Cons kv hs)
  obtain k v where kv: "kv = (k, v)" by (cases kv)
  have allowed: "header_allowed (k, v) e" "headers_allowed hs (header_effect (k, v) e)" using Cons.prems(2) kv by simp_all
  have d: "drop p data = header_line k v @ header_lines hs @ CHR 0x0D # s"
    using Cons.prems(3) by (simp add: header_lines_def kv)
  obtain ch s' where ch: "header_lines hs @ CHR 0x0D # s = ch # s'" "ch \<noteq> CHR '' ''" "ch \<noteq> CHR 0x09"
    using next_line_start[OF allowed(2)] by blast
  obtain P1 where P1: "between (header_effect (k, v) e) m a b P1" "moves (http_callbacks hk) base data
      (at_pos P p None us ob) (at_pos P1 (p + length (header_line k v)) None us (with_header k v ob))"
    using one_header_moves[OF assms Cons.prems(1) allowed(1) d[unfolded ch(1)] ch(2,3)] by blast
  obtain P2 where P2: "between (fold header_effect hs (header_effect (k, v) e)) m a b P2" "moves (http_callbacks hk) base data
      (at_pos P1 (p + length (header_line k v)) None us (with_header k v ob))
      (at_pos P2 (p + length (header_line k v) + length (header_lines hs)) None us (with_headers hs (with_header k v ob)))"
    using Cons.IH[OF P1(1) allowed(2) drop_append[OF d]] by blast
  show ?case
    using P2(1) moves_trans[OF P1(2) P2(2)] by (intro exI[of _ P2]) (simp add: kv header_lines_def with_headers_def add.assoc)
qed

text \<open>What the events of the headers leave in the object.\<close>

lemma with_header_first: "header_building_state ob = 0 \<Longrightarrow> header_value ob = [] \<Longrightarrow>
   with_header k v ob = ob\<lparr>header_field := k, header_value := v\<rparr>"
  by (cases ob) (simp add: with_header_def on_header_field_def on_header_value_def Let_def)

lemma with_header_next: "header_building_state ob = 0 \<Longrightarrow> header_value ob \<noteq> [] \<Longrightarrow>
   with_header k v ob = (emplace_header ob)\<lparr>header_field := k, header_value := v\<rparr>"
  by (cases ob) (simp add: with_header_def on_header_field_def on_header_value_def emplace_header_def Let_def)

lemma with_headers_snoc:
  assumes "header_building_state ob = 0" "header_value ob = []"
  shows "list_all (\<lambda>(k, v). v \<noteq> []) (hs @ [(k, v)]) \<Longrightarrow>
    with_headers (hs @ [(k, v)]) ob = ob\<lparr>po_req := (po_req ob)\<lparr>req_headers := req_headers (po_req ob) @ hs\<rparr>,
      header_field := k, header_value := v\<rparr>"
proof (induction hs arbitrary: k v rule: rev_induct)
  case Nil
  then show ?case using assms by (cases ob) (simp add: with_headers_def with_header_first)
next
  case (snoc kv hs)
  obtain k' v' where kv: "kv = (k', v')" by (cases kv)
  have "with_headers ((hs @ [kv]) @ [(k, v)]) ob = with_header k v (with_headers (hs @ [(k', v')]) ob)"
    by (simp add: with_headers_def kv)
  also have "\<dots> = with_header k v (ob\<lparr>po_req := (po_req ob)\<lparr>req_headers := req_headers (po_req ob) @ hs\<rparr>,
      header_field := k', header_value := v'\<rparr>)"
    using snoc.IH[of k' v'] snoc.prems kv by simp
  finally show ?case
    using assms snoc.prems kv by (simp add: with_header_next emplace_header_def ci_emplace_def)
qed

lemma headers_collected:
  assumes "header_building_state ob = 0" "header_value ob = []" "header_field ob = []"
    and "list_all (\<lambda>(k, v). k \<noteq> [] \<and> v \<noteq> []) hs"
  shows "on_headers_complete P (with_headers hs ob) =
    ob\<lparr>po_req := set_connection_parameters P ((po_req ob)\<lparr>req_headers := req_headers (po_req ob) @ hs\<rparr>)\<rparr>"
proof (cases hs rule: rev_cases)
  case Nil
  then show ?thesis using assms by (cases ob) (simp add: on_headers_complete_def with_headers_def)
next
  case (snoc ys kv)
  obtain k v where kv: "kv = (k, v)" by (cases kv)
  have "list_all (\<lambda>(k, v). v \<noteq> []) (ys @ [(k, v)])" "k \<noteq> []"
    using assms(4) by (auto simp: list_all_iff snoc kv)
  from with_headers_snoc[OF assms(1,2) this(1)] this(2) show ?thesis
    using assms by (cases ob) (simp add: snoc kv on_headers_complete_def emplace_header_def ci_emplace_def Let_def)
qed

lemma headers_allowed_texts: "headers_allowed hs e \<Longrightarrow> list_all (\<lambda>(k, v). k \<noteq> [] \<and> v \<noteq> []) hs"
proof (induction hs arbitrary: e)
  case (Cons kv hs)
  have "case kv of (k, v) \<Rightarrow> k \<noteq> [] \<and> v \<noteq> []"
    using Cons.prems by (cases kv; cases e) (simp add: header_allowed_def text_ok_def)
  with Cons.IH[of "header_effect kv e"] Cons.prems show ?case by simp
qed simp

section \<open>The end of the message\<close>

text \<open>A parser and its object before a message.\<close>

definition idle_parser :: "http_parser \<Rightarrow> bool" where
  "idle_parser P \<longleftrightarrow> hp_state P = S_start_req \<and> hp_errno P = CHPE_OK \<and> hp_nread P = 0 \<and> hp_qs_point P = 0"

definition idle_obj :: "'h http_obj \<Rightarrow> bool" where
  "idle_obj ob \<longleftrightarrow> \<not> message_complete ob \<and> header_building_state ob = 0 \<and> header_field ob = [] \<and> header_value ob = []
     \<and> req_raw_url (po_req ob) = [] \<and> req_headers (po_req ob) = [] \<and> req_body (po_req ob) = []"

text \<open>The callback of the last byte ends the loop.\<close>

lemma go_end:
  "field_mark c = None \<Longrightarrow> value_mark c = None \<Longrightarrow> url_mark c = None \<Longrightarrow> body_mark c = None \<Longrightarrow> pos c = length data \<Longrightarrow>
    go cb base data c = Some (length data, (pr c)\<lparr>hp_nread := nread c\<rparr>, app c)"
  by (simp add: go_def leftover_def data_callback_def run_simps)

lemma complete_notify:
  assumes "field_mark c = None" "value_mark c = None" "url_mark c = None" "body_mark c = None" "pos c + 1 = length data"
    and "hp_errno (pr c) = CHPE_OK" and "call_hook (handle_hook hk) (app c\<lparr>message_complete := True\<rparr>) = (ob, ef)"
  shows "\<exists>P'. run (http_callbacks hk) base data (notify (http_callbacks hk) On_message_complete (pos c + 1) c Advance)
      = Some (length data, P', ob) \<and> (hp_errno P' = CHPE_OK \<longleftrightarrow> ef \<noteq> Aborted)
        \<and> (ef = Cleared \<and> nread c = 0 \<longrightarrow> idle_parser P')"
  using assms by (cases ef) (simp_all add: idle_parser_def notify_def http_callbacks_def apply_effect_def run_simps go_end Let_def)


lemma end_of_headers:
  assumes "small data" "between e m a b P" "m \<noteq> Connect" and d: "drop p data = crlf @ body"
    and hook: "call_hook (handle_header_hook hk) (on_headers_complete P' ob) = (ob1, Unchanged)"
    and P': "P' = P\<lparr>hp_state := S_headers_done, hp_upgrade := False\<rparr>"
    and n: "n \<le> 2 * p"
  shows "\<exists>n'. go (http_callbacks hk) base data (at_pos P p None us ob\<lparr>nread := n\<rparr>) =
    run (http_callbacks hk) base data (do_headers_done (http_callbacks hk) (CHR 0x0A) (at_pos P' (p + 1) None us ob1\<lparr>nread := n'\<rparr>))"
proof -
  let ?cb = "http_callbacks hk"
  obtain cl close keep where e: "e = (cl, close, keep)" by (cases e)
  have d1: "drop p data = CHR 0x0D # CHR 0x0A # body" using d by (simp add: crlf_def)
  have d2: "drop (p + 1) data = CHR 0x0A # body" using at_char[OF d1] by blast
  let ?P = "P\<lparr>hp_state := S_headers_almost_done\<rparr>"
  have "moves ?cb base data (at_pos P p None us ob) (at_pos ?P (p + 1) None us ob)"
  proof (rule moves_one[OF assms(1) d1])
    show "parsing_header (hp_state P)" using assms(2) by (simp add: between_def e parsing_header_def)
    show "exec_state ?cb base data (CHR 0x0D) (at_pos P p None us ob\<lparr>nread := n\<rparr>) = Advance (at_pos ?P p None us ob\<lparr>nread := n\<rparr>)" for n
      using assms(2) by (simp add: between_def e exec_state_def do_header_field_start_def set_state_def nread_swaps)
  qed
  then obtain n' where n': "n' \<le> 2 * (p + 1)" "go ?cb base data (at_pos P p None us ob\<lparr>nread := n\<rparr>) =
      go ?cb base data (at_pos ?P (p + 1) None us ob\<lparr>nread := n'\<rparr>)"
    using n by (auto simp: moves_def)
  have "go ?cb base data (at_pos ?P (p + 1) None us ob\<lparr>nread := n'\<rparr>) =
      run ?cb base data (exec_state ?cb base data (CHR 0x0A) (at_pos ?P (p + 1) None us ob\<lparr>nread := n' + 1\<rparr>))"
    using go_header[of data "at_pos ?P (p + 1) None us ob\<lparr>nread := n'\<rparr>" "CHR 0x0A" body ?cb base] assms(1) d2 n'(1)
    by (simp add: parsing_header_def)
  also have "exec_state ?cb base data (CHR 0x0A) (at_pos ?P (p + 1) None us ob\<lparr>nread := n' + 1\<rparr>) =
      Reexecute (CHR 0x0A) (at_pos P' (p + 1) None us ob1\<lparr>nread := n' + 1\<rparr>)"
    using assms(2,3) hook
    by (simp add: P' between_def e exec_state_def do_headers_almost_done_def strict_check_def http_callbacks_def apply_effect_def
        nread_swaps Let_def)
  finally show ?thesis unfolding n'(2) by (intro exI[of _ "n' + 1"]) (simp add: run_simps exec_state_def P')
qed

lemma message_ends:
  assumes "between e m a b P" "P' = P\<lparr>hp_state := S_headers_done, hp_upgrade := False\<rparr>"
    and d: "drop p data = crlf @ body" and len: "case fst e of None \<Rightarrow> body = [] | Some n \<Rightarrow> n = length body \<and> n \<le> length_limit"
    and hook: "call_hook (handle_hook hk) ((on_body body ob)\<lparr>message_complete := True\<rparr>) = (ob2, ef)"
  shows "\<exists>P2. run (http_callbacks hk) base data (do_headers_done (http_callbacks hk) (CHR 0x0A) (at_pos P' (p + 1) None us ob\<lparr>nread := n'\<rparr>))
    = Some (length data, P2, ob2) \<and> (hp_errno P2 = CHPE_OK \<longleftrightarrow> ef \<noteq> Aborted) \<and> (ef = Cleared \<longrightarrow> idle_parser P2)"
proof -
  let ?cb = "http_callbacks hk" and ?P = "P'\<lparr>hp_nread := 0\<rparr>"
  obtain cl close keep where e: "e = (cl, close, keep)" by (cases e)
  have d2: "drop (p + 2) data = body" using drop_append[OF d] by (simp add: crlf_def)
  have data: "length data = p + 2 + length body"
  proof -
    have "length (drop p data) = 2 + length body" using d by (simp add: crlf_def)
    then show ?thesis by simp
  qed
  have P': "f_skipbody P' = False" "f_chunked P' = False" "hp_uses_te P' = False" "hp_upgrade P' = False" "hp_errno P' = CHPE_OK"
      "hp_content_length P' = hp_content_length P"
    using assms(1,2) by (simp_all add: between_def e)
  show ?thesis
  proof (cases "body = []")
    case True
    have cl: "hp_content_length P = 0 \<or> hp_content_length P = ullong_max"
      using assms(1) len True by (auto simp: between_def e split: option.splits)
    have "on_body [] ob = ob" by (simp add: on_body_def)
    with hook True have "call_hook (handle_hook hk) (ob\<lparr>message_complete := True\<rparr>) = (ob2, ef)" by simp
    with complete_notify[of "at_pos ?P (p + 1) None us ob\<lparr>nread := 0\<rparr>" data hk ob2 ef base] P' cl data True
    show ?thesis
      by (auto simp: do_headers_done_def strict_check_def nread_swaps Let_def)
  next
    case False
    then obtain k where k: "cl = Some k" "k = length body" "k \<le> length_limit"
      using len by (auto simp: e split: option.splits)
    have bound: "length body < 2 ^ 64" using k by (simp add: length_limit_def)
    then have u: "unat (word_of_nat (length body) :: 64 word) = length body"
      by (simp add: unsigned_of_nat take_bit_nat_eq_self)
    have cl: "hp_content_length P = word_of_nat (length body)" using assms(1) k by (simp add: between_def e)
    then have nz: "hp_content_length P \<noteq> 0" using u False by (metis length_0_conv unat_0)
    have nm: "hp_content_length P \<noteq> ullong_max"
    proof
      assume "hp_content_length P = ullong_max"
      then have "length body = unat ullong_max" using cl u by metis
      with k show False by (simp add: ullong_max_def length_limit_def unsigned_minus_1_eq_mask mask_eq_exp_minus_1)
    qed
    let ?c = "at_pos (?P\<lparr>hp_state := S_body_identity\<rparr>) (p + 2) None us ob\<lparr>nread := 0\<rparr>"
    let ?d = "at_pos (?P\<lparr>hp_state := S_message_done, hp_content_length := 0\<rparr>) (p + 1 + length body) None us (on_body body ob)\<lparr>nread := 0\<rparr>"
    have "run ?cb base data (do_headers_done ?cb (CHR 0x0A) (at_pos P' (p + 1) None us ob\<lparr>nread := n'\<rparr>)) = go ?cb base data ?c"
      using P' nz nm by (simp add: do_headers_done_def strict_check_def run_simps set_state_def nread_swaps Let_def nread_pos)
    also have "go ?cb base data ?c = run ?cb base data (do_body_identity ?cb data (hd body) ?c)"
    proof -
      have "data ! (p + 2) = hd body" using d2 False by (metis hd_drop_conv_nth drop_eq_Nil2 linorder_not_le)
      then show ?thesis using data False by (simp add: go_def next_byte_def parsing_header_def exec_state_def)
    qed
    also have "do_body_identity ?cb data (hd body) ?c = Reexecute (hd body) ?d"
    proof -
      have "to_read data ?c = length body" using P' cl u data by (simp add: to_read_def)
      moreover have "slice data (p + 2) (p + 2 + length body) = body" using d2 by (simp add: slice_def)
      ultimately show ?thesis using P' cl False
        by (simp add: do_body_identity_def mark_at_def data_callback_def notify_def http_callbacks_def apply_effect_def
            set_state_def nread_swaps Let_def at_pos_def numeral_2_eq_2 Suc_diff_le)
    qed
    also have "run ?cb base data (Reexecute (hd body) ?d) = run ?cb base data (notify ?cb On_message_complete (pos ?d + 1) ?d Advance)"
      by (simp add: run_simps exec_state_def)
    finally show ?thesis
      using complete_notify[of ?d data hk ob2 ef base] P' data hook by simp
  qed
qed


section \<open>Whole requests\<close>

definition request_text :: "http_method \<Rightarrow> string \<Rightarrow> string \<Rightarrow> char \<Rightarrow> (string \<times> string) list \<Rightarrow> string \<Rightarrow> string" where
  "request_text m path q d hs body =
     method_name m @ '' '' @ path @ q @ '' '' @ version_text d @ header_lines hs @ crlf @ body"

definition no_header_info :: header_info where "no_header_info = (None, False, False)"

text \<open>Well-formed requests of a client; CONNECT and upgrades change the protocol and are left out.\<close>

definition request_ok :: "http_method \<Rightarrow> string \<Rightarrow> string \<Rightarrow> char \<Rightarrow> (string \<times> string) list \<Rightarrow> string \<Rightarrow> bool" where
  "request_ok m path q d hs body \<longleftrightarrow> m \<noteq> Connect \<and> url_ok path q \<and> isdigit d \<and> headers_allowed hs no_header_info
     \<and> (case fst (fold header_effect hs no_header_info) of None \<Rightarrow> body = [] | Some n \<Rightarrow> n = length body \<and> n \<le> length_limit)
     \<and> small (request_text m path q d hs body)"

text \<open>The request when its URL is known, when its header block is, and at its end.\<close>

definition url_request :: "http_method \<Rightarrow> string \<Rightarrow> string \<Rightarrow> request \<Rightarrow> request" where
  "url_request m path q r = r\<lparr>req_method := m, req_raw_url := path @ q, req_url := path,
     req_url_params := make_query_string (path @ q) True\<rparr>"

definition full_request :: "http_method \<Rightarrow> string \<Rightarrow> string \<Rightarrow> char \<Rightarrow> (string \<times> string) list \<Rightarrow> string \<Rightarrow> request" where
  "full_request m path q d hs body =
     (let (_, close, keep) = fold header_effect hs no_header_info
      in \<lparr> req_method = m, req_raw_url = path @ q, req_url = path, req_url_params = make_query_string (path @ q) True,
           req_headers = hs, req_body = body, req_http_major = 1, req_http_minor = digit_val d,
           req_keep_alive = (if d = CHR ''0'' then keep else d = CHR ''1''),
           req_close_connection = (if d = CHR ''0'' then \<not> keep else d = CHR ''1'' \<and> close),
           req_upgrade = False \<rparr>)"

lemma digit_val_simps: "isdigit d \<Longrightarrow> (digit_val d = 0 \<longleftrightarrow> d = CHR ''0'') \<and> (digit_val d = 1 \<longleftrightarrow> d = CHR ''1'')"
proof -
  assume "isdigit d"
  then have "48 \<le> char_code d" "char_code d \<le> 57" by (auto simp: isdigit_def)
  moreover have "char_code d = 48 \<longleftrightarrow> d = CHR ''0''" "char_code d = 49 \<longleftrightarrow> d = CHR ''1''"
    using of_char_eq_iff[of d "CHR ''0''", where 'a = nat] of_char_eq_iff[of d "CHR ''1''", where 'a = nat]
    by (auto simp: char_code_def)
  ultimately show ?thesis by (auto simp: digit_val_def)
qed

lemma method_name_nonempty: "method_name m \<noteq> []"
proof -
  have "list_all (\<lambda>m. method_name m \<noteq> []) all_methods" by code_simp
  with all_methods[of m] show ?thesis by (simp add: list_all_iff)
qed

lemma method_read:
  assumes data: "data = request_text m path q d hs body" and ok: "request_ok m path q d hs body" and P: "idle_parser P"
  shows "\<exists>i. moves (http_callbacks hk) base data (start_cfg P ob)
      (at_pos ((reset_flags P)\<lparr>hp_method := m, hp_state := S_req_spaces_before_url, hp_index := i\<rparr>)
        (length (method_name m) + 1) None None (with_method m ob))
    \<and> drop (length (method_name m) + 1) data = path @ q @ CHR '' '' # version_text d @ header_lines hs @ crlf @ body"
proof -
  have small: "small data" using ok data by (simp add: request_ok_def)
  have Pst: "hp_state P = S_start_req" "hp_errno P = CHPE_OK" using P by (simp_all add: idle_parser_def)
  have start: "start_cfg P ob = at_pos P 0 None None ob"
    using P by (simp add: start_cfg_def at_pos_def idle_parser_def in_url_def Let_def)
  have d0: "drop 0 data = method_name m @ '' '' @ (path @ q @ CHR '' '' # version_text d @ header_lines hs @ crlf @ body)"
    by (simp add: data request_text_def)
  show ?thesis
    using start_moves[OF small Pst(2,1) d0, where hk = hk and base = base and ob = ob and um = None and us = None] drop_append[of 0 data "method_name m @ '' ''"] d0 start by simp
qed

lemma request_start:
  assumes data: "data = request_text m path q d hs body" and ok: "request_ok m path q d hs body"
    and P: "idle_parser P" and ob: "idle_obj ob"
    and url: "handle_url_hook hk (url_request m path q (po_req ob)) (handler ob) = (h1, Unchanged)"
  shows "\<exists>P1 p us. moves (http_callbacks hk) base data (start_cfg P ob)
      (at_pos P1 p None us (ob\<lparr>po_req := url_request m path q (po_req ob), handler := h1\<rparr>))
    \<and> between no_header_info m 1 (digit_val d) P1 \<and> drop p data = header_lines hs @ crlf @ body"
proof -
  let ?cb = "http_callbacks hk" and ?ob = "ob\<lparr>po_req := url_request m path q (po_req ob), handler := h1\<rparr>"
  have small: "small data" and uok: "url_ok path q" and m: "m \<noteq> Connect" and dig: "isdigit d"
    using ok data by (simp_all add: request_ok_def)
  have Pst: "hp_state P = S_start_req" "hp_errno P = CHPE_OK" "hp_qs_point P = 0" using P by (simp_all add: idle_parser_def)
  let ?p1 = "length (method_name m) + 1"
  obtain i where m1: "moves ?cb base data (start_cfg P ob)
      (at_pos ((reset_flags P)\<lparr>hp_method := m, hp_state := S_req_spaces_before_url, hp_index := i\<rparr>) ?p1 None None (with_method m ob))"
      and d1: "drop ?p1 data = path @ q @ CHR '' '' # version_text d @ header_lines hs @ crlf @ body"
    using method_read[OF data ok P] by blast
  let ?P1 = "(reset_flags P)\<lparr>hp_method := m, hp_state := S_req_spaces_before_url, hp_index := i\<rparr>"
  let ?P2 = "?P1\<lparr>hp_qs_point := query_point path q ?P1, hp_state := S_req_http_start\<rparr>"
  have "path \<noteq> []" using uok by (auto simp: url_ok_def)
  then have "on_url ?P2 (path @ q) (with_method m ob) = ob\<lparr>po_req := url_request m path q (po_req ob)\<rparr>"
    using ob Pst(3)
    by (cases "po_req ob") (simp add: on_url_def with_method_def url_request_def idle_obj_def query_point_def Let_def)
  then have hook: "call_hook (handle_url_hook hk) (on_url ?P2 (path @ q) (with_method m ob)) = (?ob, Unchanged)"
    using url by (simp add: call_hook_def Let_def)
  let ?p2 = "?p1 + length (path @ q) + 1"
  have m2: "moves ?cb base data (at_pos ?P1 ?p1 None None (with_method m ob)) (at_pos ?P2 ?p2 None (Some ?p1) ?ob)"
    by (rule url_moves[OF small uok _ _ _ d1 refl hook]) (use m Pst in simp_all)
  have d2: "drop ?p2 data = version_text d @ header_lines hs @ crlf @ body"
    using drop_append[of ?p1 data "path @ q @ '' ''"] d1 by (simp add: add.assoc)
  let ?P3 = "?P2\<lparr>hp_major := 1, hp_minor := digit_val d, hp_state := S_header_field_start\<rparr>"
  have "moves ?cb base data (at_pos ?P2 ?p2 None (Some ?p1) ?ob)
      (at_pos ?P3 (?p2 + length (version_text d)) None (Some ?p1) ?ob)"
    by (rule version_moves[OF small d2 version_read[OF dig]]) simp
  then have "moves ?cb base data (start_cfg P ob) (at_pos ?P3 (?p2 + length (version_text d)) None (Some ?p1) ?ob)"
    by (rule moves_trans[OF moves_trans[OF m1 m2]])
  moreover have "between no_header_info m 1 (digit_val d) ?P3"
    using Pst by (simp add: between_def no_header_info_def)
  ultimately show ?thesis using drop_append[OF d2] by blast
qed


text \<open>A request through the parser object.\<close>

lemma feed_request:
  assumes ok: "request_ok m path q d hs body" and P: "idle_parser P" and ob: "idle_obj ob"
    and url: "handle_url_hook hk (url_request m path q (po_req ob)) (handler ob) = (h1, Unchanged)"
    and header: "handle_header_hook hk (full_request m path q d hs []) h1 = (h2, Unchanged)"
    and msg: "handle_hook hk (full_request m path q d hs body) h2 = (h3, ef)"
  shows "\<exists>P' ob'. feed hk base (request_text m path q d hs body) (P, ob) = Some (ef \<noteq> Aborted, P', ob')
    \<and> handler ob' = h3 \<and> (if ef = Cleared then idle_parser P' \<and> idle_obj ob' else True)
    \<and> (if ef = Unchanged then message_complete ob' \<and> po_req ob' = full_request m path q d hs body
        else \<not> message_complete ob' \<and> po_req ob' = new_request (full_request m path q d hs body))"
proof -
  let ?cb = "http_callbacks hk" and ?e = "fold header_effect hs no_header_info"
  define data where "data = request_text m path q d hs body"
  have small: "small data" and m: "m \<noteq> Connect" and dig: "isdigit d" and allowed: "headers_allowed hs no_header_info"
    and len: "case fst ?e of None \<Rightarrow> body = [] | Some n \<Rightarrow> n = length body \<and> n \<le> length_limit"
    using ok by (simp_all add: request_ok_def data_def)
  obtain close keep cl where e: "?e = (cl, close, keep)" by (cases ?e)
  let ?ob = "ob\<lparr>po_req := url_request m path q (po_req ob), handler := h1\<rparr>"
  obtain P1 p us where s1: "moves ?cb base data (start_cfg P ob) (at_pos P1 p None us ?ob)"
      "between no_header_info m 1 (digit_val d) P1" "drop p data = header_lines hs @ crlf @ body"
    using request_start[OF data_def ok P ob url] by blast
  have d1: "drop p data = header_lines hs @ CHR 0x0D # CHR 0x0A # body" using s1(3) by (simp add: crlf_def)
  let ?p2 = "p + length (header_lines hs)"
  obtain P2 where s2: "between ?e m 1 (digit_val d) P2"
      "moves ?cb base data (at_pos P1 p None us ?ob) (at_pos P2 ?p2 None us (with_headers hs ?ob))"
    using headers_move[OF small s1(2) allowed d1] by blast
  let ?P3 = "P2\<lparr>hp_state := S_headers_done, hp_upgrade := False\<rparr>"
  let ?ob1 = "?ob\<lparr>po_req := full_request m path q d hs [], handler := h2\<rparr>"
  have "on_headers_complete ?P3 (with_headers hs ?ob) = ?ob\<lparr>po_req := full_request m path q d hs []\<rparr>"
  proof -
    have c: "on_headers_complete ?P3 (with_headers hs ?ob) =
        ?ob\<lparr>po_req := set_connection_parameters ?P3 ((po_req ?ob)\<lparr>req_headers := req_headers (po_req ?ob) @ hs\<rparr>)\<rparr>"
      using ob by (intro headers_collected headers_allowed_texts[OF allowed]) (simp_all add: idle_obj_def)
    have "set_connection_parameters ?P3 ((po_req ?ob)\<lparr>req_headers := req_headers (po_req ?ob) @ hs\<rparr>) = full_request m path q d hs []"
      using s2(1) ob digit_val_simps[OF dig] unfolding e
      by (cases "po_req ob") (auto simp: between_def set_connection_parameters_def full_request_def url_request_def idle_obj_def e Let_def)
    then show ?thesis unfolding c by simp
  qed
  then have hook: "call_hook (handle_header_hook hk) (on_headers_complete ?P3 (with_headers hs ?ob)) = (?ob1, Unchanged)"
    using header by (simp add: call_hook_def Let_def)
  have d2: "drop ?p2 data = crlf @ body" using drop_append[OF s1(3)] .
  have body: "on_body body ?ob1 = ?ob1\<lparr>po_req := full_request m path q d hs body\<rparr>"
    by (simp add: on_body_def full_request_def e Let_def)
  obtain ob' where ob': "call_hook (handle_hook hk) ((on_body body ?ob1)\<lparr>message_complete := True\<rparr>) = (ob', ef)"
      "handler ob' = h3"
      "if ef = Unchanged then message_complete ob' \<and> po_req ob' = full_request m path q d hs body
       else \<not> message_complete ob' \<and> po_req ob' = new_request (full_request m path q d hs body)"
      "if ef = Unchanged then True else idle_obj ob'"
    using msg unfolding body by (simp add: call_hook_def obj_clear_def idle_obj_def new_request_def Let_def)
  have "moves ?cb base data (start_cfg P ob) (at_pos P2 ?p2 None us (with_headers hs ?ob))"
    using moves_trans[OF s1(1) s2(2)] .
  then obtain n where n: "n \<le> 2 * ?p2" "go ?cb base data (start_cfg P ob\<lparr>nread := 0\<rparr>) =
      go ?cb base data (at_pos P2 ?p2 None us (with_headers hs ?ob)\<lparr>nread := n\<rparr>)"
    by (auto simp: moves_def)
  obtain n' where "go ?cb base data (at_pos P2 ?p2 None us (with_headers hs ?ob)\<lparr>nread := n\<rparr>) =
      run ?cb base data (do_headers_done ?cb (CHR 0x0A) (at_pos ?P3 (?p2 + 1) None us ?ob1\<lparr>nread := n'\<rparr>))"
    using end_of_headers[OF small s2(1) m d2 hook refl n(1)] by blast
  with message_ends[OF s2(1) refl d2 len ob'(1)] n(2) obtain P' where
    end': "go ?cb base data (start_cfg P ob\<lparr>nread := 0\<rparr>) = Some (length data, P', ob')" "hp_errno P' = CHPE_OK \<longleftrightarrow> ef \<noteq> Aborted"
      "ef = Cleared \<longrightarrow> idle_parser P'"
    by metis
  have ne: "data \<noteq> []" using method_name_nonempty[of m] by (simp add: data_def request_text_def)
  have "start_cfg P ob\<lparr>nread := 0\<rparr> = start_cfg P ob" using P by (simp add: start_cfg_def idle_parser_def Let_def)
  then have "http_parser_execute ?cb base data P ob = Some (length data, P', ob')"
    using end'(1) P ne by (simp add: http_parser_execute_def idle_parser_def go_def start_cfg_def Let_def)
  then have "feed hk base data (P, ob) = Some (ef \<noteq> Aborted, P', ob')"
    using ob end'(2) by (auto simp: feed_def idle_obj_def)
  moreover have "if ef = Cleared then idle_parser P' \<and> idle_obj ob' else True" using end'(3) ob'(4) by simp
  ultimately show ?thesis using ob'(2,3) unfolding data_def by blast
qed

section \<open>Properties\<close>

text \<open>C4. Requests are read back: when a well-formed request in one buffer is fed to an idle parser, and the
  connection accepts its URL and its header block, then the connection is given once the request with
  exactly the method, the path, the query parameters, the headers in their order and the body of the
  text, and the version and connection flags that its request line and headers ask for.  When the
  connection then clears the parser, both the parser and its object are idle again.\<close>

theorem request_read_back:
  assumes ok: "request_ok m path q d hs body" and P: "idle_parser P" and ob: "idle_obj ob"
    and url: "handle_url_hook hk (url_request m path q (po_req ob)) (handler ob) = (h1, Unchanged)"
    and header: "handle_header_hook hk (full_request m path q d hs []) h1 = (h2, Unchanged)"
    and msg: "handle_hook hk (full_request m path q d hs body) h2 = (h3, ef)"
  shows "\<exists>P' ob'. feed hk base (request_text m path q d hs body) (P, ob) = Some (ef \<noteq> Aborted, P', ob')
    \<and> handler ob' = h3 \<and> (if ef = Cleared then idle_parser P' \<and> idle_obj ob' else True)
    \<and> (if ef = Unchanged then message_complete ob' \<and> po_req ob' = full_request m path q d hs body
        else \<not> message_complete ob' \<and> po_req ob' = new_request (full_request m path q d hs body))"
  using assms by (rule feed_request)

definition log_hooks :: "request list hooks" where
  "log_hooks = \<lparr> handle_url_hook = \<lambda>r h. (h, Unchanged), handle_header_hook = \<lambda>r h. (h, Unchanged),
     handle_hook = \<lambda>r h. (h @ [r], Cleared) \<rparr>"

definition sample_obj :: "'h \<Rightarrow> 'h http_obj" where
  "sample_obj h = \<lparr> po_req = sample_request Get [], header_building_state = 0, message_complete = False,
     header_field = [], header_value = [], handler = h \<rparr>"

lemma sample_request_ok:
  "request_ok Post ''/code'' ''?a=b'' (CHR ''1'') [(''Host'', ''x''), (''Content-Length'', ''3''), (''Connection'', ''close'')] ''abc''"
proof -
  have "url_ok ''/code'' ''?a=b''" by (simp add: url_ok_def is_url_char_def char_code_def)
  moreover have low: "lower_string ''Host'' = ''host''" "lower_string ''Content-Length'' = ''content-length''"
      "lower_string ''Connection'' = ''connection''" "lower_string ''close'' = ''close''" by code_simp+
  moreover have texts: "text_ok ''Host'' ''x''" "text_ok ''Content-Length'' ''3''" "text_ok ''Connection'' ''close''" by code_simp+
  moreover have "digits_val 0 ''3'' = 3" "isdigit (CHR ''3'')" by code_simp+
  moreover have "small (request_text Post ''/code'' ''?a=b'' (CHR ''1'') [(''Host'', ''x''), (''Content-Length'', ''3''), (''Connection'', ''close'')] ''abc'')"
    by (simp add: small_def max_header_size_def request_text_def version_text_def header_lines_def header_line_def crlf_def
        method_name_def method_index_def method_strings_def all_methods_def)
  ultimately show ?thesis
    by (simp add: request_ok_def header_allowed_def header_effect_def no_header_info_def connection_names_def length_limit_def
        isdigit_def char_code_def del: list.map)
qed

theorem request_read_back_witness:
  "\<exists>P' ob'. feed log_hooks 4096 (request_text Post ''/code'' ''?a=b'' (CHR ''1'')
       [(''Host'', ''x''), (''Content-Length'', ''3''), (''Connection'', ''close'')] ''abc'') (http_parser_init, sample_obj [])
     = Some (True, P', ob')
   \<and> map req_body (handler ob') = [''abc''] \<and> map req_url (handler ob') = [''/code''] \<and> map req_close_connection (handler ob') = [True]"
proof -
  let ?hs = "[(''Host'', ''x''), (''Content-Length'', ''3''), (''Connection'', ''close'')]"
  have e: "fold header_effect ?hs no_header_info = (Some 3, True, False)" by code_simp
  have idle: "idle_parser http_parser_init" "idle_obj (sample_obj ([] :: request list))"
    by (simp_all add: idle_parser_def idle_obj_def http_parser_init_def sample_obj_def sample_request_def)
  have "handle_url_hook log_hooks (url_request Post ''/code'' ''?a=b'' (po_req (sample_obj []))) (handler (sample_obj [])) = ([], Unchanged)"
    "handle_header_hook log_hooks (full_request Post ''/code'' ''?a=b'' (CHR ''1'') ?hs []) [] = ([], Unchanged)"
    "handle_hook log_hooks (full_request Post ''/code'' ''?a=b'' (CHR ''1'') ?hs ''abc'') []
      = ([full_request Post ''/code'' ''?a=b'' (CHR ''1'') ?hs ''abc''], Cleared)"
    by (simp_all add: log_hooks_def sample_obj_def)
  from request_read_back[OF sample_request_ok idle this, of 4096] obtain P' ob' where
    "feed log_hooks 4096 (request_text Post ''/code'' ''?a=b'' (CHR ''1'') ?hs ''abc'') (http_parser_init, sample_obj []) = Some (True, P', ob')"
    "handler ob' = [full_request Post ''/code'' ''?a=b'' (CHR ''1'') ?hs ''abc'']"
    by auto
  moreover have "req_body (full_request Post ''/code'' ''?a=b'' (CHR ''1'') ?hs ''abc'') = ''abc''"
      "req_url (full_request Post ''/code'' ''?a=b'' (CHR ''1'') ?hs ''abc'') = ''/code''"
      "req_close_connection (full_request Post ''/code'' ''?a=b'' (CHR ''1'') ?hs ''abc'')"
    unfolding full_request_def e by simp_all
  ultimately show ?thesis by simp
qed

end
