(* ===== verification/Connection.thy ===== *)
theory Connection
  imports RequestText
begin

text \<open>
  A connection (crow/http_connection.h): what it does when the parser has a URL, a header block or a
  message, how it completes a request and writes the response, and the loop that reads the next
  buffer.  The socket is the text written to it and whether it is open; a write succeeds.  Timers and
  logging are left out, and the program has no middlewares or websockets.
\<close>

section \<open>State\<close>

record 'd conn =
  co_res :: response
  co_found :: "'d handle_found option"     \<comment> \<open>\<open>routing_handle_result_\<close>\<close>
  co_close :: bool
  co_keep_alive :: bool                    \<comment> \<open>\<open>add_keep_alive_\<close>\<close>
  co_continue :: bool
  co_need_after :: bool
  co_need_read :: bool
  co_open :: bool                          \<comment> \<open>\<open>adaptor_.is_open()\<close>\<close>
  co_failed :: bool                        \<comment> \<open>an exception has left the handler\<close>
  co_buffers :: string
  co_body_copy :: string
  co_out :: string                         \<comment> \<open>all the text written so far\<close>

text \<open>What a connection is given: the application's router, server name and stream threshold, and the files.\<close>

record 'd app_env =
  env_router :: "'d router"
  env_strtod :: "string \<Rightarrow> ('d \<times> string) option"
  env_server :: string
  env_threshold :: nat
  env_fs :: "string \<Rightarrow> string option"

definition new_conn :: "'d conn" where
  "new_conn = \<lparr> co_res = response_default, co_found = None, co_close = False, co_keep_alive = False, co_continue = False,
     co_need_after = False, co_need_read = False, co_open = True, co_failed = False, co_buffers = [], co_body_copy = [],
     co_out = [] \<rparr>"

section \<open>Writing\<close>

text \<open>
  \<open>do_write_sync\<close>: after a write the response is cleared, and the parser as well unless the write was
  that of a \<open>100 Continue\<close>.
\<close>

definition do_write_sync :: "string \<Rightarrow> 'd conn \<Rightarrow> 'd conn \<times> cb_effect" where
  "do_write_sync txt c =
     (c\<lparr>co_out := co_out c @ txt, co_res := response_clear (co_res c), co_body_copy := [], co_continue := False\<rparr>,
      if co_continue c then Unchanged else Cleared)"

definition prepare_buffers :: "'d app_env \<Rightarrow> 'd conn \<Rightarrow> 'd conn" where
  "prepare_buffers env c =
     (if \<not> co_open c then c
      else case write_header_into_buffer (co_keep_alive c) (env_server env) (co_res c) of
             (txt, r) \<Rightarrow> c\<lparr>co_buffers := txt, co_res := r\<rparr>)"

text \<open>
  The body in pieces of 16384 bytes.  The code clears the response after the first piece, but goes on
  with a pointer into the memory of its body, which clearing a string keeps.
\<close>

function write_chunks :: "string \<Rightarrow> 'd conn \<Rightarrow> 'd conn" where
  "write_chunks body c =
     (if body = [] then c else write_chunks (drop 16384 body) (fst (do_write_sync (take 16384 body) c)))"
  by pat_completeness auto
termination by (relation "measure (\<lambda>(body, c). length body)") auto

declare write_chunks.simps [simp del]

definition do_write_general :: "'d app_env \<Rightarrow> 'd conn \<Rightarrow> 'd conn \<times> cb_effect" where
  "do_write_general env c =
     (let body = res_body (co_res c)
      in if length body < env_threshold env then
           (let c = c\<lparr>co_res := (co_res c)\<lparr>res_body := co_body_copy c\<rparr>, co_body_copy := body, co_buffers := co_buffers c @ body\<rparr>
            in case do_write_sync (co_buffers c) c of
                 (c, e) \<Rightarrow> (if co_need_read c then c\<lparr>co_need_read := False\<rparr> else c, e))
         else
           (let c = c\<lparr>co_out := co_out c @ co_buffers c\<rparr>;
                c = write_chunks body c;
                c = (if co_close c then c\<lparr>co_open := False\<rparr> else c)
            in (c\<lparr>co_res := response_clear (end_quietly (co_res c)), co_buffers := []\<rparr>, Cleared)))"

text \<open>A response that is a file: its header, then the file in pieces of the same size.\<close>

definition do_write_static :: "'d app_env \<Rightarrow> 'd conn \<Rightarrow> 'd conn \<times> cb_effect" where
  "do_write_static env c =
     (let content = (case env_fs env (res_file (co_res c)) of None \<Rightarrow> [] | Some t \<Rightarrow> t);
          c = c\<lparr>co_out := co_out c @ co_buffers c\<rparr>;
          c = write_chunks content c;
          c = (if co_close c then c\<lparr>co_open := False\<rparr> else c)
      in (c\<lparr>co_res := response_clear (end_quietly (co_res c)), co_buffers := []\<rparr>, Cleared))"

definition complete_request :: "'d app_env \<Rightarrow> 'd conn \<Rightarrow> 'd conn \<times> cb_effect" where
  "complete_request env c =
     (let c = prepare_buffers env (c\<lparr>co_need_after := False\<rparr>)
      in if is_static_type (co_res c) then do_write_static env c else do_write_general env c)"

section \<open>The parser's calls\<close>

text \<open>\<open>handle_url\<close>: without a rule the answer is sent before anything else is parsed.\<close>

definition conn_handle_url :: "'d app_env \<Rightarrow> 'd conn hook" where
  "conn_handle_url env req c =
     (case handle_initial (env_strtod env) (env_router env) req (co_res c) of
        (found, res) \<Rightarrow>
          (let c = c\<lparr>co_found := Some found, co_res := res\<rparr>
           in if hf_rule found = 0 \<and> \<not> hf_catch_all found
              then (fst (complete_request env (c\<lparr>co_need_after := True\<rparr>)), Aborted)
              else (c, Unchanged)))"

definition continue_line :: string where
  "continue_line = ''HTTP/1.1 100 Continue'' @ crlf @ crlf"

definition conn_handle_header :: "'d conn hook" where
  "conn_handle_header req c =
     (if req_http_major req = 1 \<and> req_http_minor req = 1 \<and> get_header_value (req_headers req) ''expect'' = ''100-continue''
      then do_write_sync continue_line (c\<lparr>co_continue := True, co_buffers := continue_line\<rparr>)
      else (c, Unchanged))"

text \<open>\<open>Router::handle_upgrade\<close> with the default of a rule, which answers 404; \<open>Inl\<close> is its exception.\<close>

definition router_upgrade :: "'d app_env \<Rightarrow> request \<Rightarrow> response \<Rightarrow> string + response" where
  "router_upgrade env req res =
     (let found = find_for (env_strtod env) (env_router env);
          i = fr_rule (found (req_method req) (req_url req));
          rules = pm_rules (per_methods (env_router env) ! method_index (req_method req))
      in if i = 0 then
           (if list_ex (\<lambda>m. fr_rule (found m (req_url req)) \<noteq> 0) all_methods
            then Inr (end_quietly (response_assign (response_code 405) res))
            else Inr (end_quietly (response_assign (response_code 404) res)))
         else if length rules \<le> i then Inl ''Trie internal structure corrupted!''
         else if i = RULE_SPECIAL_REDIRECT_SLASH then
           Inr (end_quietly (add_header ''Location'' (req_url req @ ''/'') (response_assign (response_code 301) res)))
         else Inr (end_quietly (response_assign (response_code 404) res)))"

text \<open>The end of a request whose response is not completed yet: run the rule and send what it ends with.\<close>

definition run_rule :: "'d app_env \<Rightarrow> request \<Rightarrow> 'd conn \<Rightarrow> 'd conn \<times> cb_effect" where
  "run_rule env req c =
     (case handle (env_router env) req (co_res c) (the (co_found c)) of
        Inl e \<Rightarrow> (c\<lparr>co_failed := True\<rparr>, Unchanged)
      | Inr (given, res) \<Rightarrow>
          (case (case given of
                   None \<Rightarrow> (c\<lparr>co_res := res\<rparr>, Unchanged)
                 | Some r \<Rightarrow>
                     (case complete_request env (c\<lparr>co_res := r\<rparr>) of
                        (c, e) \<Rightarrow> (c\<lparr>co_res := (co_res c)\<lparr>res_manual_length_header := False, res_skip_body := False\<rparr>\<rparr>, e))) of
             (c, e) \<Rightarrow>
               (if co_keep_alive c then c\<lparr>co_res := set_header ''connection'' ''Keep-Alive'' (co_res c)\<rparr> else c, e)))"

definition conn_handle :: "'d app_env \<Rightarrow> 'd conn hook" where
  "conn_handle env req c =
     (let c = c\<lparr>co_keep_alive := req_keep_alive req, co_close := req_close_connection req\<rparr>;
          version_1_1 = (req_http_major req = 1 \<and> req_http_minor req = 1);
          invalid = (version_1_1 \<and> ci_count (req_headers req) ''host'' = 0)
      in if \<not> invalid \<and> version_1_1 \<and> req_upgrade req \<and> \<not> prefix ''h2'' (get_header_value (req_headers req) ''upgrade'') then
           (case router_upgrade env req (co_res c) of
              Inl e \<Rightarrow> (c\<lparr>co_close := True, co_failed := True\<rparr>, Unchanged)
            | Inr res \<Rightarrow> (c\<lparr>co_close := True, co_res := res\<rparr>, Unchanged))
         else if invalid then
           complete_request env (c\<lparr>co_need_after := False, co_res := response_assign (response_code 400) (co_res c)\<rparr>)
         else
           (let c = c\<lparr>co_need_after := False\<rparr>
            in if res_completed (co_res c) then complete_request env c
               else run_rule env req (c\<lparr>co_need_after := True\<rparr>)))"

definition conn_hooks :: "'d app_env \<Rightarrow> 'd conn hooks" where
  "conn_hooks env = \<lparr> handle_url_hook = conn_handle_url env, handle_header_hook = conn_handle_header,
     handle_hook = conn_handle env \<rparr>"

section \<open>Reading\<close>

text \<open>The parser, its object with the connection, and whether a read is pending.\<close>

type_synonym 'd session = "http_parser \<times> 'd conn http_obj \<times> bool"

definition conn_start :: "http_parser \<times> 'd conn http_obj \<Rightarrow> 'd session" where
  "conn_start = (\<lambda>s. case parser_clear s of (P, ob) \<Rightarrow> (P, ob, True))"

text \<open>
  The completion of \<open>do_read\<close> with the bytes received, \<open>None\<close> for an error of the socket.  The result
  is \<open>None\<close> when the parser does not return.
\<close>

definition do_read :: "'d app_env \<Rightarrow> nat \<Rightarrow> string option \<Rightarrow> http_parser \<times> 'd conn http_obj \<Rightarrow> 'd session option" where
  "do_read env base received s =
     (let done = (\<lambda>s f. map_option (\<lambda>(_, P, ob). f (P, ob)) (feed_done (conn_hooks env) s));
          failed = (\<lambda>s. done s (\<lambda>(P, ob). (P, ob\<lparr>handler := (handler ob)\<lparr>co_open := False\<rparr>\<rparr>, False)))
      in case received of
           None \<Rightarrow> failed s
         | Some bytes \<Rightarrow>
             (case feed (conn_hooks env) base bytes s of
                None \<Rightarrow> None
              | Some (ret, P, ob) \<Rightarrow>
                  if \<not> (ret \<and> co_open (handler ob)) then failed (P, ob)
                  else if co_close (handler ob) then done (P, ob) (\<lambda>(P, ob). (P, ob, False))
                  else if \<not> co_need_after (handler ob) then Some (P, ob, True)
                  else Some (P, ob\<lparr>handler := (handler ob)\<lparr>co_need_read := True\<rparr>\<rparr>, False)))"

primrec serve :: "'d app_env \<Rightarrow> nat \<Rightarrow> string option list \<Rightarrow> 'd session \<Rightarrow> 'd session option" where
  "serve env base [] s = Some s"
| "serve env base (r # rs) s =
     (case s of (P, ob, reading) \<Rightarrow>
        if reading then (case do_read env base r (P, ob) of None \<Rightarrow> None | Some s \<Rightarrow> serve env base rs s)
        else Some s)"


section \<open>What completing a request does\<close>

text \<open>The text of a response on the wire.\<close>

definition sent_body :: "(string \<Rightarrow> string option) \<Rightarrow> response \<Rightarrow> string" where
  "sent_body fs r =
     (if is_static_type r then (case fs (res_file r) of None \<Rightarrow> [] | Some t \<Rightarrow> t) else res_body r)"

definition response_text :: "(string \<Rightarrow> string option) \<Rightarrow> bool \<Rightarrow> string \<Rightarrow> response \<Rightarrow> string" where
  "response_text fs keep server r = (case write_header_into_buffer keep server r of (txt, r') \<Rightarrow> txt @ sent_body fs r')"

lemma response_clear_twice [simp]: "response_clear (response_clear r) = response_clear r"
  by (simp add: response_clear_def)

lemma write_chunks_all:
  "write_chunks body c = (if body = [] then c
     else c\<lparr>co_out := co_out c @ body, co_res := response_clear (co_res c), co_body_copy := [], co_continue := False\<rparr>)"
proof (induction body c rule: write_chunks.induct)
  case (1 body c)
  show ?case
  proof (cases "body = []")
    case True
    then show ?thesis by (simp add: write_chunks.simps)
  next
    case False
    then have "write_chunks body c = write_chunks (drop 16384 body) (fst (do_write_sync (take 16384 body) c))"
      by (subst write_chunks.simps) simp
    also have "\<dots> = c\<lparr>co_out := co_out c @ body, co_res := response_clear (co_res c), co_body_copy := [], co_continue := False\<rparr>"
      using 1[OF False] append_take_drop_id[of 16384 body]
      by (cases "drop 16384 body = []") (simp_all add: do_write_sync_def del: append_take_drop_id)
    finally show ?thesis using False by simp
  qed
qed

definition ready_conn :: "'d conn \<Rightarrow> bool" where
  "ready_conn c \<longleftrightarrow> co_open c \<and> \<not> co_continue c \<and> \<not> co_need_read c \<and> \<not> co_failed c"

lemma end_quietly_clear:
  "response_clear (end_quietly (response_clear r)) =
     (response_clear r)\<lparr>res_manual_length_header := (res_manual_length_header r \<or> res_skip_body r)\<rparr>"
  by (cases r) (simp add: response_clear_def end_quietly_def response_end_def set_header_def Let_def)

lemma write_header_flags:
  "write_header_into_buffer keep server r = (txt, r') \<Longrightarrow> res_skip_body r' = res_skip_body r \<and>
     res_manual_length_header r' = res_manual_length_header r \<and> res_file r' = res_file r"
  by (auto simp: write_header_into_buffer_def Let_def split: if_splits)

text \<open>One answer: the text written, and the connection ready for the next request.\<close>

lemma complete_request_once:
  assumes "ready_conn c"
  shows "\<exists>c' man. complete_request env c = (c', Cleared)
    \<and> co_out c' = co_out c @ response_text (env_fs env) (co_keep_alive c) (env_server env) (co_res c)
    \<and> co_res c' = response_default\<lparr>res_skip_body := res_skip_body (co_res c), res_manual_length_header := man\<rparr>
    \<and> (res_skip_body (co_res c) \<or> man = res_manual_length_header (co_res c))
    \<and> ready_conn (c'\<lparr>co_open := True\<rparr>) \<and> \<not> co_need_after c' \<and> co_keep_alive c' = co_keep_alive c \<and> co_close c' = co_close c
    \<and> (\<not> co_close c \<longrightarrow> co_open c')"
proof -
  obtain hdr r' where w: "write_header_into_buffer (co_keep_alive c) (env_server env) (co_res c) = (hdr, r')"
    by (cases "write_header_into_buffer (co_keep_alive c) (env_server env) (co_res c)")
  let ?c = "c\<lparr>co_need_after := False, co_buffers := hdr, co_res := r'\<rparr>"
  have p: "prepare_buffers env (c\<lparr>co_need_after := False\<rparr>) = ?c"
    using assms w by (simp add: prepare_buffers_def ready_conn_def)
  have clr: "response_clear x = response_default\<lparr>res_skip_body := res_skip_body x, res_manual_length_header := res_manual_length_header x\<rparr>" for x
    by (cases x) (simp add: response_clear_def response_default_def)
  note flags = write_header_flags[OF w]
  show ?thesis
  proof (cases "is_static_type r' \<or> \<not> length (res_body r') < env_threshold env")
    case False
    then show ?thesis using assms flags
      by (simp add: complete_request_def p do_write_general_def do_write_sync_def ready_conn_def response_text_def sent_body_def w clr Let_def)
        (rule exI, rule conjI, rule refl, simp)
  next
    case True
    define body where "body = sent_body (env_fs env) r'"
    let ?c1 = "write_chunks body (?c\<lparr>co_out := co_out c @ hdr\<rparr>)"
    let ?c2 = "if co_close ?c1 then ?c1\<lparr>co_open := False\<rparr> else ?c1"
    have "complete_request env c = (?c2\<lparr>co_res := response_clear (end_quietly (co_res ?c2)), co_buffers := []\<rparr>, Cleared)"
    proof (cases "is_static_type r'")
      case True
      then show ?thesis unfolding complete_request_def p body_def sent_body_def by (simp add: do_write_static_def Let_def)
    next
      case False
      then have "\<not> length (res_body r') < env_threshold env" using True by blast
      with False show ?thesis
        unfolding complete_request_def p body_def sent_body_def by (simp add: do_write_general_def Let_def)
    qed
    moreover have "response_text (env_fs env) (co_keep_alive c) (env_server env) (co_res c) = hdr @ body"
      by (simp add: response_text_def w body_def)
    ultimately show ?thesis using assms flags
      by (cases "body = []")
        (auto simp: write_chunks_all ready_conn_def clr end_quietly_def response_end_def set_header_def Let_def)
  qed
qed


section \<open>One request on an idle connection\<close>

text \<open>The response object after an answer: cleared, but with a header set too late for that answer.\<close>

definition after_response :: "bool \<Rightarrow> response" where
  "after_response keep = (if keep then set_header ''connection'' ''Keep-Alive'' response_default else response_default)"

definition idle_conn :: "'d conn \<Rightarrow> bool" where
  "idle_conn c \<longleftrightarrow> ready_conn c \<and> \<not> co_need_after c
     \<and> (\<exists>keep \<in> {True, False}. co_res c = after_response keep)"

definition idle_session :: "'d session \<Rightarrow> bool" where
  "idle_session = (\<lambda>(P, ob, reading). idle_parser P \<and> idle_obj ob \<and> idle_conn (handler ob) \<and> reading)"

text \<open>The response that the router ends a request with, if it gets as far as a rule or a catch-all.\<close>

definition router_response :: "'d app_env \<Rightarrow> request \<Rightarrow> response \<Rightarrow> response option" where
  "router_response env req res =
     (case handle_initial (env_strtod env) (env_router env) req res of
        (found, res1) \<Rightarrow>
          if hf_rule found = 0 \<and> \<not> hf_catch_all found \<or> res_completed res1 then None
          else (case handle (env_router env) req res1 found of Inr (given, _) \<Rightarrow> given | Inl _ \<Rightarrow> None))"

lemma handle_initial_same:
  "req_method a = req_method b \<Longrightarrow> req_url a = req_url b \<Longrightarrow> handle_initial sd rt a res = handle_initial sd rt b res"
  by (simp add: handle_initial_def Let_def)

lemma full_request_simps [simp]:
  "req_method (full_request m path q d hs body) = m" "req_url (full_request m path q d hs body) = path"
  "req_headers (full_request m path q d hs body) = hs" "req_http_major (full_request m path q d hs body) = 1"
  "req_http_minor (full_request m path q d hs body) = digit_val d" "\<not> req_upgrade (full_request m path q d hs body)"
  by (simp_all add: full_request_def case_prod_beta)

lemma full_request_flags:
  "req_keep_alive (full_request m path q d hs body) = req_keep_alive (full_request m path q d hs [])"
  "req_close_connection (full_request m path q d hs body) = req_close_connection (full_request m path q d hs [])"
  by (simp_all add: full_request_def case_prod_beta)

text \<open>The connection at the end of the message.\<close>

lemma conn_handle_answers:
  assumes c: "ready_conn c" "\<not> co_need_after c" and found: "co_found c = Some found"
    and host: "req_http_major req = 1 \<and> req_http_minor req = 1 \<longrightarrow> 0 < ci_count (req_headers req) ''host''"
    and up: "\<not> req_upgrade req" and res: "\<not> res_completed (co_res c)"
    and given: "handle (env_router env) req (co_res c) found = Inr (Some r, res2)"
  shows "\<exists>c'. conn_handle env req c = (c', Cleared)
    \<and> co_out c' = co_out c @ response_text (env_fs env) (req_keep_alive req) (env_server env) r
    \<and> co_close c' = req_close_connection req \<and> (\<not> req_close_connection req \<longrightarrow> idle_conn c')
    \<and> co_res c' = after_response (req_keep_alive req) \<and> \<not> co_need_after c'"
proof -
  let ?c = "c\<lparr>co_keep_alive := req_keep_alive req, co_close := req_close_connection req, co_need_after := False\<rparr>"
  let ?c1 = "?c\<lparr>co_need_after := True, co_res := r\<rparr>"
  have "ready_conn ?c1" using c(1) by (simp add: ready_conn_def)
  from complete_request_once[OF this, of env] obtain c' man where c':
    "complete_request env ?c1 = (c', Cleared)"
    "co_out c' = co_out c @ response_text (env_fs env) (req_keep_alive req) (env_server env) r"
    "co_res c' = response_default\<lparr>res_skip_body := res_skip_body r, res_manual_length_header := man\<rparr>"
    "ready_conn (c'\<lparr>co_open := True\<rparr>)" "\<not> co_need_after c'" "co_keep_alive c' = req_keep_alive req"
    "co_close c' = req_close_connection req" "\<not> req_close_connection req \<longrightarrow> co_open c'"
    by auto
  let ?c2 = "c'\<lparr>co_res := response_default\<rparr>"
  let ?c3 = "if req_keep_alive req then ?c2\<lparr>co_res := set_header ''connection'' ''Keep-Alive'' response_default\<rparr> else ?c2"
  have flags: "(co_res c')\<lparr>res_manual_length_header := False, res_skip_body := False\<rparr> = response_default"
    using c'(3) by (simp add: response_default_def)
  have "conn_handle env req c = run_rule env req (?c\<lparr>co_need_after := True\<rparr>)"
    using host up res by (auto simp: conn_handle_def Let_def)
  also have "\<dots> = (?c3, Cleared)"
    using given found c'(1,6) flags by (simp add: run_rule_def)
  finally have h: "conn_handle env req c = (?c3, Cleared)" .
  have "\<not> req_close_connection req \<longrightarrow> idle_conn ?c3"
    using c'(4,5,8) by (auto simp: idle_conn_def ready_conn_def after_response_def)
  with h c' show ?thesis by (intro exI[of _ ?c3]) (simp add: after_response_def)
qed


text \<open>One request whose three calls are known, through the parser and the loop.\<close>

lemma serve_request:
  assumes ok: "request_ok m path q d hs body" and idle: "idle_session (P, ob, True)"
    and url: "handle_url_hook (conn_hooks env) (url_request m path q (po_req ob)) (handler ob) = (h1, Unchanged)"
    and header: "handle_header_hook (conn_hooks env) (full_request m path q d hs []) h1 = (h2, Unchanged)"
    and msg: "handle_hook (conn_hooks env) (full_request m path q d hs body) h2 = (h3, Cleared)"
    and h3: "\<not> co_need_after h3" "\<not> co_close h3 \<longrightarrow> idle_conn h3"
  shows "\<exists>P' ob'. serve env base [Some (request_text m path q d hs body)] (P, ob, True) = Some (P', ob', \<not> co_close h3)
    \<and> co_out (handler ob') = co_out h3
    \<and> (\<not> co_close h3 \<longrightarrow> idle_session (P', ob', True) \<and> handler ob' = h3)"
proof -
  let ?text = "request_text m path q d hs body"
  have P: "idle_parser P" and ob: "idle_obj ob" using idle by (simp_all add: idle_session_def)
  obtain P' ob' where feed: "feed (conn_hooks env) base ?text (P, ob) = Some (True, P', ob')" "handler ob' = h3"
      "idle_parser P'" "idle_obj ob'"
    using feed_request[OF ok P ob url header msg, of base] by auto
  have finished: "feed_done (conn_hooks env) (P', ob') = Some (True, P', ob')"
    using feed(3,4) by (simp add: feed_done_def feed_def idle_obj_def idle_parser_def http_parser_execute_def)
  show ?thesis
  proof (cases "co_close h3")
    case True
    have "\<exists>ob2. do_read env base (Some ?text) (P, ob) = Some (P', ob2, False) \<and> co_out (handler ob2) = co_out h3"
      using feed True finished by (simp add: do_read_def Let_def)
    with True show ?thesis by auto
  next
    case False
    then have "co_open h3" "idle_conn h3" using h3(2) by (simp_all add: idle_conn_def ready_conn_def)
    then have "do_read env base (Some ?text) (P, ob) = Some (P', ob', True)"
      using feed h3(1) False by (simp add: do_read_def Let_def)
    with False feed \<open>idle_conn h3\<close> show ?thesis by (auto simp: idle_session_def)
  qed
qed

text \<open>The URL is accepted when the router has a rule or a catch-all for it.\<close>

lemma url_accepted:
  assumes "handle_initial (env_strtod env) (env_router env) (full_request m path q d hs body) (co_res c) = (found, res1)"
    and "\<not> (hf_rule found = 0 \<and> \<not> hf_catch_all found)"
  shows "handle_url_hook (conn_hooks env) (url_request m path q r) c = (c\<lparr>co_found := Some found, co_res := res1\<rparr>, Unchanged)"
proof -
  have "handle_initial (env_strtod env) (env_router env) (url_request m path q r) (co_res c) = (found, res1)"
    using assms(1) handle_initial_same[of "url_request m path q r" "full_request m path q d hs body" "env_strtod env" "env_router env" "co_res c"]
    by (simp add: url_request_def)
  then show ?thesis using assms(2) by (auto simp: conn_hooks_def conn_handle_url_def Let_def)
qed

lemma host_required:
  assumes "isdigit d" "if d = CHR ''1'' then 0 < ci_count hs ''host'' else True"
  shows "req_http_major (full_request m path q d hs body) = 1 \<and> req_http_minor (full_request m path q d hs body) = 1
    \<longrightarrow> 0 < ci_count (req_headers (full_request m path q d hs body)) ''host''"
  using assms digit_val_simps[OF assms(1)] by auto

lemma request_answered_raw:
  assumes ok: "request_ok m path q d hs body" and idle: "idle_session (P, ob, True)"
    and host: "if d = CHR ''1'' then 0 < ci_count hs ''host'' else True"
    and expect: "get_header_value hs ''expect'' \<noteq> ''100-continue''"
    and resp: "router_response env (full_request m path q d hs body) (co_res (handler ob)) = Some r"
  shows "\<exists>P' ob'. let req = full_request m path q d hs body in
      serve env base [Some (request_text m path q d hs body)] (P, ob, True) = Some (P', ob', \<not> req_close_connection req)
    \<and> co_out (handler ob') = co_out (handler ob) @ response_text (env_fs env) (req_keep_alive req) (env_server env) r
    \<and> (if req_close_connection req then True
       else idle_session (P', ob', True) \<and> co_res (handler ob') = after_response (req_keep_alive req))"
proof -
  let ?req = "full_request m path q d hs body" and ?c = "handler ob"
  have c: "idle_conn ?c" and dig: "isdigit d" using idle ok by (simp_all add: idle_session_def request_ok_def)
  obtain found res1 where f: "handle_initial (env_strtod env) (env_router env) ?req (co_res ?c) = (found, res1)"
    by (cases "handle_initial (env_strtod env) (env_router env) ?req (co_res ?c)")
  with resp obtain res2 where found: "\<not> (hf_rule found = 0 \<and> \<not> hf_catch_all found)" "\<not> res_completed res1"
      "handle (env_router env) ?req res1 found = Inr (Some r, res2)"
    by (auto simp: router_response_def split: if_splits sum.splits prod.splits)
  let ?c1 = "?c\<lparr>co_found := Some found, co_res := res1\<rparr>"
  have header: "handle_header_hook (conn_hooks env) (full_request m path q d hs []) ?c1 = (?c1, Unchanged)"
    using expect by (simp add: conn_hooks_def conn_handle_header_def)
  have "ready_conn ?c1" "\<not> co_need_after ?c1" using c by (simp_all add: idle_conn_def ready_conn_def)
  then obtain c' where c': "conn_handle env ?req ?c1 = (c', Cleared)"
      "co_out c' = co_out ?c @ response_text (env_fs env) (req_keep_alive ?req) (env_server env) r"
      "co_close c' = req_close_connection ?req" "\<not> req_close_connection ?req \<longrightarrow> idle_conn c'" "\<not> co_need_after c'"
      "co_res c' = after_response (req_keep_alive ?req)"
    using conn_handle_answers[of ?c1 found ?req env r res2] found(2,3) host_required[OF dig host, of m path q body] by auto
  have msg: "handle_hook (conn_hooks env) ?req ?c1 = (c', Cleared)" using c'(1) by (simp add: conn_hooks_def)
  from serve_request[OF ok idle url_accepted[OF f found(1)] header msg c'(5), of base] c'(2,3,4,6)
  show ?thesis by (auto simp: Let_def)
qed


text \<open>A URL that the connection answers itself: the parser is cleared in the middle, and stops.\<close>

lemma feed_url_aborted:
  assumes ok: "request_ok m path q d hs body" and P: "idle_parser P" and ob: "idle_obj ob"
    and url: "handle_url_hook hk (url_request m path q (po_req ob)) (handler ob) = (h1, Aborted)"
  shows "\<exists>P' ob'. feed hk base (request_text m path q d hs body) (P, ob) = Some (False, P', ob') \<and> handler ob' = h1
    \<and> hp_errno P' = CHPE_INVALID_EOF_STATE \<and> \<not> message_complete ob'"
proof -
  let ?cb = "http_callbacks hk"
  define data where "data = request_text m path q d hs body"
  have small: "small data" and uok: "url_ok path q" and m: "m \<noteq> Connect" using ok by (simp_all add: request_ok_def data_def)
  have Pst: "hp_errno P = CHPE_OK" "hp_qs_point P = 0" "hp_nread P = 0" using P by (simp_all add: idle_parser_def)
  let ?p = "length (method_name m) + 1"
  obtain i where m1: "moves ?cb base data (start_cfg P ob)
      (at_pos ((reset_flags P)\<lparr>hp_method := m, hp_state := S_req_spaces_before_url, hp_index := i\<rparr>) ?p None None (with_method m ob))"
      and d: "drop ?p data = path @ q @ CHR '' '' # version_text d @ header_lines hs @ crlf @ body"
    using method_read[OF data_def ok P] by blast
  let ?P1 = "(reset_flags P)\<lparr>hp_method := m, hp_state := S_req_spaces_before_url, hp_index := i\<rparr>"
  let ?p2 = "?p + length (path @ q)"
  obtain st where st: "st \<in> {S_req_path, S_req_query_string_start, S_req_query_string}"
    "moves ?cb base data (at_pos ?P1 ?p None None (with_method m ob))
      (at_pos (?P1\<lparr>hp_qs_point := query_point path q ?P1, hp_state := st\<rparr>) ?p2 (Some ?p) (Some ?p) (with_method m ob))"
    using url_chars_move[OF small uok, where P = ?P1 and p = ?p and s = "CHR '' '' # version_text d @ header_lines hs @ crlf @ body"
        and cb = ?cb and base = base and ob = "with_method m ob"] d m by auto
  let ?Q = "?P1\<lparr>hp_qs_point := query_point path q ?P1, hp_state := st\<rparr>"
  let ?P2 = "?P1\<lparr>hp_qs_point := query_point path q ?P1, hp_state := S_req_http_start\<rparr>"
  have "path \<noteq> []" using uok by (auto simp: url_ok_def)
  then have "on_url ?P2 (path @ q) (with_method m ob) = ob\<lparr>po_req := url_request m path q (po_req ob)\<rparr>"
    using ob Pst(2)
    by (cases "po_req ob") (simp add: on_url_def with_method_def url_request_def idle_obj_def query_point_def Let_def)
  then obtain ob' where hook: "call_hook (handle_url_hook hk) (on_url ?P2 (path @ q) (with_method m ob)) = (ob', Aborted)"
      "handler ob' = h1" "\<not> message_complete ob'"
    using url ob by (simp add: call_hook_def obj_clear_def Let_def)
  have d2: "drop ?p2 data = CHR '' '' # version_text d @ header_lines hs @ crlf @ body"
    using drop_append[of ?p data "path @ q"] d by simp
  have slice: "slice data ?p ?p2 = path @ q" using d by (simp add: slice_def)
  have stop: "\<exists>k P'. go ?cb base data (at_pos ?Q ?p2 (Some ?p) (Some ?p) (with_method m ob)\<lparr>nread := n\<rparr>) = Some (k, P', ob')
      \<and> hp_errno P' = CHPE_INVALID_EOF_STATE" if "n \<le> 2 * ?p2" for n
  proof -
    let ?c = "at_pos ?Q ?p2 (Some ?p) (Some ?p) (with_method m ob)\<lparr>nread := n\<rparr>"
    have "go ?cb base data ?c = run ?cb base data (exec_state ?cb base data (CHR '' '') (?c\<lparr>nread := n + 1\<rparr>))"
      using go_header[of data ?c "CHR '' ''" "version_text d @ header_lines hs @ crlf @ body" ?cb base] small d2 st(1) that
      by (auto simp: parsing_header_def)
    also have "exec_state ?cb base data (CHR '' '') (?c\<lparr>nread := n + 1\<rparr>) = do_url ?cb base data (CHR '' '') (?c\<lparr>nread := n + 1\<rparr>)"
      using st(1) by (auto simp: exec_state_def)
    also have "do_url ?cb base data (CHR '' '') (?c\<lparr>nread := n + 1\<rparr>) =
        Return (?p2 + 1) (?P2\<lparr>hp_state := S_start_req, hp_qs_point := 0, hp_errno := CHPE_INVALID_EOF_STATE\<rparr>) ob'"
      using hook slice
      by (simp add: do_url_def data_callback_def notify_def http_callbacks_def set_state_def apply_effect_def nread_swaps Let_def
          del: length_append)
    finally show ?thesis by (simp add: run_simps)
  qed
  have "\<exists>n \<le> 2 * ?p2. go ?cb base data (start_cfg P ob\<lparr>nread := 0\<rparr>) =
      go ?cb base data (at_pos ?Q ?p2 (Some ?p) (Some ?p) (with_method m ob)\<lparr>nread := n\<rparr>)"
    using moves_trans[OF m1 st(2)] by (auto simp: moves_def simp del: length_append)
  moreover have "start_cfg P ob\<lparr>nread := 0\<rparr> = start_cfg P ob" using Pst(3) by (simp add: start_cfg_def Let_def)
  ultimately obtain k P' where go: "go ?cb base data (start_cfg P ob) = Some (k, P', ob')" "hp_errno P' = CHPE_INVALID_EOF_STATE"
    using stop by metis
  have "data \<noteq> []" using method_name_nonempty[of m] by (simp add: data_def request_text_def)
  then have "http_parser_execute ?cb base data P ob = Some (k, P', ob')"
    using go(1) Pst(1) by (simp add: http_parser_execute_def go_def start_cfg_def Let_def)
  then show ?thesis using ob go(2) hook(2,3) unfolding data_def by (auto simp: feed_def idle_obj_def)
qed

text \<open>The connection is then closed.\<close>

lemma serve_aborted:
  assumes ok: "request_ok m path q d hs body" and idle: "idle_session (P, ob, True)"
    and url: "handle_url_hook (conn_hooks env) (url_request m path q (po_req ob)) (handler ob) = (h1, Aborted)"
  shows "\<exists>P' ob'. serve env base (Some (request_text m path q d hs body) # rs) (P, ob, True) = Some (P', ob', False)
    \<and> handler ob' = h1\<lparr>co_open := False\<rparr>"
proof -
  have "idle_parser P" "idle_obj ob" using idle by (simp_all add: idle_session_def)
  from feed_url_aborted[OF ok this url, of base] obtain P' ob' where feed:
      "feed (conn_hooks env) base (request_text m path q d hs body) (P, ob) = Some (False, P', ob')" "handler ob' = h1"
      "hp_errno P' = CHPE_INVALID_EOF_STATE" "\<not> message_complete ob'"
    by auto
  have "feed_done (conn_hooks env) (P', ob') = Some (False, P', ob')"
    using feed(3,4) by (simp add: feed_done_def feed_def http_parser_execute_def)
  then have "do_read env base (Some (request_text m path q d hs body)) (P, ob) =
      Some (P', ob'\<lparr>handler := (handler ob')\<lparr>co_open := False\<rparr>\<rparr>, False)"
    using feed(1) by (simp add: do_read_def Let_def)
  moreover have "serve env base rs (P', ob'', False) = Some (P', ob'', False)" for ob''
    by (cases rs) simp_all
  ultimately show ?thesis using feed(2) by auto
qed

lemma url_refused:
  assumes "handle_initial (env_strtod env) (env_router env) (full_request m path q d hs body) (co_res c) = (found, res1)"
    and "hf_rule found = 0 \<and> \<not> hf_catch_all found" and "idle_conn c"
  shows "\<exists>c'. handle_url_hook (conn_hooks env) (url_request m path q r) c = (c', Aborted)
    \<and> co_out c' = co_out c @ response_text (env_fs env) (co_keep_alive c) (env_server env) res1"
proof -
  have "handle_initial (env_strtod env) (env_router env) (url_request m path q r) (co_res c) = (found, res1)"
    using assms(1) handle_initial_same[of "url_request m path q r" "full_request m path q d hs body" "env_strtod env" "env_router env" "co_res c"]
    by (simp add: url_request_def)
  moreover have "ready_conn (c\<lparr>co_found := Some found, co_res := res1, co_need_after := True\<rparr>)"
    using assms(3) by (simp add: idle_conn_def ready_conn_def)
  note complete_request_once[OF this, of env]
  ultimately show ?thesis using assms(2) by (auto simp: conn_hooks_def conn_handle_url_def Let_def)
qed

text \<open>A request without the Host header that its version requires.\<close>

lemma conn_handle_no_host:
  assumes c: "ready_conn c" and flags: "\<not> res_skip_body (co_res c)" "\<not> res_manual_length_header (co_res c)"
    and host: "req_http_major req = 1" "req_http_minor req = 1" "ci_count (req_headers req) ''host'' = 0"
  shows "\<exists>c'. conn_handle env req c = (c', Cleared)
    \<and> co_out c' = co_out c @ response_text (env_fs env) (req_keep_alive req) (env_server env) (response_code 400)
    \<and> co_close c' = req_close_connection req \<and> (\<not> req_close_connection req \<longrightarrow> idle_conn c') \<and> \<not> co_need_after c'"
proof -
  let ?c = "c\<lparr>co_keep_alive := req_keep_alive req, co_close := req_close_connection req, co_need_after := False, co_res := response_code 400\<rparr>"
  have assign: "response_assign (response_code 400) (co_res c) = response_code 400"
    using flags by (simp add: response_assign_def response_code_def response_default_def)
  have "conn_handle env req c = complete_request env ?c" using host assign by (simp add: conn_handle_def Let_def)
  moreover have "ready_conn ?c" using c by (simp add: ready_conn_def)
  from complete_request_once[OF this, of env] obtain c' where c':
    "complete_request env ?c = (c', Cleared)"
    "co_out c' = co_out c @ response_text (env_fs env) (req_keep_alive req) (env_server env) (response_code 400)"
    "co_res c' = response_default" "ready_conn (c'\<lparr>co_open := True\<rparr>)" "\<not> co_need_after c'"
    "co_close c' = req_close_connection req" "\<not> req_close_connection req \<longrightarrow> co_open c'"
    by (auto simp: response_code_def response_default_def)
  ultimately show ?thesis
    by (intro exI[of _ c']) (auto simp: idle_conn_def ready_conn_def after_response_def)
qed

text \<open>The router accepts the URL of any method but HEAD and OPTIONS.\<close>

lemma initial_accepts:
  assumes "req_method req \<noteq> Head" "req_method req \<noteq> Options" "handle_initial sd rt req res = (found, res1)"
  shows "\<not> (hf_rule found = 0 \<and> \<not> hf_catch_all found)"
    and "res_completed res1 = res_completed res" "res_skip_body res1 = res_skip_body res"
    and "res_manual_length_header res1 = res_manual_length_header res"
  using assms by (auto simp: handle_initial_def found_of_def Let_def split: if_splits)

lemma after_response_flags [simp]:
  "\<not> res_completed (after_response keep)" "\<not> res_skip_body (after_response keep)" "\<not> res_manual_length_header (after_response keep)"
  by (simp_all add: after_response_def set_header_def response_default_def)

text \<open>Several requests on one connection, each in a buffer of its own.\<close>

type_synonym client_request = "http_method \<times> string \<times> string \<times> char \<times> (string \<times> string) list \<times> string"

definition client_text :: "client_request \<Rightarrow> string" where
  "client_text = (\<lambda>(m, path, q, d, hs, body). request_text m path q d hs body)"

definition client_req :: "client_request \<Rightarrow> request" where
  "client_req = (\<lambda>(m, path, q, d, hs, body). full_request m path q d hs body)"

definition client_ok :: "client_request \<Rightarrow> bool" where
  "client_ok = (\<lambda>(m, path, q, d, hs, body). request_ok m path q d hs body
     \<and> (if d = CHR ''1'' then 0 < ci_count hs ''host'' else True) \<and> get_header_value hs ''expect'' \<noteq> ''100-continue''
     \<and> \<not> req_close_connection (full_request m path q d hs body))"

text \<open>The answers, one after the other; each starts from the response object the one before left.\<close>

primrec served_text :: "'d app_env \<Rightarrow> client_request list \<Rightarrow> response \<Rightarrow> string option" where
  "served_text env [] res = Some []"
| "served_text env (r # rs) res =
     (if client_ok r then
        (case router_response env (client_req r) res of
           None \<Rightarrow> None
         | Some x \<Rightarrow> map_option ((@) (response_text (env_fs env) (req_keep_alive (client_req r)) (env_server env) x))
             (served_text env rs (after_response (req_keep_alive (client_req r)))))
      else None)"

lemma serve_in_order:
  assumes "idle_session (P, ob, True)" and "served_text env rs (co_res (handler ob)) = Some txts"
  shows "\<exists>P' ob'. serve env base (map (\<lambda>r. Some (client_text r)) rs) (P, ob, True) = Some (P', ob', True)
    \<and> idle_session (P', ob', True) \<and> co_out (handler ob') = co_out (handler ob) @ txts"
  using assms
proof (induction rs arbitrary: P ob txts)
  case Nil
  then show ?case by simp
next
  case (Cons r rs)
  obtain m path q d hs body where r: "r = (m, path, q, d, hs, body)" by (cases r)
  let ?req = "full_request m path q d hs body"
  from Cons.prems(2) obtain x ys where x: "client_ok r" "router_response env ?req (co_res (handler ob)) = Some x"
      "served_text env rs (after_response (req_keep_alive ?req)) = Some ys"
      "txts = response_text (env_fs env) (req_keep_alive ?req) (env_server env) x @ ys"
    by (auto simp: client_req_def r split: if_splits option.splits)
  then have ok: "request_ok m path q d hs body" "if d = CHR ''1'' then 0 < ci_count hs ''host'' else True"
      "get_header_value hs ''expect'' \<noteq> ''100-continue''" "\<not> req_close_connection ?req"
    by (auto simp: client_ok_def r split: if_splits)
  obtain P1 ob1 where 1: "serve env base [Some (client_text r)] (P, ob, True) = Some (P1, ob1, True)"
      "co_out (handler ob1) = co_out (handler ob) @ response_text (env_fs env) (req_keep_alive ?req) (env_server env) x"
      "idle_session (P1, ob1, True)" "co_res (handler ob1) = after_response (req_keep_alive ?req)"
    using request_answered_raw[OF ok(1) Cons.prems(1) ok(2,3) x(2), of base] ok(4) by (auto simp: client_text_def r Let_def)
  obtain P2 ob2 where 2: "serve env base (map (\<lambda>r. Some (client_text r)) rs) (P1, ob1, True) = Some (P2, ob2, True)"
      "idle_session (P2, ob2, True)" "co_out (handler ob2) = co_out (handler ob1) @ ys"
    using Cons.IH[OF 1(3), of ys] x(3) 1(4) by auto
  have "serve env base (map (\<lambda>r. Some (client_text r)) (r # rs)) (P, ob, True) =
      serve env base (map (\<lambda>r. Some (client_text r)) rs) (P1, ob1, True)"
    using 1(1) by (auto split: option.splits)
  with 1(2) 2 x(4) show ?case by simp
qed

section \<open>Properties\<close>

text \<open>C7. A request is answered: on an idle connection, when a well-formed request arrives in one buffer
  (with a Host header if its version is 1.1, and without an Expect header) and the router ends it with
  a response, then exactly that response is written, head and body.  The connection is then closed if
  the request asked for it, and else waits for the next request, idle as before.\<close>

theorem request_answered:
  assumes "request_ok m path q d hs body" and "idle_session (P, ob, True)"
    and "if d = CHR ''1'' then 0 < ci_count hs ''host'' else True"
    and "get_header_value hs ''expect'' \<noteq> ''100-continue''"
    and "router_response env (full_request m path q d hs body) (co_res (handler ob)) = Some r"
  shows "\<exists>P' ob'. let req = full_request m path q d hs body in
      serve env base [Some (request_text m path q d hs body)] (P, ob, True) = Some (P', ob', \<not> req_close_connection req)
    \<and> co_out (handler ob') = co_out (handler ob) @ response_text (env_fs env) (req_keep_alive req) (env_server env) r
    \<and> (if req_close_connection req then True
       else idle_session (P', ob', True) \<and> co_res (handler ob') = after_response (req_keep_alive req))"
  using assms by (rule request_answered_raw)


text \<open>C11. A request that the router has no rule for is answered as soon as its URL is read (every OPTIONS request,
  and HEAD of an unknown path): the answer is the one the router left, with the Keep-Alive line of the
  request before it, and then the connection is closed.  Nothing that arrives later is answered.\<close>

theorem answered_at_url:
  assumes ok: "request_ok m path q d hs body" and idle: "idle_session (P, ob, True)"
    and f: "handle_initial (env_strtod env) (env_router env) (full_request m path q d hs body) (co_res (handler ob)) = (found, res1)"
    and none: "hf_rule found = 0 \<and> \<not> hf_catch_all found"
  shows "\<exists>P' ob'. serve env base (Some (request_text m path q d hs body) # later) (P, ob, True) = Some (P', ob', False)
    \<and> co_out (handler ob') = co_out (handler ob) @ response_text (env_fs env) (co_keep_alive (handler ob)) (env_server env) res1
    \<and> \<not> co_open (handler ob')"
proof -
  have "idle_conn (handler ob)" using idle by (simp add: idle_session_def)
  from url_refused[OF f none this, of "po_req ob"] obtain c' where
    "handle_url_hook (conn_hooks env) (url_request m path q (po_req ob)) (handler ob) = (c', Aborted)"
    "co_out c' = co_out (handler ob) @ response_text (env_fs env) (co_keep_alive (handler ob)) (env_server env) res1"
    by blast
  with serve_aborted[OF ok idle this(1), of base later] show ?thesis by auto
qed

text \<open>A connection that is kept open answers in order: for a sequence of requests that do not ask to
  close, each in one buffer, exactly the router's responses are written, one for each request and in
  the order of the requests, and the connection ends up idle.\<close>

theorem keep_alive_in_order:
  assumes "idle_session (P, ob, True)" and "served_text env rs (co_res (handler ob)) = Some txts"
  shows "\<exists>P' ob'. serve env base (map (\<lambda>r. Some (client_text r)) rs) (P, ob, True) = Some (P', ob', True)
    \<and> idle_session (P', ob', True) \<and> co_out (handler ob') = co_out (handler ob) @ txts"
  using assms by (rule serve_in_order)

section \<open>Requests on a new connection\<close>

definition bare_env :: "int app_env" where
  "bare_env = \<lparr> env_router = empty_router, env_strtod = \<lambda>_. None, env_server = ''Crow'', env_threshold = 1048576,
     env_fs = \<lambda>_. None \<rparr>"

abbreviation fresh_session :: "'d session" where
  "fresh_session \<equiv> (http_parser_init, sample_obj new_conn, True)"

lemma fresh_idle: "idle_session (http_parser_init, sample_obj new_conn, True)"
proof -
  have "co_res new_conn = after_response False" by (simp add: new_conn_def after_response_def)
  then have "idle_conn new_conn" by (auto simp: idle_conn_def ready_conn_def new_conn_def)
  then show ?thesis
    by (simp add: idle_session_def idle_parser_def idle_obj_def http_parser_init_def sample_obj_def sample_request_def)
qed

lemma bare_find: "fr_rule (find_for strtod empty_router m url) = 0"
  using method_index_less[of m]
  by (simp add: find_for_def empty_router_def empty_per_method_def empty_node_def find_url_def)

lemma bare_catchall: "catchall_rule empty_router = None"
  by (simp add: empty_router_def)

lemma bare_response:
  "\<not> res_completed res \<Longrightarrow> \<not> res_skip_body res \<Longrightarrow> m \<noteq> Head \<Longrightarrow> m \<noteq> Options \<Longrightarrow>
  router_response bare_env (full_request m path q d hs body) res = Some (res\<lparr>res_code := 404, res_completed := True\<rparr>)"
  using bare_find[of "\<lambda>_. None :: (int \<times> string) option"]
  by (simp add: router_response_def handle_initial_def found_of_def bare_env_def list_ex_iff handle_def response_end_def
      bare_catchall Let_def)

lemma sample_plain_ok:
  assumes "hs = [(''Host'', ''x'')] \<or> hs = []" "m \<in> {Get, Options}"
  shows "request_ok m ''/code'' [] (CHR ''1'') hs []"
proof -
  have "url_ok ''/code'' []" by (simp add: url_ok_def is_url_char_def char_code_def)
  moreover have "lower_string ''Host'' = ''host''" "text_ok ''Host'' ''x''" by code_simp+
  moreover have "small (request_text m ''/code'' [] (CHR ''1'') hs [])" using assms
    by (auto simp: small_def max_header_size_def request_text_def version_text_def header_lines_def header_line_def crlf_def
        method_name_def method_index_def method_strings_def all_methods_def)
  ultimately show ?thesis using assms
    by (auto simp: request_ok_def header_allowed_def header_effect_def no_header_info_def connection_names_def isdigit_def char_code_def)
qed

lemma sample_plain_flags:
  assumes "hs = [(''Host'', ''x'')] \<or> hs = []"
  shows "req_keep_alive (full_request m path q (CHR ''1'') hs body)" "\<not> req_close_connection (full_request m path q (CHR ''1'') hs body)"
    "get_header_value hs ''expect'' \<noteq> ''100-continue''"
proof -
  have "fold header_effect [(''Host'', ''x'')] no_header_info = (None, False, False)"
      "fold header_effect [] no_header_info = (None, False, False)" by code_simp+
  then have e: "fold header_effect hs no_header_info = (None, False, False)" using assms by metis
  show "req_keep_alive (full_request m path q (CHR ''1'') hs body)" "\<not> req_close_connection (full_request m path q (CHR ''1'') hs body)"
    unfolding full_request_def e by simp_all
  have "get_header_value [(''Host'', ''x'')] ''expect'' = []" "get_header_value [] ''expect'' = []" by code_simp+
  then show "get_header_value hs ''expect'' \<noteq> ''100-continue''" using assms by auto
qed

abbreviation get_code :: client_request where
  "get_code \<equiv> (Get, ''/code'', [], CHR ''1'', [(''Host'', ''x'')], [])"

lemma get_code_answer:
  assumes "\<not> res_completed res" "\<not> res_skip_body res"
  shows "router_response bare_env (client_req get_code) res = Some (res\<lparr>res_code := 404, res_completed := True\<rparr>)"
  using bare_response[OF assms, of Get] by (simp add: client_req_def)

lemma host_counted: "0 < ci_count [(''Host'', ''x'')] ''host''"
  by code_simp

theorem request_answered_witness:
  "\<exists>P' ob'. serve bare_env 4096 [Some (client_text get_code)] fresh_session = Some (P', ob', True)
    \<and> co_out (handler ob') = response_text (\<lambda>_. None) True ''Crow'' (response_default\<lparr>res_code := 404, res_completed := True\<rparr>)"
proof -
  let ?hs = "[(''Host'', ''x'')]"
  have res: "co_res (handler (sample_obj (new_conn :: int conn))) = response_default" "co_out (handler (sample_obj (new_conn :: int conn))) = []"
    by (simp_all add: sample_obj_def new_conn_def)
  have a: "router_response bare_env (full_request Get ''/code'' [] (CHR ''1'') ?hs []) (co_res (handler (sample_obj (new_conn :: int conn))))
      = Some (response_default\<lparr>res_code := 404, res_completed := True\<rparr>)"
    unfolding res using bare_response[of response_default Get] by (simp add: response_default_def)
  show ?thesis
    using request_answered[OF sample_plain_ok fresh_idle _ _ a, of 4096] sample_plain_flags[of ?hs] host_counted res
    by (auto simp: client_text_def bare_env_def Let_def)
qed

theorem keep_alive_in_order_witness:
  "\<exists>P' ob'. serve bare_env 4096 [Some (client_text get_code), Some (client_text get_code)] fresh_session = Some (P', ob', True)
    \<and> co_out (handler ob') = response_text (\<lambda>_. None) True ''Crow'' (response_default\<lparr>res_code := 404, res_completed := True\<rparr>)
        @ response_text (\<lambda>_. None) True ''Crow'' ((after_response True)\<lparr>res_code := 404, res_completed := True\<rparr>)"
proof -
  have res: "co_res (handler (sample_obj (new_conn :: int conn))) = response_default" "co_out (handler (sample_obj (new_conn :: int conn))) = []"
    by (simp_all add: sample_obj_def new_conn_def)
  have ok: "client_ok get_code" "req_keep_alive (client_req get_code)"
    using sample_plain_ok[of "[(''Host'', ''x'')]" Get] sample_plain_flags[of "[(''Host'', ''x'')]"] host_counted
    by (simp_all add: client_ok_def client_req_def)
  have server: "env_server bare_env = ''Crow''" "env_fs bare_env = (\<lambda>_. None)" by (simp_all add: bare_env_def)
  have "served_text bare_env [get_code, get_code] (co_res (handler (sample_obj (new_conn :: int conn)))) =
      Some (response_text (\<lambda>_. None) True ''Crow'' (response_default\<lparr>res_code := 404, res_completed := True\<rparr>)
        @ response_text (\<lambda>_. None) True ''Crow'' ((after_response True)\<lparr>res_code := 404, res_completed := True\<rparr>))"
    using get_code_answer[of response_default] get_code_answer[of "after_response True"] ok server
    unfolding res(1) by (simp add: response_default_def)
  from keep_alive_in_order[OF fresh_idle this, of 4096] res(2) show ?thesis
    by (auto simp del: serve.simps)
qed


theorem answered_at_url_witness:
  "\<exists>P' ob'. serve bare_env 4096 [Some (request_text Options ''/code'' [] (CHR ''1'') [] []), Some (client_text get_code)] fresh_session
      = Some (P', ob', False)
    \<and> co_out (handler ob') = response_text (\<lambda>_. None) False ''Crow'' ((response_code 404)\<lparr>res_completed := True\<rparr>)"
proof -
  have obj: "co_res (handler (sample_obj (new_conn :: int conn))) = response_default" "co_out (handler (sample_obj (new_conn :: int conn))) = []"
      "co_keep_alive (handler (sample_obj (new_conn :: int conn))) = False" by (simp_all add: sample_obj_def new_conn_def)
  have "handle_initial (env_strtod bare_env) (env_router bare_env) (full_request Options ''/code'' [] (CHR ''1'') [] []) response_default
      = (not_found_anywhere, (response_code 404)\<lparr>res_completed := True\<rparr>)"
    using bare_find[of "\<lambda>_. None :: (int \<times> string) option"]
    by (simp add: handle_initial_def bare_env_def end_quietly_def response_end_def response_assign_def response_code_def response_default_def Let_def)
  then have f: "handle_initial (env_strtod bare_env) (env_router bare_env) (full_request Options ''/code'' [] (CHR ''1'') [] [])
      (co_res (handler (sample_obj (new_conn :: int conn)))) = (not_found_anywhere, (response_code 404)\<lparr>res_completed := True\<rparr>)"
    unfolding obj .
  have "hf_rule (not_found_anywhere :: int handle_found) = 0 \<and> \<not> hf_catch_all (not_found_anywhere :: int handle_found)"
    by (simp add: not_found_anywhere_def)
  from answered_at_url[OF sample_plain_ok fresh_idle f this, of 4096 "[Some (client_text get_code)]"] obj
  show ?thesis by (auto simp: bare_env_def)
qed

end
