(* ===== verification/Service.thy ===== *)
theory Service
  imports App Connection
begin

text \<open>
  The program on the wire: its router behind a connection with the settings of crow/app.h.  What a
  client reads is the text of the documented answer of each path, one answer for each request; for a
  static file it is the content of the file.
\<close>

section \<open>The settings of the program\<close>

definition program_env ::
    "(string \<Rightarrow> ('d \<times> string) option) \<Rightarrow> (string \<Rightarrow> string option) \<Rightarrow> 'd router \<Rightarrow> 'd app_env" where
  "program_env strtod fs rt =
     \<lparr> env_router = rt, env_strtod = strtod, env_server = ''Crow/'' @ ''master'', env_threshold = 1048576, env_fs = fs \<rparr>"

section \<open>Responses of handlers\<close>

text \<open>A response as its constructors make it: not ended, and without the flags of a HEAD request.\<close>

definition fresh_response :: "response \<Rightarrow> bool" where
  "fresh_response r \<longleftrightarrow> \<not> res_completed r \<and> \<not> res_skip_body r \<and> \<not> res_manual_length_header r"

named_theorems fresh \<open>responses as the constructors and the handlers make them\<close>

lemma fresh_constructors [fresh]:
  "fresh_response response_default" "fresh_response (response_code c)" "fresh_response (response_body b)"
  "fresh_response (response_code_body c b)" "fresh_response (not_found b)"
  "fresh_response (set_header k v r) = fresh_response r" "fresh_response (add_header k v r) = fresh_response r"
  by (simp_all add: fresh_response_def response_default_def response_code_def response_body_def response_code_body_def
      not_found_def set_header_def add_header_def)

lemma fresh_json [fresh]: "fresh_response (response_json fp j)"
  by (simp add: fresh_response_def response_json_def set_header_def response_default_def)

lemma fresh_error [fresh]: "fresh_response (default_exception_handler e)"
  by (cases e) (simp_all add: fresh_response_def default_exception_handler_def response_code_def response_default_def)

lemma fresh_files [fresh]:
  "fresh_response (h_index fs)" "fresh_response (h_style_css fs)" "fresh_response (h_app_js fs)"
  "fresh_response (h_download_source fs)" "fresh_response (h_source_code fs)" "fresh_response h_code"
  by (simp_all add: h_index_def h_style_css_def h_app_js_def h_download_source_def h_source_code_def h_code_def fresh Let_def)

lemma fresh_reports [fresh]:
  "fresh_response (report_airline_json fp db t)" "fresh_response (report_airline_csv db t)"
  "fresh_response (report_airport_json fp db t)" "fresh_response (report_airport_csv db t)"
  "fresh_response (report_airlines_json fp db)" "fresh_response (report_airlines_csv db)"
  "fresh_response (report_airports_json fp db)" "fresh_response (report_airports_csv fp db)"
  by (simp_all add: report_airline_json_def report_airline_csv_def report_airport_json_def report_airport_csv_def
      report_airlines_json_def report_airlines_csv_def report_airports_json_def report_airports_csv_def csv_reply_def fresh Let_def)

lemma fresh_lookups [fresh]:
  "fresh_response (h_airline fp db t)" "fresh_response (h_airline_by_icao fp db t)"
  "fresh_response (handled (h_airport fp db t))" "fresh_response (h_airlines_suggest fp db q)"
  "fresh_response (h_airports_suggest fp db q)" "fresh_response (h_student_id fp)"
  "fresh_response (h_onehop fp db s t)" "fresh_response (h_routes fp db s t)"
  by (simp_all add: h_airline_def h_airline_by_icao_def h_airport_def airport_by_code_or_name_def handled_def h_airlines_suggest_def
      h_airports_suggest_def h_student_id_def h_onehop_def h_routes_def fresh Let_def split: option.splits sum.splits)

lemma fresh_static [fresh]: "fresh_response (static_handler fs t r) = fresh_response r"
  by (simp add: static_handler_def set_static_file_info_unsafe_def fresh_response_def add_header_def Let_def split: option.splits)

text \<open>What a handler leaves in the response it is given.\<close>

definition acted :: "rule_action \<Rightarrow> response \<Rightarrow> response" where
  "acted a r = (case a of Returns h \<Rightarrow> handled h | Writes w \<Rightarrow> w r)"

lemma documented_fresh: "documented fp fs db req url a \<Longrightarrow> fresh_response (acted a r)"
  by (erule documented.cases) (simp_all add: acted_def handled_def[where h = "Inr r" for r] fresh)

lemma program_fresh: "program_answer fp fs req url a \<Longrightarrow> fresh_response r \<Longrightarrow> fresh_response (acted a r)"
  by (auto simp: program_answer_def static_answer_def acted_def fresh dest: documented_fresh[where r = r] split: if_splits)

section \<open>The router behind a connection\<close>

text \<open>What the router does with a request whose method is neither HEAD nor OPTIONS, whatever the response is then.\<close>

lemma table_found:
  assumes ok: "table_ok rs" and v: "router_validate (table_router rs) = Some (Inr rt)"
    and m: "req_method req \<noteq> Head" "req_method req \<noteq> Options"
    and f: "handle_initial strtod rt req res = (found, res1)"
  shows "case first_match strtod rs (req_url req) of
      Some (h, ps) \<Rightarrow>
        if req_method req = Get then res1 = res \<and> (\<forall>r. handle rt req r found = Inr (run_handler (h req ps) r))
        else res1 = res\<lparr>res_code := 405\<rparr> \<and> (\<forall>r. handle rt req r found = Inr (response_end True r))
    | None \<Rightarrow> res1 = res\<lparr>res_code := 404\<rparr> \<and> (\<forall>r. handle rt req r found = Inr (response_end True r))"
proof -
  note fr = table_fr_rule[OF ok v, of strtod] table_fr_pos[OF ok v, of strtod]
  note handle = table_catchall[OF ok v] table_handle_Get[OF ok v, of strtod "req_url req"]
  show ?thesis
    using f fr handle m
    by (cases "first_match strtod rs (req_url req)")
      (auto simp: list_ex_methods handle_initial_def found_of_def handle_def Let_def split: if_splits)
qed

section \<open>Answers of the program\<close>

text \<open>
  The response to a request, given whether the answer before it was sent with Keep-Alive: without a
  handler, the header set too late for that answer is sent with this one.
\<close>

definition service_reply :: "(string \<Rightarrow> ('d \<times> string) option) \<Rightarrow> 'd route list \<Rightarrow> bool \<Rightarrow> request \<Rightarrow> response" where
  "service_reply strtod rs kept req =
     (case table_answer strtod rs req (req_url req) of
        Some a \<Rightarrow> if req_method req = Get then acted a (after_response kept) else (after_response kept)\<lparr>res_code := 405\<rparr>
      | None \<Rightarrow> (after_response kept)\<lparr>res_code := 404\<rparr>)"

primrec service_texts ::
    "(string \<Rightarrow> ('d \<times> string) option) \<Rightarrow> (string \<Rightarrow> string option) \<Rightarrow> 'd route list \<Rightarrow> string \<Rightarrow> bool \<Rightarrow> client_request list \<Rightarrow> string" where
  "service_texts strtod fs rs server kept [] = []"
| "service_texts strtod fs rs server kept (r # later) =
     response_text fs (req_keep_alive (client_req r)) server (service_reply strtod rs kept (client_req r))
     @ service_texts strtod fs rs server (req_keep_alive (client_req r)) later"

text \<open>Requests that the connection passes to the router: neither HEAD nor OPTIONS.\<close>

definition service_request :: "client_request \<Rightarrow> bool" where
  "service_request r \<longleftrightarrow> client_ok r \<and> fst r \<noteq> Head \<and> fst r \<noteq> Options"

lemma write_header_completed:
  "write_header_into_buffer keep server (r\<lparr>res_completed := b\<rparr>) =
     map_prod id (\<lambda>r. r\<lparr>res_completed := b\<rparr>) (write_header_into_buffer keep server r)"
proof -
  have "sent (r\<lparr>res_completed := b\<rparr>) = (sent r)\<lparr>res_completed := b\<rparr>" by (simp add: sent_def Let_def)
  moreover have "extra_headers keep server (x\<lparr>res_completed := b\<rparr>) = extra_headers keep server x" for x
    by (simp add: extra_headers_def)
  ultimately show ?thesis by (simp add: write_header_eq)
qed

lemma sent_body_completed: "sent_body fs (r\<lparr>res_completed := b\<rparr>) = sent_body fs r"
  by (simp add: sent_body_def is_static_type_def)

lemma response_text_completed [simp]: "response_text fs keep server (r\<lparr>res_completed := b\<rparr>) = response_text fs keep server r"
  by (simp add: response_text_def write_header_completed sent_body_completed case_prod_beta)

lemma end_fresh: "fresh_response r \<Longrightarrow> fst (response_end True r) = Some (r\<lparr>res_completed := True\<rparr>)"
  by (simp add: fresh_response_def response_end_def Let_def)

lemma assign_fresh: "fresh_response r \<Longrightarrow> fresh_response res \<Longrightarrow> response_assign r res = r"
  by (cases r; cases res) (simp add: fresh_response_def response_assign_def)

lemma run_fresh:
  assumes "fresh_response (acted a res)" "fresh_response res"
  shows "fst (run_handler a res) = Some ((acted a res)\<lparr>res_completed := True\<rparr>)"
proof -
  have "run_handler a res = response_end True (acted a res)"
  proof (cases a)
    case (Returns h)
    then show ?thesis using assign_fresh[of "handled h" res] assms
      by (cases h) (simp_all add: run_handler_def acted_def handled_def)
  qed (simp add: run_handler_def acted_def)
  then show ?thesis using end_fresh[OF assms(1)] by simp
qed

lemma fresh_after [fresh]: "fresh_response (after_response kept)" "fresh_response (r\<lparr>res_code := c\<rparr>) = fresh_response r"
  by (simp_all add: fresh_response_def)

text \<open>The response the router ends with, on the program's table.\<close>

lemma program_found:
  fixes fp fs
  defines "rs \<equiv> program_routes fp fs"
  assumes app: "server_app fp fs = Some (Inr rt)" and m: "req_method req \<noteq> Head" "req_method req \<noteq> Options"
    and f: "handle_initial strtod rt req (after_response kept) = (found, res1)"
  shows "fresh_response res1" and "\<exists>res2. handle rt req res1 found = Inr (Some ((service_reply strtod rs kept req)\<lparr>res_completed := True\<rparr>), res2)"
    and "fresh_response r \<Longrightarrow> \<exists>res2. handle rt req r found =
      Inr (Some ((case table_answer strtod rs req (req_url req) of
          Some a \<Rightarrow> if req_method req = Get then acted a r else r | None \<Rightarrow> r)\<lparr>res_completed := True\<rparr>), res2)"
proof -
  have v: "router_validate (table_router rs) = Some (Inr rt)" using app by (simp add: server_app_def rs_def)
  have ok: "table_ok rs" unfolding rs_def by (rule server_table_ok)
  note t = table_found[OF ok v m f]
  have handlers: "fresh_response (acted a r)" if "table_answer strtod rs req (req_url req) = Some a" "fresh_response r" for a r
    using that(1) program_fresh[OF _ that(2)] unfolding rs_def program_answer_iff by blast
  have pairs: "fst x = Some y \<Longrightarrow> \<exists>z. x = (Some y, z)" for x :: "response option \<times> response" and y
    by (cases x) simp
  show "fresh_response res1"
    using t by (auto simp: fresh split: option.splits if_splits prod.splits)
  show all: "\<exists>res2. handle rt req r found =
      Inr (Some ((case table_answer strtod rs req (req_url req) of
          Some a \<Rightarrow> if req_method req = Get then acted a r else r | None \<Rightarrow> r)\<lparr>res_completed := True\<rparr>), res2)"
    if "fresh_response r" for r
    using t handlers[OF _ that] run_fresh[OF _ that] end_fresh[OF that]
    by (auto simp: table_answer_def intro!: pairs split: option.splits prod.splits if_splits)
  show "\<exists>res2. handle rt req res1 found = Inr (Some ((service_reply strtod rs kept req)\<lparr>res_completed := True\<rparr>), res2)"
    using all[OF \<open>fresh_response res1\<close>] t
    by (auto simp: service_reply_def table_answer_def split: option.splits prod.splits if_splits)
qed

lemma program_response:
  assumes app: "server_app fp fs = Some (Inr rt)" and m: "req_method req \<noteq> Head" "req_method req \<noteq> Options"
  shows "router_response (program_env strtod fs' rt) req (after_response kept) =
    Some ((service_reply strtod (program_routes fp fs) kept req)\<lparr>res_completed := True\<rparr>)"
proof -
  obtain found res1 where f: "handle_initial strtod rt req (after_response kept) = (found, res1)"
    by (cases "handle_initial strtod rt req (after_response kept)")
  show ?thesis
    using program_found(1,2)[OF app m f] initial_accepts(1)[OF m f] f
    by (auto simp: router_response_def program_env_def fresh_response_def)
qed

text \<open>The answers to a sequence of requests.\<close>

lemma program_texts:
  assumes app: "server_app fp fs = Some (Inr rt)"
  shows "list_all service_request rs \<Longrightarrow> served_text (program_env strtod fs rt) rs (after_response kept) =
    Some (service_texts strtod fs (program_routes fp fs) ''Crow/master'' kept rs)"
proof (induction rs arbitrary: kept)
  case (Cons r rs)
  obtain m path q d hs body where r: "r = (m, path, q, d, hs, body)" by (cases r)
  have ok: "client_ok r" "m \<noteq> Head" "m \<noteq> Options" using Cons.prems by (simp_all add: service_request_def r)
  then have "router_response (program_env strtod fs rt) (client_req r) (after_response kept) =
      Some ((service_reply strtod (program_routes fp fs) kept (client_req r))\<lparr>res_completed := True\<rparr>)"
    using program_response[OF app] by (simp add: client_req_def r)
  moreover have "env_server (program_env strtod fs rt) = ''Crow/master''" "env_fs (program_env strtod fs rt) = fs"
    by (simp_all add: program_env_def)
  ultimately show ?case using ok(1) Cons by simp
qed simp

definition new_session :: "'d session" where
  "new_session = conn_start (http_parser_init, sample_obj new_conn)"

lemma new_session_idle:
  "\<exists>P ob. (new_session :: 'd session) = (P, ob, True) \<and> idle_session (P, ob, True) \<and> co_res (handler ob) = after_response False
    \<and> co_out (handler ob) = []"
proof -
  let ?P = "http_parser_init\<lparr>hp_qs_point := 0, hp_state := S_start_req\<rparr>" and ?ob = "obj_clear (sample_obj (new_conn :: 'd conn))"
  have c: "handler ?ob = new_conn" by (simp add: obj_clear_def sample_obj_def)
  have res: "co_res (new_conn :: 'd conn) = after_response False" by (simp add: new_conn_def after_response_def)
  then have "idle_conn (new_conn :: 'd conn)" by (auto simp: idle_conn_def ready_conn_def new_conn_def)
  then have "idle_session (?P, ?ob, True)"
    using c by (simp add: idle_session_def idle_parser_def http_parser_init_def idle_obj_def obj_clear_def new_request_def sample_obj_def)
  moreover have "co_out (new_conn :: 'd conn) = []" by (simp add: new_conn_def)
  ultimately show ?thesis
    using c res by (simp add: new_session_def conn_start_def parser_clear_def)
qed

text \<open>A request that waits for \<open>100 Continue\<close>: writing that line clears the response of the router.\<close>

lemma continue_written:
  assumes "get_header_value hs ''expect'' = ''100-continue''" "ready_conn c" "\<not> co_need_after c" "fresh_response (co_res c)"
  shows "\<exists>c'. handle_header_hook (conn_hooks env) (full_request m path q (CHR ''1'') hs body) c = (c', Unchanged)
    \<and> ready_conn c' \<and> \<not> co_need_after c' \<and> co_res c' = response_default \<and> co_found c' = co_found c
    \<and> co_out c' = co_out c @ continue_line"
proof -
  have "response_clear (co_res c) = response_default"
    using assms(4) by (simp add: response_clear_def response_default_def fresh_response_def)
  moreover have "digit_val (CHR ''1'') = 1" by (simp add: digit_val_def char_code_def)
  ultimately show ?thesis
    using assms(1-3) by (simp add: conn_hooks_def conn_handle_header_def do_write_sync_def ready_conn_def)
qed

section \<open>Properties\<close>

text \<open>C2. The program serves a connection: when a client opens a connection and sends requests, one in each
  buffer, none of them HEAD, OPTIONS or asking to close, then the text it receives is that of one
  response for each request in the order of the requests: for a GET of a path in the table the
  response of its handler, and else a 405 or a 404.  Every request must be well-formed and keep the connection, have
  a Host if it is of HTTP 1.1, and not expect \<open>100-continue\<close> (\<open>client_ok\<close>).\<close>

theorem program_serves:
  fixes fp :: "'d fpops"
  assumes "list_all service_request rs"
  shows "\<exists>rt P ob. server_app fp fs = Some (Inr rt)
    \<and> serve (program_env strtod fs rt) base (map (\<lambda>r. Some (client_text r)) rs) new_session = Some (P, ob, True)
    \<and> co_out (handler ob) = service_texts strtod fs (program_routes fp fs) ''Crow/master'' False rs"
proof -
  obtain rt where app: "server_app fp fs = Some (Inr rt)"
    using table_router_validates[OF server_table_ok] unfolding server_app_def by blast
  obtain P ob where new: "(new_session :: 'd session) = (P, ob, True)" "idle_session (P, ob, True)" "co_res (handler ob) = after_response False"
      "co_out (handler ob) = []"
    using new_session_idle by blast
  have "served_text (program_env strtod fs rt) rs (co_res (handler ob)) =
      Some (service_texts strtod fs (program_routes fp fs) ''Crow/master'' False rs)"
    unfolding new(3) by (rule program_texts[OF app assms])
  from serve_in_order[OF new(2) this, of base] app new(1,4) show ?thesis by auto
qed

text \<open>A GET request for a path of the table on an idle connection of the program is answered with what the
  documented handler leaves in the response, head and body (a file, for the paths of static files),
  and a GET for any other path with a 404.\<close>

theorem documented_get_served:
  assumes app: "server_app fp fs = Some (Inr rt)" and ok: "request_ok Get path q d hs body"
    and idle: "idle_session (P, ob, True)" and res: "co_res (handler ob) = after_response kept"
    and host: "if d = CHR ''1'' then 0 < ci_count hs ''host'' else True"
    and expect: "get_header_value hs ''expect'' \<noteq> ''100-continue''"
  shows "\<exists>P' ob' reply reading. let req = full_request Get path q d hs body in
      serve (program_env strtod fs rt) base [Some (request_text Get path q d hs body)] (P, ob, True) = Some (P', ob', reading)
    \<and> co_out (handler ob') = co_out (handler ob) @ response_text fs (req_keep_alive req) ''Crow/master'' reply
    \<and> (\<forall>a. program_answer fp fs req path a \<longrightarrow> reply = acted a (after_response kept))
    \<and> ((\<exists>a. program_answer fp fs req path a) \<or> reply = (after_response kept)\<lparr>res_code := 404\<rparr>)"
proof -
  let ?req = "full_request Get path q d hs body"
  let ?reply = "service_reply strtod (program_routes fp fs) kept ?req"
  have "router_response (program_env strtod fs rt) ?req (co_res (handler ob)) = Some (?reply\<lparr>res_completed := True\<rparr>)"
    unfolding res by (rule program_response[OF app]) simp_all
  from request_answered_raw[OF ok idle host expect this, of base] obtain P' ob' where
    "serve (program_env strtod fs rt) base [Some (request_text Get path q d hs body)] (P, ob, True) = Some (P', ob', \<not> req_close_connection ?req)"
    "co_out (handler ob') = co_out (handler ob) @ response_text fs (req_keep_alive ?req) ''Crow/master'' ?reply"
    by (auto simp: Let_def program_env_def)
  moreover have "\<forall>a. program_answer fp fs ?req path a \<longrightarrow> ?reply = acted a (after_response kept)"
    using program_answer_iff[THEN iffD2, of fp fs ?req path _ strtod] by (auto simp: service_reply_def)
  moreover have "(\<exists>a. program_answer fp fs ?req path a) \<or> ?reply = (after_response kept)\<lparr>res_code := 404\<rparr>"
    using program_answer_iff[THEN iffD1, of strtod fp fs ?req path]
    by (cases "table_answer strtod (program_routes fp fs) ?req path") (auto simp: service_reply_def)
  ultimately show ?thesis unfolding Let_def by blast
qed


section \<open>On a new connection of the program\<close>

abbreviation bare_fp :: "real fpops" where
  "bare_fp \<equiv> real_fp (\<lambda>_. None) (\<lambda>_. [])"

lemma bare_app: "\<exists>rt. server_app bare_fp (\<lambda>_. None) = Some (Inr rt)"
  using table_router_validates[OF server_table_ok] unfolding server_app_def by blast

lemma code_answer: "program_answer fp fs req ''/code'' a \<longleftrightarrow> a = Returns (Inr h_code)"
proof -
  have d: "documented fp fs (server_db fp fs) req ''/code'' (Returns (Inr h_code))" by (rule documented.intros)
  have "documented fp fs (server_db fp fs) req ''/code'' b \<longleftrightarrow> b = Returns (Inr h_code)" for b
    using documented_unique[OF d, of b] d by (intro iffI) simp_all
  then show ?thesis by (simp add: program_answer_def)
qed

lemma code_reply: "service_reply strtod (program_routes fp fs) kept (client_req get_code) = h_code"
proof -
  have "table_answer strtod (program_routes fp fs) (client_req get_code) ''/code'' = Some (Returns (Inr h_code))"
    unfolding program_answer_iff code_answer by (rule refl)
  moreover have "req_url (client_req get_code) = ''/code''" "req_method (client_req get_code) = Get"
    by (simp_all add: client_req_def)
  ultimately show ?thesis by (simp add: service_reply_def acted_def handled_def)
qed

lemma get_code_ok: "service_request get_code" "req_keep_alive (client_req get_code)"
  using sample_plain_ok[of "[(''Host'', ''x'')]" Get] sample_plain_flags[of "[(''Host'', ''x'')]"] host_counted
  by (simp_all add: client_ok_def client_req_def service_request_def)

theorem program_serves_witness:
  "\<exists>rt P ob. server_app bare_fp (\<lambda>_. None) = Some (Inr rt)
    \<and> serve (program_env (\<lambda>_. None) (\<lambda>_. None) rt) 4096 [Some (client_text get_code), Some (client_text get_code)] new_session = Some (P, ob, True)
    \<and> co_out (handler ob) = response_text (\<lambda>_. None) True ''Crow/master'' h_code @ response_text (\<lambda>_. None) True ''Crow/master'' h_code"
proof -
  have "list_all service_request [get_code, get_code]" using get_code_ok by simp
  then show ?thesis
    using program_serves[where rs = "[get_code, get_code]" and fp = bare_fp and fs = "\<lambda>_. None" and base = 4096 and strtod = "\<lambda>_. None"] get_code_ok(2)
    by (simp add: code_reply del: serve.simps)
qed

theorem documented_get_served_witness:
  "\<exists>rt P ob reading. server_app bare_fp (\<lambda>_. None) = Some (Inr rt)
    \<and> serve (program_env (\<lambda>_. None) (\<lambda>_. None) rt) 4096 [Some (client_text get_code)] new_session = Some (P, ob, reading)
    \<and> co_out (handler ob) = response_text (\<lambda>_. None) True ''Crow/master'' h_code"
proof -
  obtain rt where app: "server_app bare_fp (\<lambda>_. None) = Some (Inr rt)" using bare_app by blast
  obtain P ob where new: "(new_session :: real session) = (P, ob, True)" "idle_session (P, ob, True)"
      "co_res (handler ob) = after_response False" "co_out (handler ob) = []"
    using new_session_idle by blast
  let ?hs = "[(''Host'', ''x'')]"
  have sample: "request_ok Get ''/code'' [] (CHR ''1'') ?hs []" "get_header_value ?hs ''expect'' \<noteq> ''100-continue''"
      "if CHR ''1'' = CHR ''1'' then 0 < ci_count ?hs ''host'' else True"
    using sample_plain_ok[of ?hs Get] sample_plain_flags[of ?hs] host_counted by simp_all
  from documented_get_served[OF app sample(1) new(2,3) sample(3,2), where base = 4096 and strtod = "\<lambda>_. None"]
  obtain P' ob' reply reading where
    s: "serve (program_env (\<lambda>_. None) (\<lambda>_. None) rt) 4096 [Some (request_text Get ''/code'' [] (CHR ''1'') ?hs [])] (P, ob, True) = Some (P', ob', reading)"
    "co_out (handler ob') = co_out (handler ob) @
      response_text (\<lambda>_. None) (req_keep_alive (full_request Get ''/code'' [] (CHR ''1'') ?hs [])) ''Crow/master'' reply"
    "\<forall>a. program_answer bare_fp (\<lambda>_. None) (full_request Get ''/code'' [] (CHR ''1'') ?hs []) ''/code'' a
      \<longrightarrow> reply = acted a (after_response False)"
    unfolding Let_def by blast
  have reply: "reply = h_code" using s(3) by (simp add: code_answer acted_def handled_def)
  have keep: "req_keep_alive (full_request Get ''/code'' [] (CHR ''1'') ?hs [])" using sample_plain_flags(1)[of ?hs] by simp
  have "co_out (handler ob') = response_text (\<lambda>_. None) True ''Crow/master'' h_code" using s(2) keep new(4) unfolding reply by simp
  moreover have "client_text get_code = request_text Get ''/code'' [] (CHR ''1'') ?hs []" by (simp add: client_text_def)
  ultimately show ?thesis using app s(1) new(1) by metis
qed

lemma none_undocumented: "\<not> program_answer fp fs req ''/none'' a"
proof -
  have "\<not> documented fp fs db req ''/none'' b" for db b by (rule notI) (erule documented.cases; simp)
  then show ?thesis by (simp add: program_answer_def static_answer_def)
qed

abbreviation expect_headers :: "(string \<times> string) list" where
  "expect_headers \<equiv> [(''Host'', ''x''), (''Expect'', ''100-continue'')]"

lemma expect_ok: "request_ok Get ''/none'' [] (CHR ''1'') expect_headers []"
proof -
  have "url_ok ''/none'' []" by (simp add: url_ok_def is_url_char_def char_code_def)
  moreover have "lower_string ''Host'' = ''host''" "lower_string ''Expect'' = ''expect''" by code_simp+
  moreover have "text_ok ''Host'' ''x''" "text_ok ''Expect'' ''100-continue''" by code_simp+
  moreover have "small (request_text Get ''/none'' [] (CHR ''1'') expect_headers [])"
    by (simp add: small_def max_header_size_def request_text_def version_text_def header_lines_def header_line_def crlf_def
        method_name_def method_index_def method_strings_def all_methods_def)
  ultimately show ?thesis
    by (simp add: request_ok_def header_allowed_def header_effect_def no_header_info_def connection_names_def isdigit_def char_code_def)
qed


end
