(* ===== verification/TaskTimer.thy ===== *)
theory TaskTimer
  imports Prelude
begin

text \<open>
  The timer of a worker thread (crow/task_timer.h): tasks in a \<open>std::map\<close> by identifier, each with the time
  after which it runs.  Times are milliseconds of the steady clock, read at each call; identifiers
  are counted up and start again when no task is left.  What a task does is a parameter: \<open>process_tasks\<close>
  gives the tasks it runs, in the order of the map.
\<close>

section \<open>The timer\<close>

text \<open>\<open>std::map::insert\<close> on the entries in the order of their keys; a key that is there stays.\<close>

fun map_insert :: "nat \<Rightarrow> 'b \<Rightarrow> (nat \<times> 'b) list \<Rightarrow> (nat \<times> 'b) list" where
  "map_insert k v [] = [(k, v)]"
| "map_insert k v ((j, w) # m) =
     (if k < j then (k, v) # (j, w) # m
      else if k = j then (j, w) # m
      else (j, w) # map_insert k v m)"

record 'a task_timer =
  tasks :: "(nat \<times> nat \<times> 'a) list"     \<comment> \<open>identifier, time, task\<close>
  highest_id :: nat
  tick_length_ms :: nat
  default_timeout :: nat

definition new_task_timer :: "nat \<Rightarrow> 'a task_timer" where
  "new_task_timer tick = \<lparr> tasks = [], highest_id = 0, tick_length_ms = tick, default_timeout = 5 \<rparr>"

definition set_default_timeout :: "nat \<Rightarrow> 'a task_timer \<Rightarrow> 'a task_timer" where
  "set_default_timeout timeout t = t\<lparr>default_timeout := timeout mod 256\<rparr>"

definition timer_cancel :: "nat \<Rightarrow> 'a task_timer \<Rightarrow> 'a task_timer" where
  "timer_cancel key t = t\<lparr>tasks := filter (\<lambda>(k, _). k \<noteq> key) (tasks t)\<rparr>"

definition schedule_after :: "nat \<Rightarrow> 'a \<Rightarrow> nat \<Rightarrow> 'a task_timer \<Rightarrow> nat \<times> 'a task_timer" where
  "schedule_after now task timeout t =
     (let key = highest_id t + 1
      in (key, t\<lparr>tasks := map_insert key (now + timeout * tick_length_ms t, task) (tasks t), highest_id := key\<rparr>))"

definition schedule :: "nat \<Rightarrow> 'a \<Rightarrow> 'a task_timer \<Rightarrow> nat \<times> 'a task_timer" where
  "schedule now task t = schedule_after now task (default_timeout t) t"

definition process_tasks :: "nat \<Rightarrow> 'a task_timer \<Rightarrow> 'a list \<times> 'a task_timer" where
  "process_tasks now t =
     (let due = filter (\<lambda>(_, time, _). time < now) (tasks t);
          finished = map fst due;
          rest = fold (\<lambda>key m. filter (\<lambda>(k, _). k \<noteq> key) m) finished (tasks t)
      in (map (\<lambda>(_, _, task). task) due,
          t\<lparr>tasks := rest, highest_id := (if rest = [] then 0 else highest_id t)\<rparr>))"

section \<open>Its invariant\<close>

text \<open>The identifiers ascend from one to the highest issued.\<close>

definition timer_ok :: "'a task_timer \<Rightarrow> bool" where
  "timer_ok t \<longleftrightarrow> sorted_wrt (<) (map fst (tasks t)) \<and> (\<forall>k \<in> set (map fst (tasks t)). 0 < k \<and> k \<le> highest_id t)"

lemma new_timer_ok [simp]: "timer_ok (new_task_timer tick)" "tasks (new_task_timer tick) = []"
  by (simp_all add: timer_ok_def new_task_timer_def)

lemma map_insert_top: "\<forall>x \<in> set m. fst x < k \<Longrightarrow> map_insert k v m = m @ [(k, v)]"
  by (induction k v m rule: map_insert.induct) auto

lemma schedule_tasks:
  assumes "timer_ok t" "schedule now a t = (key, t')"
  shows "key = highest_id t + 1" "tasks t' = tasks t @ [(key, now + default_timeout t * tick_length_ms t, a)]"
    "highest_id t' = key" "default_timeout t' = default_timeout t" "tick_length_ms t' = tick_length_ms t"
proof -
  have "\<forall>x \<in> set (tasks t). fst x < highest_id t + 1" using assms(1) by (fastforce simp: timer_ok_def)
  from map_insert_top[OF this] assms(2)
  show "key = highest_id t + 1" "tasks t' = tasks t @ [(key, now + default_timeout t * tick_length_ms t, a)]"
    "highest_id t' = key" "default_timeout t' = default_timeout t" "tick_length_ms t' = tick_length_ms t"
    by (auto simp: schedule_def schedule_after_def Let_def)
qed

lemma schedule_ok: "timer_ok t \<Longrightarrow> schedule now a t = (key, t') \<Longrightarrow> timer_ok t'"
  using schedule_tasks[of t now a key t'] by (fastforce simp: timer_ok_def sorted_wrt_append)

lemma cancel_simps [simp]:
  "tasks (timer_cancel key t) = filter (\<lambda>(k, _). k \<noteq> key) (tasks t)" "highest_id (timer_cancel key t) = highest_id t"
  "default_timeout (timer_cancel key t) = default_timeout t" "tick_length_ms (timer_cancel key t) = tick_length_ms t"
  by (simp_all add: timer_cancel_def)

lemma sorted_keys_filter: "sorted_wrt (<) (map fst m) \<Longrightarrow> sorted_wrt (<) (map fst (filter P m))"
  by (induction m) auto

lemma cancel_ok: "timer_ok t \<Longrightarrow> timer_ok (timer_cancel key t)"
  using sorted_keys_filter[of "tasks t"] by (auto simp: timer_ok_def)

lemma fold_erase: "fold (\<lambda>key m. filter (\<lambda>(k, _). k \<noteq> key) m) ids m = filter (\<lambda>(k, _). k \<notin> set ids) m"
  by (induction ids arbitrary: m) (auto simp: case_prod_beta intro!: filter_cong)

lemma keys_unique: "sorted_wrt (<) (map fst m) \<Longrightarrow> x \<in> set m \<Longrightarrow> y \<in> set m \<Longrightarrow> fst x = fst y \<Longrightarrow> x = (y :: nat \<times> 'b)"
proof -
  assume "sorted_wrt (<) (map fst m)" "x \<in> set m" "y \<in> set m" "fst x = fst y"
  then have "distinct (map fst m)" by (simp add: strict_sorted_iff)
  with \<open>x \<in> set m\<close> \<open>y \<in> set m\<close> \<open>fst x = fst y\<close> show "x = y" by (auto simp: distinct_map inj_on_def)
qed

text \<open>A tick runs what is due, and keeps the rest.\<close>

lemma process_tasks_parts:
  assumes "timer_ok t"
  shows "fst (process_tasks now t) = map (\<lambda>(_, _, a). a) (filter (\<lambda>(_, time, _). time < now) (tasks t))"
    "tasks (snd (process_tasks now t)) = filter (\<lambda>(_, time, _). \<not> time < now) (tasks t)"
    "highest_id (snd (process_tasks now t)) =
       (if tasks (snd (process_tasks now t)) = [] then 0 else highest_id t)"
    "default_timeout (snd (process_tasks now t)) = default_timeout t"
    "tick_length_ms (snd (process_tasks now t)) = tick_length_ms t"
proof -
  have s: "sorted_wrt (<) (map fst (tasks t))" using assms by (simp add: timer_ok_def)
  have "filter (\<lambda>(k, _). k \<notin> set (map fst (filter (\<lambda>(_, time, _). time < now) (tasks t)))) (tasks t)
      = filter (\<lambda>(_, time, _). \<not> time < now) (tasks t)"
  proof (rule filter_cong[OF refl])
    fix x assume x: "x \<in> set (tasks t)"
    obtain k d a where x_def: "x = (k, d, a)" by (cases x)
    have "d < now" if due: "(k, d', a') \<in> set (tasks t)" "d' < now" for d' a'
      using keys_unique[OF s x due(1)] due(2) x_def by simp
    then have "k \<in> set (map fst (filter (\<lambda>(_, time, _). time < now) (tasks t))) \<longleftrightarrow> d < now"
      using x unfolding x_def by force
    then show "(case x of (k, _) \<Rightarrow> k \<notin> set (map fst (filter (\<lambda>(_, time, _). time < now) (tasks t)))) =
        (case x of (_, time, _) \<Rightarrow> \<not> time < now)"
      by (simp add: x_def)
  qed
  then show "tasks (snd (process_tasks now t)) = filter (\<lambda>(_, time, _). \<not> time < now) (tasks t)"
    by (simp add: process_tasks_def fold_erase Let_def)
qed (simp_all add: process_tasks_def Let_def)

lemma process_ok:
  assumes "timer_ok t"
  shows "timer_ok (snd (process_tasks now t))"
proof -
  note p = process_tasks_parts[OF assms, of now]
  show ?thesis
  proof (cases "tasks (snd (process_tasks now t)) = []")
    case False
    then have "highest_id (snd (process_tasks now t)) = highest_id t" using p(3) by simp
    moreover have "sorted_wrt (<) (map fst (tasks (snd (process_tasks now t))))"
      unfolding p(2) using assms by (intro sorted_keys_filter) (simp add: timer_ok_def)
    moreover have "set (tasks (snd (process_tasks now t))) \<subseteq> set (tasks t)" unfolding p(2) by auto
    ultimately show ?thesis using assms by (auto simp: timer_ok_def)
  qed (simp add: timer_ok_def)
qed

lemma due_tasks:
  "set (map (\<lambda>(_, _, a). a) (filter (\<lambda>(_, time, _). time < now) m)) = {a. \<exists>k d. (k, d, a) \<in> set m \<and> d < (now :: nat)}"
  by (induction m) auto

lemma process_runs:
  "timer_ok t \<Longrightarrow> set (fst (process_tasks now t)) = {a. \<exists>k d. (k, d, a) \<in> set (tasks t) \<and> d < now}"
  unfolding process_tasks_parts(1) by (rule due_tasks)

section \<open>The timer as a keyed store of deadlines\<close>

text \<open>The contract a client relies on: what is pending, under which key, and until when.\<close>

locale deadline_store =
  fixes add :: "nat \<Rightarrow> 'a \<Rightarrow> 't \<Rightarrow> nat \<times> 't" and erase :: "nat \<Rightarrow> 't \<Rightarrow> 't" and tick :: "nat \<Rightarrow> 't \<Rightarrow> 'a list \<times> 't"
    and pending :: "'t \<Rightarrow> (nat \<times> nat \<times> 'a) set" and wait :: "'t \<Rightarrow> nat" and ok :: "'t \<Rightarrow> bool"
  assumes ok_ops: "ok t \<Longrightarrow> ok (snd (add now a t))" "ok t \<Longrightarrow> ok (erase k t)" "ok t \<Longrightarrow> ok (snd (tick now t))"
    and wait_ops: "ok t \<Longrightarrow> wait (snd (add now a t)) = wait t" "wait (erase k t) = wait t"
      "ok t \<Longrightarrow> wait (snd (tick now t)) = wait t"
    and add_pending: "ok t \<Longrightarrow> pending (snd (add now a t)) = insert (fst (add now a t), now + wait t, a) (pending t)"
    and add_fresh: "ok t \<Longrightarrow> 0 < fst (add now a t) \<and> (\<forall>x \<in> pending t. fst x \<noteq> fst (add now a t))"
    and erase_pending: "pending (erase k t) = {x \<in> pending t. fst x \<noteq> k}"
    and tick_pending: "ok t \<Longrightarrow> pending (snd (tick now t)) = {x \<in> pending t. now \<le> fst (snd x)}"
    and tick_runs: "ok t \<Longrightarrow> set (fst (tick now t)) = {a. \<exists>k d. (k, d, a) \<in> pending t \<and> d < now}"
    and key_unique: "ok t \<Longrightarrow> x \<in> pending t \<Longrightarrow> y \<in> pending t \<Longrightarrow> fst x = fst y \<Longrightarrow> x = y"
    and key_pos: "ok t \<Longrightarrow> x \<in> pending t \<Longrightarrow> 0 < fst x"
begin

text \<open>Replacing a deadline, as a connection does with each thing it reads.\<close>

lemma replace_ok: "ok t \<Longrightarrow> ok (snd (add now a (erase k t)))"
  by (simp add: ok_ops)

lemma replace_wait: "ok t \<Longrightarrow> wait (snd (add now a (erase k t))) = wait t"
  by (simp add: wait_ops ok_ops)

lemma replace_pending: "ok t \<Longrightarrow> pending (snd (add now a (erase k t))) =
    insert (fst (add now a (erase k t)), now + wait t, a) {x \<in> pending t. fst x \<noteq> k}"
  by (simp add: add_pending ok_ops erase_pending wait_ops)

lemma replace_fresh: "ok t \<Longrightarrow> 0 < fst (add now a (erase k t))
    \<and> (\<forall>x \<in> pending t. fst x \<noteq> k \<longrightarrow> fst x \<noteq> fst (add now a (erase k t)))"
  using add_fresh[of "erase k t" now a] ok_ops(2)[of t k] unfolding erase_pending by blast

text \<open>Nothing that is due is left behind, and nothing runs before its time.\<close>

lemma tick_splits: "ok t \<Longrightarrow> (k, d, a) \<in> pending t \<Longrightarrow>
    (if d < now then a \<in> set (fst (tick now t)) else (k, d, a) \<in> pending (snd (tick now t)))"
  by (auto simp: tick_runs tick_pending)

end

interpretation task_store: deadline_store schedule timer_cancel process_tasks
  "\<lambda>t. set (tasks t)" "\<lambda>t. default_timeout t * tick_length_ms t" timer_ok
proof (unfold_locales, goal_cases)
  case (4 t now a)
  then show ?case using schedule_tasks(4,5)[of t now a "fst (schedule now a t)" "snd (schedule now a t)"] by simp
next
  case (7 t now a)
  then show ?case using schedule_tasks(2)[of t now a "fst (schedule now a t)" "snd (schedule now a t)"] by simp
next
  case (8 t now a)
  then show ?case using schedule_tasks(1)[of t now a "fst (schedule now a t)" "snd (schedule now a t)"]
    by (fastforce simp: timer_ok_def)
next
  case (12 t x y)
  then show ?case using keys_unique[of "tasks t" x y] by (simp add: timer_ok_def)
next
  case (13 t x)
  then show ?case by (fastforce simp: timer_ok_def)
next
  case (11 t now)
  then show ?case by (rule process_runs)
qed (auto simp: schedule_ok[of _ _ _ "fst (schedule now a t)" "snd (schedule now a t)" for now a t] cancel_ok process_ok process_tasks_parts)

end
