(* ===== verification/Deadlines.thy ===== *)
theory Deadlines
  imports TaskTimer
begin

text \<open>
  The deadlines of the connections of one worker thread: \<open>start_deadline\<close> and \<open>cancel_deadline_timer\<close> of
  crow/http_connection.h, and the places that call them, on the timer they share.  The state keeps, of each
  connection, the identifier it holds, whether its socket is open and whether a read is pending; a
  run is a sequence of the events that a worker handles one after the other, with the time of each.
\<close>

section \<open>State\<close>

record worker =
  wk_timer :: "nat task_timer"          \<comment> \<open>the task of a deadline is the connection it closes\<close>
  wk_task :: "nat \<Rightarrow> nat"               \<comment> \<open>\<open>task_id_\<close>\<close>
  wk_open :: "nat \<Rightarrow> bool"
  wk_reading :: "nat \<Rightarrow> bool"

definition new_worker :: "nat \<Rightarrow> worker" where
  "new_worker timeout =
     \<lparr> wk_timer = set_default_timeout timeout (new_task_timer 1000), wk_task = \<lambda>_. 0, wk_open = \<lambda>_. False,
       wk_reading = \<lambda>_. False \<rparr>"

section \<open>Operations\<close>

definition cancel_deadline_timer :: "nat \<Rightarrow> worker \<Rightarrow> worker" where
  "cancel_deadline_timer c w = w\<lparr>wk_timer := timer_cancel (wk_task w c) (wk_timer w)\<rparr>"

definition start_deadline :: "nat \<Rightarrow> nat \<Rightarrow> worker \<Rightarrow> worker" where
  "start_deadline now c w =
     (let w = cancel_deadline_timer c w
      in case schedule now c (wk_timer w) of
           (key, t) \<Rightarrow> w\<lparr>wk_timer := t, wk_task := (wk_task w)(c := key)\<rparr>)"

text \<open>The task of a deadline: the socket is closed, and a pending read will end with an error.\<close>

definition run_deadline :: "nat \<Rightarrow> worker \<Rightarrow> worker" where
  "run_deadline c w = (if \<not> wk_open w c then w else w\<lparr>wk_open := (wk_open w)(c := False)\<rparr>)"

definition tick_handler :: "nat \<Rightarrow> worker \<Rightarrow> worker" where
  "tick_handler now w =
     (case process_tasks now (wk_timer w) of (due, t) \<Rightarrow> fold run_deadline due (w\<lparr>wk_timer := t\<rparr>))"

text \<open>
  What a worker handles: a connection starts; a read completes in the middle of a message, at the end of
  one (\<open>handle\<close> cancels the deadline first), or at the end of one after which the connection is closed;
  a read fails, or the parser refuses what was read; the timer ticks.
\<close>

datatype event = Start nat | Part nat | Message nat | Last_message nat | Failed nat | Tick

definition handle_event :: "nat \<Rightarrow> event \<Rightarrow> worker \<Rightarrow> worker" where
  "handle_event now e w =
     (case e of
        Start c \<Rightarrow> (start_deadline now c w)\<lparr>wk_open := (wk_open w)(c := True), wk_reading := (wk_reading w)(c := True)\<rparr>
      | Part c \<Rightarrow> start_deadline now c w
      | Message c \<Rightarrow> start_deadline now c (cancel_deadline_timer c w)
      | Last_message c \<Rightarrow>
          (cancel_deadline_timer c (cancel_deadline_timer c w))
            \<lparr>wk_open := (wk_open w)(c := False), wk_reading := (wk_reading w)(c := False)\<rparr>
      | Failed c \<Rightarrow>
          (cancel_deadline_timer c w)\<lparr>wk_open := (wk_open w)(c := False), wk_reading := (wk_reading w)(c := False)\<rparr>
      | Tick \<Rightarrow> tick_handler now w)"

text \<open>A connection starts once; a read completes while it is pending, well only on an open socket.\<close>

definition enabled :: "event \<Rightarrow> worker \<Rightarrow> bool" where
  "enabled e w =
     (case e of
        Start c \<Rightarrow> wk_task w c = 0
      | Part c \<Rightarrow> wk_reading w c \<and> wk_open w c
      | Message c \<Rightarrow> wk_reading w c \<and> wk_open w c
      | Last_message c \<Rightarrow> wk_reading w c \<and> wk_open w c
      | Failed c \<Rightarrow> wk_reading w c
      | Tick \<Rightarrow> True)"

section \<open>Runs\<close>

text \<open>No connection has been closed by its deadline whose failed read is still to be handled.\<close>

definition settled :: "worker \<Rightarrow> bool" where
  "settled w \<longleftrightarrow> (\<forall>c. wk_reading w c \<longrightarrow> wk_open w c)"

text \<open>
  The runs, with their events latest first.  In an orderly run the reads of the connections that a tick
  has closed fail before anything else is handled.
\<close>

inductive runs :: "bool \<Rightarrow> nat \<Rightarrow> (nat \<times> event) list \<Rightarrow> worker \<Rightarrow> bool" for orderly timeout where
  start: "runs orderly timeout [] (new_worker timeout)"
| step: "runs orderly timeout es w \<Longrightarrow> enabled e w \<Longrightarrow> es = [] \<or> fst (hd es) \<le> now
    \<Longrightarrow> \<not> orderly \<or> settled w \<or> (\<exists>c. e = Failed c)
    \<Longrightarrow> runs orderly timeout ((now, e) # es) (handle_event now e w)"

text \<open>When the connection last started its deadline.\<close>

fun last_start :: "(nat \<times> event) list \<Rightarrow> nat \<Rightarrow> nat option" where
  "last_start [] c = None"
| "last_start ((now, e) # es) c = (if e \<in> {Start c, Part c, Message c} then Some now else last_start es c)"

section \<open>What the operations do to the deadlines\<close>

abbreviation deadlines :: "worker \<Rightarrow> (nat \<times> nat \<times> nat) set" where
  "deadlines w \<equiv> set (tasks (wk_timer w))"

abbreviation patience :: "worker \<Rightarrow> nat" where
  "patience w \<equiv> default_timeout (wk_timer w) * tick_length_ms (wk_timer w)"

definition worker_ok :: "worker \<Rightarrow> bool" where
  "worker_ok w \<longleftrightarrow> timer_ok (wk_timer w)"

named_theorems deadline_ops \<open>what the operations do to the deadlines\<close>

lemma cancel_deadline [deadline_ops]:
  "worker_ok w \<Longrightarrow> worker_ok (cancel_deadline_timer c w)"
  "patience (cancel_deadline_timer c w) = patience w"
  "deadlines (cancel_deadline_timer c w) = {x \<in> deadlines w. fst x \<noteq> wk_task w c}"
  "wk_task (cancel_deadline_timer c w) = wk_task w" "wk_open (cancel_deadline_timer c w) = wk_open w"
  "wk_reading (cancel_deadline_timer c w) = wk_reading w"
  by (auto simp: cancel_deadline_timer_def worker_ok_def task_store.ok_ops)

lemma start_deadline_eq:
  "start_deadline now c w =
     (let s = schedule now c (timer_cancel (wk_task w c) (wk_timer w))
      in w\<lparr>wk_timer := snd s, wk_task := (wk_task w)(c := fst s)\<rparr>)"
  by (simp add: start_deadline_def cancel_deadline_timer_def Let_def split: prod.split)

lemma start_deadline [deadline_ops]:
  assumes "worker_ok w"
  shows "worker_ok (start_deadline now c w)" "patience (start_deadline now c w) = patience w"
    "deadlines (start_deadline now c w) =
       insert (wk_task (start_deadline now c w) c, now + patience w, c) {x \<in> deadlines w. fst x \<noteq> wk_task w c}"
    "wk_task (start_deadline now c w) = (wk_task w)(c := wk_task (start_deadline now c w) c)"
    "0 < wk_task (start_deadline now c w) c"
    "x \<in> deadlines w \<Longrightarrow> fst x \<noteq> wk_task w c \<Longrightarrow> fst x \<noteq> wk_task (start_deadline now c w) c"
    "wk_open (start_deadline now c w) = wk_open w" "wk_reading (start_deadline now c w) = wk_reading w"
  using assms task_store.replace_ok[of "wk_timer w"] task_store.replace_wait[of "wk_timer w"]
    task_store.replace_pending[of "wk_timer w" now c "wk_task w c"] task_store.replace_fresh[of "wk_timer w" now c "wk_task w c"]
  by (simp_all add: start_deadline_eq worker_ok_def Let_def)

lemma run_deadlines:
  "wk_timer (fold run_deadline due w) = wk_timer w" "wk_task (fold run_deadline due w) = wk_task w"
  "wk_reading (fold run_deadline due w) = wk_reading w"
  "wk_open (fold run_deadline due w) = (\<lambda>c. wk_open w c \<and> c \<notin> set due)"
  by (induction due arbitrary: w) (auto simp: run_deadline_def)

lemma tick [deadline_ops]:
  assumes "worker_ok w"
  shows "worker_ok (tick_handler now w)" "patience (tick_handler now w) = patience w"
    "deadlines (tick_handler now w) = {x \<in> deadlines w. now \<le> fst (snd x)}"
    "wk_task (tick_handler now w) = wk_task w" "wk_reading (tick_handler now w) = wk_reading w"
    "wk_open (tick_handler now w) c \<longleftrightarrow> wk_open w c \<and> \<not> (\<exists>k d. (k, d, c) \<in> deadlines w \<and> d < now)"
proof -
  obtain due t where p: "process_tasks now (wk_timer w) = (due, t)" by (cases "process_tasks now (wk_timer w)")
  have ok: "timer_ok (wk_timer w)" using assms by (simp add: worker_ok_def)
  note facts = task_store.ok_ops(3)[OF ok, of now] task_store.wait_ops(3)[OF ok, of now]
    task_store.tick_pending[OF ok, of now] task_store.tick_runs[OF ok, of now]
  show "worker_ok (tick_handler now w)" "patience (tick_handler now w) = patience w"
    "deadlines (tick_handler now w) = {x \<in> deadlines w. now \<le> fst (snd x)}"
    "wk_task (tick_handler now w) = wk_task w" "wk_reading (tick_handler now w) = wk_reading w"
    "wk_open (tick_handler now w) c \<longleftrightarrow> wk_open w c \<and> \<not> (\<exists>k d. (k, d, c) \<in> deadlines w \<and> d < now)"
    using facts p by (simp_all add: tick_handler_def worker_ok_def run_deadlines)
qed

lemma deadline_key_unique: "worker_ok w \<Longrightarrow> x \<in> deadlines w \<Longrightarrow> y \<in> deadlines w \<Longrightarrow> fst x = fst y \<Longrightarrow> x = y"
  unfolding worker_ok_def by (rule task_store.key_unique)

section \<open>Invariants\<close>

text \<open>Each deadline is its connection's latest.\<close>

definition owned :: "(nat \<times> event) list \<Rightarrow> worker \<Rightarrow> bool" where
  "owned es w \<longleftrightarrow> (\<forall>(k, d, c) \<in> deadlines w. wk_task w c = k \<and> (\<exists>t. last_start es c = Some t \<and> d = t + patience w))"

text \<open>In an orderly run, each open connection has a deadline, and none that is closed holds the identifier of another.\<close>

definition guarded :: "worker \<Rightarrow> bool" where
  "guarded w \<longleftrightarrow> (\<forall>c. wk_reading w c \<longrightarrow>
     (if wk_open w c then \<exists>d. (wk_task w c, d, c) \<in> deadlines w else \<forall>x \<in> deadlines w. fst x \<noteq> wk_task w c))"

lemma guarded_open: "guarded w \<Longrightarrow> wk_reading w c \<Longrightarrow> wk_open w c \<Longrightarrow> \<exists>d. (wk_task w c, d, c) \<in> deadlines w"
  unfolding guarded_def by metis

lemma guarded_closed:
  "guarded w \<Longrightarrow> wk_reading w c \<Longrightarrow> \<not> wk_open w c \<Longrightarrow> x \<in> deadlines w \<Longrightarrow> fst x \<noteq> wk_task w c"
  unfolding guarded_def by metis

lemma guardedI:
  assumes "\<And>c. wk_reading w c \<Longrightarrow> wk_open w c \<Longrightarrow> \<exists>d. (wk_task w c, d, c) \<in> deadlines w"
    and "\<And>c x. wk_reading w c \<Longrightarrow> \<not> wk_open w c \<Longrightarrow> x \<in> deadlines w \<Longrightarrow> fst x \<noteq> wk_task w c"
  shows "guarded w"
  using assms unfolding guarded_def by simp

lemma ownedD: "owned es w \<Longrightarrow> (k, d, c) \<in> deadlines w \<Longrightarrow> wk_task w c = k \<and> (\<exists>t. last_start es c = Some t \<and> d = t + patience w)"
  unfolding owned_def by blast

lemma owned_cancel: "owned es w \<Longrightarrow> owned es (cancel_deadline_timer c w)"
  by (auto simp: owned_def deadline_ops)

lemma owned_start:
  assumes "worker_ok w" "owned es w" "e \<in> {Start c, Part c, Message c}"
  shows "owned ((now, e) # es) (start_deadline now c w)"
proof -
  note s = start_deadline[OF assms(1), where now = now and c = c]
  have "wk_task (start_deadline now c w) c' = k \<and> (\<exists>t. last_start ((now, e) # es) c' = Some t \<and> d = t + patience w)"
    if "(k, d, c') \<in> deadlines (start_deadline now c w)" for k d c'
  proof (cases "c' = c")
    case True
    then have "k = wk_task (start_deadline now c w) c \<and> d = now + patience w"
      using that ownedD[OF assms(2)] unfolding s(3) by auto
    then show ?thesis using True assms(3) by auto
  next
    case False
    then have "(k, d, c') \<in> deadlines w" using that unfolding s(3) by auto
    moreover have "wk_task (start_deadline now c w) c' = wk_task w c'" using False by (subst s(4)) simp
    moreover have "last_start ((now, e) # es) c' = last_start es c'" using False assms(3) by auto
    ultimately show ?thesis using ownedD[OF assms(2)] by simp
  qed
  then show ?thesis unfolding owned_def s(2) by blast
qed

lemma owned_sockets: "owned es (w\<lparr>wk_open := p, wk_reading := q\<rparr>) = owned es w"
  by (simp add: owned_def)

lemma owned_other:
  "\<forall>c. e \<notin> {Start c, Part c, Message c} \<Longrightarrow> owned ((now, e) # es) w = owned es w"
  by (simp add: owned_def)

lemma worker_sockets: "worker_ok (w\<lparr>wk_open := p, wk_reading := q\<rparr>) = worker_ok w"
  by (simp add: worker_ok_def)

lemma event_ok:
  assumes ok: "worker_ok w" and o: "owned es w"
  shows "worker_ok (handle_event now e w) \<and> patience (handle_event now e w) = patience w
    \<and> owned ((now, e) # es) (handle_event now e w)"
proof -
  note start = start_deadline(1,2)[OF ok] owned_start[OF ok o]
  have twice: "start_deadline now c (cancel_deadline_timer c w) = start_deadline now c w"
      "cancel_deadline_timer c (cancel_deadline_timer c w) = cancel_deadline_timer c w" for c
    by (simp_all add: start_deadline_eq cancel_deadline_timer_def timer_cancel_def Let_def)
  note cancel = cancel_deadline(1)[OF ok] cancel_deadline(2) owned_cancel[OF o]
  show ?thesis
  proof (cases e)
    case (Start c)
    then show ?thesis using start(1,2)[of now c] start(3)[of e c now]
      by (simp add: handle_event_def owned_sockets worker_sockets)
  next
    case (Part c)
    then show ?thesis using start(1,2)[of now c] start(3)[of e c now] by (simp add: handle_event_def)
  next
    case (Message c)
    then show ?thesis using start(1,2)[of now c] start(3)[of e c now] by (simp add: handle_event_def twice)
  next
    case (Last_message c)
    then show ?thesis using cancel(1,3)[of c] cancel(2)[of c w]
      by (simp add: handle_event_def twice owned_other owned_sockets worker_sockets)
  next
    case (Failed c)
    then show ?thesis using cancel(1,3)[of c] cancel(2)[of c w]
      by (simp add: handle_event_def owned_other owned_sockets worker_sockets)
  next
    case Tick
    then have "owned es (handle_event now e w)"
      using tick[OF ok, where now = now] o by (auto simp: handle_event_def owned_def)
    then show ?thesis using Tick tick(1,2)[OF ok, where now = now] by (simp add: handle_event_def owned_other)
  qed
qed

lemma runs_ok:
  assumes "runs orderly timeout es w"
  shows "worker_ok w \<and> patience w = timeout mod 256 * 1000 \<and> owned es w"
  using assms
proof (induction rule: runs.induct)
  case start
  have "timer_ok (wk_timer (new_worker timeout))"
    by (simp add: new_worker_def set_default_timeout_def timer_ok_def new_task_timer_def)
  then show ?case
    by (simp add: worker_ok_def owned_def new_worker_def set_default_timeout_def new_task_timer_def)
next
  case (step es w e now)
  then show ?case using event_ok[of w es now e] by simp
qed

text \<open>Two connections that read hold different identifiers when both have a deadline.\<close>

lemma deadline_kept:
  assumes "worker_ok w" "guarded w" "wk_reading w c'" "wk_open w c'" "c' \<noteq> c"
    and "wk_task w c = 0 \<or> wk_reading w c"
  shows "\<exists>d. (wk_task w c', d, c') \<in> deadlines w \<and> wk_task w c' \<noteq> wk_task w c"
proof -
  obtain d where d: "(wk_task w c', d, c') \<in> deadlines w" using guarded_open[OF assms(2-4)] by blast
  have "0 < wk_task w c'" using task_store.key_pos[OF _ d] assms(1) by (simp add: worker_ok_def)
  moreover have "wk_task w c' \<noteq> wk_task w c" if r: "wk_reading w c"
  proof (cases "wk_open w c")
    case True
    then obtain d' where "(wk_task w c, d', c) \<in> deadlines w" using guarded_open[OF assms(2) r] by blast
    then show ?thesis using deadline_key_unique[OF assms(1) d] assms(5) by fastforce
  next
    case False
    from guarded_closed[OF assms(2) r this d] show ?thesis by simp
  qed
  ultimately show ?thesis using d assms(6) by auto
qed

lemma guarded_cancel:
  assumes "worker_ok w" "guarded w" "wk_reading w c"
  shows "guarded ((cancel_deadline_timer c w)\<lparr>wk_open := (wk_open w)(c := False), wk_reading := (wk_reading w)(c := False)\<rparr>)"
proof (rule guardedI, goal_cases)
  case (1 c')
  then have "wk_reading w c'" "wk_open w c'" "c' \<noteq> c" by (auto split: if_splits)
  from deadline_kept[OF assms(1,2) this] assms(3) show ?case by (auto simp: cancel_deadline)
next
  case (2 c' x)
  then have "wk_reading w c'" "\<not> wk_open w c'" "x \<in> deadlines w" by (auto simp: cancel_deadline split: if_splits)
  from guarded_closed[OF assms(2) this] show ?case by (simp add: cancel_deadline)
qed

lemma guarded_start:
  assumes ok: "worker_ok w" and g: "guarded w" and s: "settled w" and c: "wk_task w c = 0 \<or> wk_reading w c"
  shows "guarded ((start_deadline now c w)\<lparr>wk_open := (wk_open w)(c := True), wk_reading := (wk_reading w)(c := True)\<rparr>)"
proof -
  note d = start_deadline[OF ok, where now = now and c = c]
  have "\<exists>d. (wk_task (start_deadline now c w) c', d, c') \<in> deadlines (start_deadline now c w)" if r: "wk_reading w c'" "c' \<noteq> c" for c'
  proof -
    have op: "wk_open w c'" using s r(1) by (simp add: settled_def)
    obtain t where "(wk_task w c', t, c') \<in> deadlines w" "wk_task w c' \<noteq> wk_task w c"
      using deadline_kept[OF ok g r(1) op r(2) c] by blast
    moreover have "wk_task (start_deadline now c w) c' = wk_task w c'" using r(2) by (subst d(4)) simp
    ultimately show ?thesis unfolding d(3) by auto
  qed
  moreover have "(wk_task (start_deadline now c w) c, now + patience w, c) \<in> deadlines (start_deadline now c w)"
    unfolding d(3) by simp
  ultimately have all: "\<exists>d. (wk_task (start_deadline now c w) c', d, c') \<in> deadlines (start_deadline now c w)"
    if "c' = c \<or> wk_reading w c'" for c'
    using that by blast
  show ?thesis
  proof (rule guardedI, goal_cases)
    case (1 c')
    then show ?case using all[of c'] by (simp split: if_splits)
  next
    case (2 c' x)
    then show ?case using s by (auto simp: settled_def split: if_splits)
  qed
qed

text \<open>The deadline may be cancelled before it is started again.\<close>

lemma start_after_cancel: "start_deadline now c (cancel_deadline_timer c w) = start_deadline now c w"
  by (simp add: start_deadline_eq cancel_deadline_timer_def timer_cancel_def Let_def)

lemma cancel_twice: "cancel_deadline_timer c (cancel_deadline_timer c w) = cancel_deadline_timer c w"
  by (simp add: cancel_deadline_timer_def timer_cancel_def)

lemma guarded_tick:
  assumes ok: "worker_ok w" and o: "owned es w" and g: "guarded w" and s: "settled w"
  shows "guarded (tick_handler now w)"
proof -
  note t = tick[OF ok, where now = now]
  have latest: "\<exists>d. (wk_task w c, d, c) \<in> deadlines w \<and> (wk_open (tick_handler now w) c \<longleftrightarrow> \<not> d < now)
      \<and> (\<forall>x \<in> deadlines w. fst x = wk_task w c \<longrightarrow> x = (wk_task w c, d, c))" if r: "wk_reading w c" for c
  proof -
    have op: "wk_open w c" using s r by (simp add: settled_def)
    obtain d where d: "(wk_task w c, d, c) \<in> deadlines w" using guarded_open[OF g r op] by blast
    have only: "x \<in> deadlines w \<Longrightarrow> fst x = wk_task w c \<Longrightarrow> x = (wk_task w c, d, c)" for x
      using deadline_key_unique[OF ok _ d, of x] by simp
    have "d' = d" if "(k, d', c) \<in> deadlines w" for k d' using only[OF that] ownedD[OF o that] by simp
    then have "(\<exists>k d'. (k, d', c) \<in> deadlines w \<and> d' < now) \<longleftrightarrow> d < now" using d by blast
    then have "wk_open (tick_handler now w) c \<longleftrightarrow> \<not> d < now" using t(6)[of c] op by simp
    with d only show ?thesis by blast
  qed
  show ?thesis
  proof (rule guardedI, goal_cases)
    case (1 c)
    obtain d where "(wk_task w c, d, c) \<in> deadlines w" "\<not> d < now" using latest[of c] 1 t(5) by auto
    then show ?case unfolding t(3,4) by (intro exI[of _ d]) simp
  next
    case (2 c x)
    obtain d where d: "d < now" "\<forall>x \<in> deadlines w. fst x = wk_task w c \<longrightarrow> x = (wk_task w c, d, c)"
      using latest[of c] 2(1,2) t(5) by auto
    have "x \<in> deadlines w" "now \<le> fst (snd x)" using 2(3) unfolding t(3) by simp_all
    then show ?case using d unfolding t(4) by fastforce
  qed
qed

lemma sockets_same: "w\<lparr>wk_open := (wk_open w)(c := wk_open w c), wk_reading := (wk_reading w)(c := wk_reading w c)\<rparr> = w"
  by simp

lemma event_guarded:
  assumes ok: "worker_ok w" and o: "owned es w" and g: "guarded w" and e: "enabled e w" and s: "settled w \<or> (\<exists>c. e = Failed c)"
  shows "guarded (handle_event now e w)"
proof (cases e)
  case (Start c)
  then show ?thesis using guarded_start[OF ok g, of c now] e s by (simp add: handle_event_def enabled_def)
next
  case (Part c)
  then have c: "wk_reading w c" "wk_open w c" "settled w" using e s by (simp_all add: enabled_def)
  note d = start_deadline(7,8)[OF ok, where now = now and c = c]
  have "(start_deadline now c w)\<lparr>wk_open := (wk_open w)(c := True), wk_reading := (wk_reading w)(c := True)\<rparr> = start_deadline now c w"
    using sockets_same[of "start_deadline now c w" c] c(1,2) unfolding d by simp
  then show ?thesis using guarded_start[OF ok g c(3), of c now] c(1) Part by (simp add: handle_event_def)
next
  case (Message c)
  then have c: "wk_reading w c" "wk_open w c" "settled w" using e s by (simp_all add: enabled_def)
  note d = start_deadline(7,8)[OF ok, where now = now and c = c]
  have "(start_deadline now c w)\<lparr>wk_open := (wk_open w)(c := True), wk_reading := (wk_reading w)(c := True)\<rparr> = start_deadline now c w"
    using sockets_same[of "start_deadline now c w" c] c(1,2) unfolding d by simp
  then show ?thesis using guarded_start[OF ok g c(3), of c now] c(1) Message by (simp add: handle_event_def start_after_cancel)
next
  case (Last_message c)
  then show ?thesis using guarded_cancel[OF ok g, of c] e by (simp add: handle_event_def enabled_def cancel_twice)
next
  case (Failed c)
  then show ?thesis using guarded_cancel[OF ok g, of c] e by (simp add: handle_event_def enabled_def)
next
  case Tick
  then show ?thesis using guarded_tick[OF ok o g] s by (simp add: handle_event_def)
qed

lemma runs_guarded:
  assumes "runs True timeout es w"
  shows "guarded w"
  using assms
proof (induction rule: runs.induct)
  case start
  then show ?case by (simp add: guarded_def new_worker_def)
next
  case (step es w e now)
  then show ?case using runs_ok[OF step.hyps(1)] event_guarded[of w es e now] by auto
qed

section \<open>Properties\<close>

text \<open>C15. Only idle connections are timed out: whatever the worker has handled, when a tick closes a connection,
  that connection has started no deadline for longer than the timeout, so it has read nothing since.\<close>

theorem timeout_only_idle:
  assumes "runs orderly timeout es w" and "wk_open w c" and "\<not> wk_open (handle_event now Tick w) c"
  shows "\<exists>t. last_start es c = Some t \<and> t + timeout mod 256 * 1000 < now"
proof -
  have ok: "worker_ok w" "patience w = timeout mod 256 * 1000" "owned es w" using runs_ok[OF assms(1)] by simp_all
  from assms(2,3) tick(6)[OF ok(1), where now = now and c = c] obtain k d where "(k, d, c) \<in> deadlines w" "d < now"
    by (auto simp: handle_event_def)
  then show ?thesis using ownedD[OF ok(3)] ok(2) by fastforce
qed

text \<open>C14. An idle connection is timed out: in an orderly run, a connection that waits for a read is closed by the
  first tick after its timeout.\<close>

theorem idle_timed_out:
  assumes "runs True timeout es w" and "wk_reading w c" and "last_start es c = Some t" and "t + timeout mod 256 * 1000 < now"
  shows "\<not> wk_open (handle_event now Tick w) c"
proof -
  have ok: "worker_ok w" "patience w = timeout mod 256 * 1000" "owned es w" using runs_ok[OF assms(1)] by simp_all
  show ?thesis
  proof (cases "wk_open w c")
    case True
    then obtain d where d: "(wk_task w c, d, c) \<in> deadlines w"
      using guarded_open[OF runs_guarded[OF assms(1)] assms(2)] by blast
    then have "d < now" using ownedD[OF ok(3) d] ok(2) assms(3,4) by simp
    then show ?thesis using d tick(6)[OF ok(1), where now = now and c = c] by (auto simp: handle_event_def)
  next
    case False
    then show ?thesis using tick(6)[OF ok(1), where now = now and c = c] by (simp add: handle_event_def)
  qed
qed

lemmas deadline_steps = handle_event_def start_deadline_eq cancel_deadline_timer_def timer_cancel_def schedule_def schedule_after_def
  new_worker_def set_default_timeout_def new_task_timer_def tick_handler_def process_tasks_def run_deadline_def Let_def

lemma first_start: "runs orderly 5 [(0, Start 1)] (handle_event 0 (Start 1) (new_worker 5))"
proof (rule runs.step[OF runs.start])
  show "enabled (Start 1) (new_worker 5)" by (simp add: enabled_def new_worker_def)
  show "\<not> orderly \<or> settled (new_worker 5) \<or> (\<exists>c. Start 1 = Failed c)" by (simp add: settled_def new_worker_def)
qed simp

theorem idle_timed_out_witness:
  "\<exists>w. runs True 5 [(0, Start 1)] w \<and> wk_open w 1 \<and> \<not> wk_open (handle_event 5001 Tick w) 1"
proof -
  let ?w = "handle_event 0 (Start 1) (new_worker 5)"
  have "wk_reading ?w 1" "wk_open ?w 1" by (simp_all add: handle_event_def)
  then show ?thesis using idle_timed_out[OF first_start, of 1 0 5001] first_start by auto
qed

theorem timeout_only_idle_witness:
  "\<exists>w t. runs False 5 [(0, Start 1)] w \<and> \<not> wk_open (handle_event 5001 Tick w) 1
    \<and> last_start [(0, Start 1)] 1 = Some t \<and> t + 5000 < 5001"
proof -
  let ?w = "handle_event 0 (Start 1) (new_worker 5)"
  have w: "wk_open ?w 1" "\<not> wk_open (handle_event 5001 Tick ?w) 1" by (simp_all add: deadline_steps)
  from timeout_only_idle[OF first_start w] show ?thesis using first_start w by auto
qed

section \<open>A deadline that is lost\<close>

lemma no_deadlines_open:
  "worker_ok w \<Longrightarrow> deadlines w = {} \<Longrightarrow> wk_open w c \<Longrightarrow> wk_open (fold (\<lambda>now. handle_event now Tick) nows w) c"
proof (induction nows arbitrary: w)
  case (Cons now nows)
  have "worker_ok (handle_event now Tick w)" "deadlines (handle_event now Tick w) = {}" "wk_open (handle_event now Tick w) c"
    using tick[OF Cons.prems(1), where now = now] Cons.prems by (simp_all add: handle_event_def)
  then show ?case using Cons.IH by simp
qed simp

lemma runs_snoc:
  "runs False timeout es w \<Longrightarrow> enabled e w \<Longrightarrow> \<forall>x \<in> set es. fst x \<le> now
    \<Longrightarrow> runs False timeout ((now, e) # es) (handle_event now e w)"
  by (rule runs.step) (cases es; simp)+

text \<open>When a tick leaves no task, the identifiers start again from one.\<close>

lemma first_identifier:
  assumes "worker_ok w" "\<forall>(k, d, c) \<in> deadlines w. d < t1"
  shows "deadlines (tick_handler t1 w) = {}" "highest_id (wk_timer (tick_handler t1 w)) = 0"
proof -
  show none: "deadlines (tick_handler t1 w) = {}" using tick(3)[OF assms(1), where now = t1] assms(2) by auto
  obtain due t where p: "process_tasks t1 (wk_timer w) = (due, t)" by (cases "process_tasks t1 (wk_timer w)")
  then have "wk_timer (tick_handler t1 w) = t" by (simp add: tick_handler_def run_deadlines)
  then show "highest_id (wk_timer (tick_handler t1 w)) = 0"
    using process_tasks_parts(3)[of "wk_timer w" t1] assms(1) none p by (simp add: worker_ok_def)
qed

lemma start_identifier: "wk_task (start_deadline now c w) c = highest_id (wk_timer w) + 1"
  by (simp add: start_deadline_eq schedule_def schedule_after_def Let_def)

text \<open>C16. Identifiers are issued again when no task is left, and a connection keeps the one of a task that has
  run.  In every run in which the connection that holds the first identifier is timed out by a tick that leaves no
  task, and another starts before the failed read of the first is handled, the new one is given the same
  identifier for its deadline, the failed read cancels that deadline, and the new connection is never timed
  out, however long it is idle.\<close>

theorem deadline_lost:
  assumes "runs False timeout es w" and "wk_reading w c" and "wk_task w c = 1"
    and "\<forall>(k, d, x) \<in> deadlines w. d < t1" and "\<forall>x \<in> set es. fst x \<le> t1"
    and "wk_task w c' = 0" and "t1 \<le> t2" and "t2 \<le> t3"
  shows "let w1 = handle_event t1 Tick w; w2 = handle_event t2 (Start c') w1; w3 = handle_event t3 (Failed c) w2
     in runs False timeout ((t3, Failed c) # (t2, Start c') # (t1, Tick) # es) w3
        \<and> wk_task w2 c' = wk_task w2 c \<and> deadlines w2 = {(wk_task w2 c', t2 + timeout mod 256 * 1000, c')}
        \<and> deadlines w3 = {} \<and> wk_open w3 c' \<and> wk_reading w3 c'
        \<and> (\<forall>nows. wk_open (fold (\<lambda>now. handle_event now Tick) nows w3) c')"
proof -
  define w1 where "w1 = handle_event t1 Tick w"
  define w2 where "w2 = handle_event t2 (Start c') w1"
  define w3 where "w3 = handle_event t3 (Failed c) w2"
  have ok: "worker_ok w" "patience w = timeout mod 256 * 1000" using runs_ok[OF assms(1)] by simp_all
  have w1: "worker_ok w1" "patience w1 = timeout mod 256 * 1000" "deadlines w1 = {}" "highest_id (wk_timer w1) = 0"
      "wk_task w1 = wk_task w" "wk_reading w1 = wk_reading w"
    using tick[OF ok(1), where now = t1] first_identifier[OF ok(1) assms(4)] ok(2)
    by (simp_all add: w1_def handle_event_def)
  note s = start_deadline[OF w1(1), where now = t2 and c = c'] start_identifier[of t2 c' w1]
  have w2: "wk_task w2 c' = 1" "wk_task w2 c = 1" "deadlines w2 = {(1, t2 + timeout mod 256 * 1000, c')}"
      "wk_open w2 c'" "wk_reading w2 c'" "wk_reading w2 c"
    using s w1 assms(2,3,6) by (auto simp: w2_def handle_event_def)
  have other: "c' \<noteq> c" using assms(3,6) by auto
  have w3: "deadlines w3 = {}" "wk_open w3 c'" "wk_reading w3 c'"
    using w2 other by (auto simp: w3_def handle_event_def cancel_deadline)
  have "runs False timeout ((t1, Tick) # es) w1"
    unfolding w1_def by (rule runs_snoc[OF assms(1) _ assms(5)]) (simp add: enabled_def)
  then have "runs False timeout ((t2, Start c') # (t1, Tick) # es) w2"
    unfolding w2_def by (rule runs_snoc) (use w1(5) assms(5,6,7) in \<open>auto simp: enabled_def\<close>)
  then have r: "runs False timeout ((t3, Failed c) # (t2, Start c') # (t1, Tick) # es) w3"
    unfolding w3_def by (rule runs_snoc) (use w2(6) assms(5,7,8) in \<open>auto simp: enabled_def\<close>)
  have "worker_ok w3" using runs_ok[OF r] by simp
  from no_deadlines_open[OF this w3(1,2)] r w2 w3 show ?thesis
    unfolding Let_def by (fold w1_def, fold w2_def, fold w3_def) simp
qed

theorem deadline_lost_witness:
  "\<exists>w. runs False 5 [(0, Start 1)] w \<and> wk_open w 1 \<and> \<not> wk_open (handle_event 5001 Tick w) 1
    \<and> (let w2 = handle_event 5002 (Start 2) (handle_event 5001 Tick w); w3 = handle_event 5003 (Failed 1) w2
       in deadlines w2 = {(1, 10002, 2)} \<and> deadlines w3 = {} \<and> wk_open w3 2
          \<and> (\<forall>nows. wk_open (fold (\<lambda>now. handle_event now Tick) nows w3) 2))"
proof -
  let ?w = "handle_event 0 (Start 1) (new_worker 5)"
  have w: "wk_reading ?w 1" "wk_task ?w 1 = 1" "deadlines ?w = {(1, 5000, 1)}" "wk_task ?w 2 = 0" "wk_open ?w 1"
      "\<not> wk_open (handle_event 5001 Tick ?w) 1" "wk_task (handle_event 5002 (Start 2) (handle_event 5001 Tick ?w)) 2 = 1"
    by (simp_all add: deadline_steps)
  from deadline_lost[OF first_start w(1,2), of 5001 2 5002 5003, unfolded Let_def] w(3,4)
  have "let w2 = handle_event 5002 (Start 2) (handle_event 5001 Tick ?w); w3 = handle_event 5003 (Failed 1) w2
      in deadlines w2 = {(1, 10002, 2)} \<and> deadlines w3 = {} \<and> wk_open w3 2
        \<and> (\<forall>nows. wk_open (fold (\<lambda>now. handle_event now Tick) nows w3) 2)"
    unfolding Let_def w(7) by simp
  with first_start w(5,6) show ?thesis by blast
qed

end
