(* ===== verification/Acceptor.thy ===== *)
theory Acceptor
  imports Prelude
begin

text \<open>
  How the server spreads its connections over the worker threads (crow/http_server.h): the number of
  workers, the queue length of each, which every connection counts up when it is made and down when it is
  destroyed, and the choice of a worker for the next connection.
\<close>

section \<open>Operations\<close>

text \<open>\<open>Crow::concurrency\<close> and the number of workers that \<open>Server::run\<close> starts.\<close>

definition concurrency :: "nat \<Rightarrow> nat" where
  "concurrency n = (if n < 2 then 2 else n)"

definition worker_thread_count :: "nat \<Rightarrow> nat" where
  "worker_thread_count n = (concurrency n - 1) mod 65536"

text \<open>The loop of \<open>pick_io_context_idx\<close>: it stops at a worker without connections.\<close>

function pick_loop :: "nat list \<Rightarrow> nat \<Rightarrow> nat \<Rightarrow> nat" where
  "pick_loop q i min_idx =
     (if i < length q \<and> 0 < q ! min_idx then pick_loop q (i + 1) (if q ! i < q ! min_idx then i else min_idx)
      else min_idx)"
  by pat_completeness auto
termination by (relation "measure (\<lambda>(q, i, _). length q - i)") auto

declare pick_loop.simps [simp del]

definition pick_io_context_idx :: "nat list \<Rightarrow> nat" where
  "pick_io_context_idx q = pick_loop q 1 0"

text \<open>\<open>do_accept\<close> makes the connection it waits for, unless the server is shutting down.\<close>

definition do_accept :: "bool \<Rightarrow> nat list \<Rightarrow> (nat \<times> nat list) option" where
  "do_accept shutting_down q =
     (if shutting_down then None
      else let i = pick_io_context_idx q in Some (i, q[i := q ! i + 1]))"

definition destroy_connection :: "nat \<Rightarrow> nat list \<Rightarrow> nat list" where
  "destroy_connection i q = q[i := q ! i - 1]"

text \<open>Several connections one after the other.\<close>

primrec accept_many :: "nat \<Rightarrow> nat list \<Rightarrow> nat list" where
  "accept_many 0 q = q"
| "accept_many (Suc k) q = (case do_accept False (accept_many k q) of Some (_, q') \<Rightarrow> q' | None \<Rightarrow> accept_many k q)"

section \<open>The choice\<close>

text \<open>The first of the shortest queues.\<close>

definition first_shortest :: "nat list \<Rightarrow> nat \<Rightarrow> bool" where
  "first_shortest q m \<longleftrightarrow> m < length q \<and> (\<forall>j < length q. q ! m \<le> q ! j) \<and> (\<forall>j < m. q ! m < q ! j)"

lemma first_shortest_unique: "first_shortest q m \<Longrightarrow> first_shortest q n \<Longrightarrow> m = n"
  unfolding first_shortest_def by (metis linorder_neqE_nat not_le)

lemma pick_loop_shortest:
  assumes "m < length q" "m < i" "i \<le> length q" "\<forall>j < i. q ! m \<le> q ! j" "\<forall>j < m. q ! m < q ! j"
  shows "first_shortest q (pick_loop q i m)"
  using assms
proof (induction q i m rule: pick_loop.induct)
  case (1 q i m)
  show ?case
  proof (cases "i < length q \<and> 0 < q ! m")
    case True
    let ?m = "if q ! i < q ! m then i else m"
    have "\<forall>j < i + 1. q ! ?m \<le> q ! j" "\<forall>j < ?m. q ! ?m < q ! j"
      using "1.prems"(4,5) by (auto simp: less_Suc_eq intro: order.strict_implies_order order.strict_trans2)
    then have "first_shortest q (pick_loop q (i + 1) ?m)"
      using "1.IH"[OF True] "1.prems"(1-3) True by auto
    then show ?thesis using True by (subst pick_loop.simps) simp
  next
    case False
    have "q ! m \<le> q ! j" if "j < length q" for j using False "1.prems"(3,4) that by (cases "j < i") auto
    then show ?thesis using False "1.prems"(1,5) by (subst pick_loop.simps) (auto simp: first_shortest_def)
  qed
qed

lemma pick_first_shortest: "q \<noteq> [] \<Longrightarrow> first_shortest q (pick_io_context_idx q)"
  unfolding pick_io_context_idx_def by (rule pick_loop_shortest) (auto simp: Suc_le_eq)

lemma workers_nonempty: "n < 65537 \<Longrightarrow> 0 < worker_thread_count n"
  by (auto simp: worker_thread_count_def concurrency_def mod_if)

text \<open>Queues filled in turn.\<close>

definition in_turn :: "nat \<Rightarrow> nat \<Rightarrow> nat list" where
  "in_turn n k = map (\<lambda>i. k div n + (if i < k mod n then 1 else 0)) [0..<n]"

lemma in_turn_next: "0 < n \<Longrightarrow> (in_turn n k)[k mod n := in_turn n k ! (k mod n) + 1] = in_turn n (Suc k)"
proof (rule nth_equalityI)
  fix i assume n: "0 < n" and "i < length ((in_turn n k)[k mod n := in_turn n k ! (k mod n) + 1])"
  then have i: "i < n" by (simp add: in_turn_def)
  have "k mod n < n" using n by simp
  then show "(in_turn n k)[k mod n := in_turn n k ! (k mod n) + 1] ! i = in_turn n (Suc k) ! i"
    using i by (auto simp: in_turn_def nth_list_update mod_Suc div_Suc)
qed (simp add: in_turn_def)

lemma in_turn_pick: "0 < n \<Longrightarrow> pick_io_context_idx (in_turn n k) = k mod n"
proof (rule first_shortest_unique[OF pick_first_shortest])
  assume n: "0 < n"
  then show "in_turn n k \<noteq> []" by (simp add: in_turn_def)
  have "k mod n < n" using n by simp
  then show "first_shortest (in_turn n k) (k mod n)" by (auto simp: first_shortest_def in_turn_def)
qed

section \<open>Properties\<close>

text \<open>C37. The server spreads its connections evenly: the worker it picks is the first of those with the fewest
  connections, and connections that stay open fill the workers in turn, so that after \<open>k\<close> of them each
  of \<open>n\<close> workers has \<open>k div n\<close>, and the first \<open>k mod n\<close> one more.\<close>

theorem accept_in_turn:
  assumes "0 < n" and "q \<noteq> []"
  shows "accept_many k (replicate n 0) = in_turn n k \<and> first_shortest q (pick_io_context_idx q)"
proof -
  have "accept_many k (replicate n 0) = in_turn n k"
  proof (induction k)
    case 0
    show ?case by (simp add: in_turn_def list_eq_iff_nth_eq)
  next
    case (Suc k)
    then show ?case using in_turn_pick[OF assms(1)] in_turn_next[OF assms(1)] by (simp add: do_accept_def Let_def)
  qed
  with pick_first_shortest[OF assms(2)] show ?thesis by blast
qed

theorem accept_in_turn_witness:
  "accept_many 7 (replicate 3 0) = [3, 2, 2] \<and> first_shortest [2, 1, 1] (pick_io_context_idx [2, 1, 1])"
proof -
  have "in_turn 3 7 = [3, 2, 2]" by code_simp
  then show ?thesis using accept_in_turn[of 3 "[2, 1, 1]" 7] by simp
qed

end
