(* ===== verification/Base64.thy ===== *)
theory Base64
  imports CppStd "HOL-Library.Word"
begin

text \<open>
  Base64 (\<open>base64encode\<close> and \<open>base64decode\<close> of crow/utility.h).  Bytes are 8-bit words; the decoder takes both
  alphabets, with or without padding, and computes the size of its result first.
\<close>

unbundle bit_operations_syntax

section \<open>Encoding\<close>

definition b64_alphabet :: string where
  "b64_alphabet = ''ABCDEFGHIJKLMNOPQRSTUVWXYZabcdefghijklmnopqrstuvwxyz0123456789+/''"

definition b64_alphabet_urlsafe :: string where
  "b64_alphabet_urlsafe = ''ABCDEFGHIJKLMNOPQRSTUVWXYZabcdefghijklmnopqrstuvwxyz0123456789-_''"

definition b64_char :: "string \<Rightarrow> 8 word \<Rightarrow> char" where
  "b64_char key i = key ! unat i"

text \<open>The variable \<open>h\<close>: the low bits of a byte, moved up for the next character.\<close>

definition low2 :: "8 word \<Rightarrow> 8 word" where "low2 b = push_bit 4 (b AND 0x03)"
definition low4 :: "8 word \<Rightarrow> 8 word" where "low4 b = push_bit 2 (b AND 0x0F)"

fun base64encode :: "string \<Rightarrow> 8 word list \<Rightarrow> string" where
  "base64encode key (a # b # c # rest) =
     b64_char key (drop_bit 2 (a AND 0xFC))
     # b64_char key (low2 a OR drop_bit 4 (b AND 0xF0))
     # b64_char key (low4 b OR drop_bit 6 (c AND 0xC0))
     # b64_char key (c AND 0x3F)
     # base64encode key rest"
| "base64encode key [a] =
     [b64_char key (drop_bit 2 (a AND 0xFC)), b64_char key (low2 a), CHR ''='', CHR ''='']"
| "base64encode key [a, b] =
     [b64_char key (drop_bit 2 (a AND 0xFC)), b64_char key (low2 a OR drop_bit 4 (b AND 0xF0)),
      b64_char key (low4 b), CHR ''='']"
| "base64encode key [] = []"

section \<open>Decoding\<close>

definition b64_value :: "char \<Rightarrow> 8 word" where
  "b64_value c =
     (if CHR ''A'' \<le> c \<and> c \<le> CHR ''Z'' then word_of_nat (char_code c - 65)
      else if CHR ''a'' \<le> c \<and> c \<le> CHR ''z'' then word_of_nat (char_code c - 97 + 26)
      else if CHR ''0'' \<le> c \<and> c \<le> CHR ''9'' then word_of_nat (char_code c - 48 + 52)
      else if c = CHR ''+'' \<or> c = CHR ''-'' then 62
      else if c = CHR ''/'' \<or> c = CHR ''_'' then 63
      else 0)"

text \<open>The size of the result; a subtraction below zero wraps around, and a string of that size cannot be made.\<close>

definition b64_size :: "string \<Rightarrow> nat option" where
  "b64_size data =
     (let n = length data
      in if n mod 4 = 2 then Some (n div 4 * 3 + 1)
         else if n mod 4 = 3 then Some (n div 4 * 3 + 2)
         else if 2 \<le> n \<and> data ! (n - 2) = CHR ''='' then
           (if n div 4 * 3 < 2 then None else Some (n div 4 * 3 - 2))
         else if 1 \<le> n \<and> data ! (n - 1) = CHR ''='' then
           (if n div 4 * 3 < 1 then None else Some (n div 4 * 3 - 1))
         else Some (n div 4 * 3))"

text \<open>The blocks, for as many bytes as the size says.\<close>

function b64_blocks :: "nat \<Rightarrow> string \<Rightarrow> 8 word list" where
  "b64_blocks n data =
     (let v = (\<lambda>i. b64_value (data ! i));
          first = push_bit 2 (v 0) OR drop_bit 4 (v 1 AND 0x30);
          second = push_bit 4 (v 1 AND 0x0F) OR drop_bit 2 (v 2 AND 0x3C);
          third = push_bit 6 (v 2 AND 0x03) OR v 3
      in if 3 \<le> n then first # second # third # b64_blocks (n - 3) (drop 4 data)
         else if n = 2 then [first, second]
         else if n = 1 then [first]
         else [])"
  by pat_completeness auto
termination by (relation "measure fst") auto

declare b64_blocks.simps [simp del]

definition base64decode :: "string \<Rightarrow> (8 word list) option" where
  "base64decode data = map_option (\<lambda>n. b64_blocks n data) (b64_size data)"

section \<open>Blocks\<close>

text \<open>A character stands for its value in either alphabet.\<close>

definition b64_key :: "string \<Rightarrow> bool" where
  "b64_key key \<longleftrightarrow> length key = 64 \<and> map b64_value key = map word_of_nat [0..<64] \<and> CHR ''='' \<notin> set key"

lemma alphabets: "b64_key b64_alphabet" "b64_key b64_alphabet_urlsafe"
  by code_simp+

lemma b64_value_char:
  assumes k: "b64_key key" and x: "unat x < 64"
  shows "b64_value (b64_char key x) = x"
proof -
  have n: "unat x < length key" using k x by (simp add: b64_key_def)
  have "b64_value (key ! unat x) = map word_of_nat [0..<64] ! unat x"
    using nth_map[OF n, of b64_value] k unfolding b64_key_def by metis
  also have "\<dots> = word_of_nat (unat x)" using x by (simp del: upt.simps)
  finally show ?thesis by (simp add: b64_char_def)
qed

lemma b64_char_pad: "b64_key key \<Longrightarrow> unat x < 64 \<Longrightarrow> b64_char key x \<noteq> CHR ''=''"
  by (metis b64_char_def b64_key_def nth_mem)

text \<open>The six-bit parts are below 64, and put together again they are the bytes.\<close>

lemma byte_eqI: "(\<And>n. n \<in> {0, 1, 2, 3, 4, 5, 6, 7} \<Longrightarrow> bit x n = bit y n) \<Longrightarrow> x = (y :: 8 word)"
proof (rule bit_word_eqI)
  fix n assume "\<And>n. n \<in> {0, 1, 2, 3, 4, 5, 6, 7} \<Longrightarrow> bit x n = bit y n" "n < LENGTH(8)"
  moreover have "n < 8 \<longleftrightarrow> n \<in> {0, 1, 2, 3, 4, 5, 6, 7}" by auto
  ultimately show "bit x n = bit y n" by simp
qed

lemma low_six: "x AND 0x3F = x \<Longrightarrow> unat (x :: 8 word) < 64"
proof -
  assume "x AND 0x3F = x"
  then have "take_bit 6 x = x" by (simp add: take_bit_eq_mask mask_eq_exp_minus_1)
  then have "unat x = take_bit 6 (unat x)" by (metis unsigned_take_bit_eq)
  then show ?thesis using take_bit_nat_less_exp[of 6 "unat x"] by simp
qed

lemma sextets_small:
  "unat (drop_bit 2 (a AND 0xFC) :: 8 word) < 64" "unat (low2 a OR drop_bit 4 (b AND 0xF0)) < 64"
  "unat (low4 b OR drop_bit 6 (c AND 0xC0)) < 64" "unat (c AND 0x3F :: 8 word) < 64"
  "unat (low2 a) < 64" "unat (low4 b) < 64"
  by (rule low_six, rule byte_eqI, (elim insertE emptyE; simp add: bit_simps low2_def low4_def))+

lemma bytes_again:
  "push_bit 2 (drop_bit 2 (a AND 0xFC)) OR drop_bit 4 ((low2 a OR drop_bit 4 (b AND 0xF0)) AND 0x30) = a"
  "push_bit 2 (drop_bit 2 (a AND 0xFC)) OR drop_bit 4 (low2 a AND 0x30) = a"
  "push_bit 4 ((low2 a OR drop_bit 4 (b AND 0xF0)) AND 0x0F) OR drop_bit 2 ((low4 b OR drop_bit 6 (c AND 0xC0)) AND 0x3C) = b"
  "push_bit 4 ((low2 a OR drop_bit 4 (b AND 0xF0)) AND 0x0F) OR drop_bit 2 (low4 b AND 0x3C) = b"
  "push_bit 6 ((low4 b OR drop_bit 6 (c AND 0xC0)) AND 0x03) OR (c AND 0x3F) = c"
  by (rule byte_eqI, (elim insertE emptyE; simp add: bit_simps low2_def low4_def; simp add: numeral_2_eq_2 numeral_3_eq_3)?)+

text \<open>The same as the simplifier writes them.\<close>

lemmas bytes_again_simp = bytes_again[simplified]

section \<open>Decoding inverts encoding\<close>

definition unpadded :: "string \<Rightarrow> string" where
  "unpadded = takeWhile (\<lambda>c. c \<noteq> CHR ''='')"

text \<open>Four characters that are no padding in front of a text add three bytes to its size.\<close>

lemma b64_size_step:
  assumes "2 \<le> length s"
  shows "b64_size (w # x # y # z # s) = map_option ((+) 3) (b64_size s)"
proof -
  define data where "data = w # x # y # z # s"
  have ends: "data ! (length data - 2) = s ! (length s - 2)" "data ! (length data - 1) = s ! (length s - 1)"
    using assms by (auto simp: data_def nth_Cons' numeral_eq_Suc)
  have len: "length data = length s + 4" by (simp add: data_def)
  have parts: "length data mod 4 = length s mod 4" "length data div 4 * 3 = length s div 4 * 3 + 3"
    unfolding len by presburger+
  have large: "length s mod 4 = 2 \<or> length s mod 4 = 3 \<or> 2 \<le> length s div 4 * 3"
    using assms by presburger
  have two: "2 \<le> length data" "1 \<le> length data" "1 \<le> length s" using assms len by simp_all
  show ?thesis unfolding data_def[symmetric] b64_size_def Let_def ends parts
    using large two assms by (simp only: if_True simp_thms) (auto split: if_split)
qed

lemma encode_parts:
  assumes "b64_key key"
  shows "b64_size (base64encode key bs) = Some (length bs)" "b64_size (unpadded (base64encode key bs)) = Some (length bs)"
    "bs \<noteq> [] \<Longrightarrow> 2 \<le> length (unpadded (base64encode key bs))"
    "b64_blocks (length bs) (base64encode key bs) = bs" "b64_blocks (length bs) (unpadded (base64encode key bs)) = bs"
proof -
  note pad = b64_char_pad[OF assms sextets_small(1)] b64_char_pad[OF assms sextets_small(2)] b64_char_pad[OF assms sextets_small(3)]
    b64_char_pad[OF assms sextets_small(4)] b64_char_pad[OF assms sextets_small(5)] b64_char_pad[OF assms sextets_small(6)]
  note val = b64_value_char[OF assms sextets_small(1)] b64_value_char[OF assms sextets_small(2)] b64_value_char[OF assms sextets_small(3)]
    b64_value_char[OF assms sextets_small(4)] b64_value_char[OF assms sextets_small(5)] b64_value_char[OF assms sextets_small(6)]
  have all: "k = key \<Longrightarrow> b64_size (base64encode k bs) = Some (length bs) \<and> b64_size (unpadded (base64encode k bs)) = Some (length bs)
      \<and> (bs \<noteq> [] \<longrightarrow> 2 \<le> length (unpadded (base64encode k bs)) \<and> 2 \<le> length (base64encode k bs))
      \<and> b64_blocks (length bs) (base64encode k bs) = bs \<and> b64_blocks (length bs) (unpadded (base64encode k bs)) = bs" for k
  proof (induction k bs rule: base64encode.induct)
    case (1 k a b c rest)
    show ?case
    proof (cases "rest = []")
      case True
      then show ?thesis using 1 pad val
        by (simp add: unpadded_def b64_size_def b64_blocks.simps bytes_again_simp Let_def)
    next
      case False
      then show ?thesis using 1 pad val
        by (simp add: unpadded_def b64_size_step b64_blocks.simps[of "Suc (Suc (Suc n))" for n] bytes_again_simp Let_def)
    qed
  qed (use pad val in \<open>simp_all add: unpadded_def b64_size_def b64_blocks.simps bytes_again_simp Let_def\<close>)
  then show "b64_size (base64encode key bs) = Some (length bs)" "b64_size (unpadded (base64encode key bs)) = Some (length bs)"
    "bs \<noteq> [] \<Longrightarrow> 2 \<le> length (unpadded (base64encode key bs))"
    "b64_blocks (length bs) (base64encode key bs) = bs" "b64_blocks (length bs) (unpadded (base64encode key bs)) = bs"
    by auto
qed

section \<open>Properties\<close>

text \<open>C40. Base64 is read back: decoding inverts encoding, with the standard and with the URL-safe alphabet, and
  whether or not the padding is kept; a single padding character makes the decoder fail.\<close>

theorem base64_roundtrip:
  "base64decode (base64encode b64_alphabet bs) = Some bs \<and> base64decode (base64encode b64_alphabet_urlsafe bs) = Some bs
    \<and> base64decode (unpadded (base64encode b64_alphabet bs)) = Some bs
    \<and> base64decode (unpadded (base64encode b64_alphabet_urlsafe bs)) = Some bs \<and> base64decode ''='' = None"
  using encode_parts[OF alphabets(1), of bs] encode_parts[OF alphabets(2), of bs]
  by (simp add: base64decode_def b64_size_def Let_def)

end
