(* ===== verification/Multipart.thy ===== *)
theory Multipart
  imports Response JsonRead
begin

text \<open>
  Multipart messages (crow/multipart.h, and crow/multipart_view.h where it differs): a body is cut at its
  delimiters into sections, a section into header lines and data, a line into a name, a value and
  parameters.  A position that \<open>find\<close> does not give is \<open>npos\<close>, and adding to it wraps around.  Maps are
  lists in the order of insertion; the order in which a hash map is traversed is left open by the standard.
\<close>

section \<open>Messages\<close>

abbreviation crlf_text :: string where
  "crlf_text \<equiv> [CHR 0x0D, CHR 0x0A]"

abbreviation dd :: string where
  "dd \<equiv> ''--''"

record mp_header =
  mh_value :: string
  mh_params :: "(string, string) umap"

record mp_part =
  mp_headers :: "(string \<times> mp_header) list"
  mp_body :: string

record mp_message =
  mm_headers :: ci_map
  mm_boundary :: string
  mm_parts :: "mp_part list"
  mm_part_map :: "(string \<times> mp_part) list"

text \<open>\<open>Undefined\<close>: the end iterator of a map is dereferenced.\<close>

datatype mp_error = Bad_request string | Out_of_range | Undefined

definition empty_header :: mp_header where
  "empty_header = \<lparr> mh_value = [], mh_params = [] \<rparr>"

definition get_header_object :: "(string \<times> mp_header) list \<Rightarrow> string \<Rightarrow> mp_header" where
  "get_header_object hs key =
     (case filter (\<lambda>(k, _). ci_key_eq k key) hs of [] \<Rightarrow> empty_header | (_, h) # _ \<Rightarrow> h)"

text \<open>The name of a part.\<close>

definition part_name :: "mp_part \<Rightarrow> mp_error + string" where
  "part_name p =
     (case umap_find (mh_params (get_header_object (mp_headers p) ''Content-Disposition'')) ''name'' of
        None \<Rightarrow> Inl Undefined | Some n \<Rightarrow> Inr n)"

section \<open>Writing\<close>

definition mp_pad :: "string \<Rightarrow> string" where
  "mp_pad s = CHR 0x22 # s @ [CHR 0x22]"

definition dump_header :: "string \<times> mp_header \<Rightarrow> string" where
  "dump_header = (\<lambda>(k, h).
     k @ '': '' @ mh_value h @ concat (map (\<lambda>(p, v). ''; '' @ p @ ''='' @ mp_pad v) (mh_params h)) @ crlf_text)"

definition dump_part :: "mp_part \<Rightarrow> string" where
  "dump_part p = concat (map dump_header (mp_headers p)) @ crlf_text @ mp_body p @ crlf_text"

definition dump_message :: "string \<Rightarrow> mp_part list \<Rightarrow> string" where
  "dump_message boundary parts =
     (let delimiter = dd @ boundary
      in concat (map (\<lambda>p. delimiter @ crlf_text @ dump_part p) parts) @ delimiter @ dd @ crlf_text)"

text \<open>The constructor from parts, with the content type it announces.\<close>

definition mp_content_type :: "string \<Rightarrow> string" where
  "mp_content_type boundary = ''multipart/form-data; boundary='' @ (if boundary = [] then ''CROW-BOUNDARY'' else boundary)"

fun name_parts :: "mp_part list \<Rightarrow> mp_error + (string \<times> mp_part) list" where
  "name_parts [] = Inr []"
| "name_parts (p # ps) =
     (case part_name p of Inl e \<Rightarrow> Inl e
      | Inr n \<Rightarrow> (case name_parts ps of Inl e \<Rightarrow> Inl e | Inr m \<Rightarrow> Inr ((n, p) # m)))"

definition message_of_parts :: "ci_map \<Rightarrow> string \<Rightarrow> mp_part list \<Rightarrow> mp_error + mp_message" where
  "message_of_parts headers boundary sections =
     (case name_parts sections of
        Inl e \<Rightarrow> Inl e
      | Inr m \<Rightarrow> Inr \<lparr> mm_headers = headers, mm_boundary = boundary, mm_parts = sections, mm_part_map = m \<rparr>)"

definition get_part_by_name :: "mp_message \<Rightarrow> string \<Rightarrow> mp_part" where
  "get_part_by_name m name =
     (case filter (\<lambda>(k, _). ci_key_eq k name) (mm_part_map m) of
        [] \<Rightarrow> \<lparr> mp_headers = [], mp_body = [] \<rparr> | (_, p) # _ \<Rightarrow> p)"

section \<open>Reading\<close>

definition mp_trim :: "string \<Rightarrow> string" where
  "mp_trim s =
     (if 1 < length s \<and> s ! 0 = CHR 0x22 \<and> s ! (length s - 1) = CHR 0x22 then take (length s - 2) (drop 1 s) else s)"

function parse_params :: "string \<Rightarrow> (string, string) umap \<Rightarrow> (string, string) umap" where
  "parse_params line params =
     (if line = [] then params
      else
        let found_semicolon = str_find ''; '' line;
            param = (case found_semicolon of None \<Rightarrow> line | Some i \<Rightarrow> take i line);
            line = (case found_semicolon of None \<Rightarrow> [] | Some i \<Rightarrow> drop (i + 2) line);
            param_split = str_find ''='' param;
            value = (case param_split of None \<Rightarrow> param | Some i \<Rightarrow> drop (i + 1) param);
            key = (case param_split of None \<Rightarrow> param | Some i \<Rightarrow> take i param)
        in parse_params line (umap_emplace (key, mp_trim value) params))"
  by pat_completeness auto
termination by (relation "measure (\<lambda>(line, _). length line)") (auto split: option.splits)

declare parse_params.simps [simp del]

text \<open>One line: the name, the value and the parameters.\<close>

definition parse_header_line :: "string \<Rightarrow> mp_error + (string \<times> mp_header)" where
  "parse_header_line line =
     (if line = [] then Inr ([], empty_header)
      else
        let found_semicolon = str_find ''; '' line;
            header = (case found_semicolon of None \<Rightarrow> line | Some i \<Rightarrow> take i line);
            line = (case found_semicolon of None \<Rightarrow> [] | Some i \<Rightarrow> drop (i + 2) line);
            header_split = str_find '': '' header;
            key = (case header_split of None \<Rightarrow> header | Some i \<Rightarrow> take i header);
            start = (case header_split of None \<Rightarrow> 1 | Some i \<Rightarrow> i + 2)
        in if length header < start then Inl Out_of_range
           else Inr (key, \<lparr> mh_value = drop start header, mh_params = parse_params line [] \<rparr>))"

function parse_section_head :: "string \<Rightarrow> (string \<times> mp_header) list \<Rightarrow> mp_error + (string \<times> mp_header) list" where
  "parse_section_head lines hs =
     (if lines = [] then Inr hs
      else
        let found_crlf = str_find crlf_text lines;
            line = (case found_crlf of None \<Rightarrow> lines | Some i \<Rightarrow> take i lines);
            lines = drop (case found_crlf of None \<Rightarrow> 1 | Some i \<Rightarrow> i + 2) lines
        in case parse_header_line line of Inl e \<Rightarrow> Inl e | Inr h \<Rightarrow> parse_section_head lines (hs @ [h]))"
  by pat_completeness auto
termination by (relation "measure (\<lambda>(lines, _). length lines)") (auto split: option.splits)

declare parse_section_head.simps [simp del]

definition parse_section :: "string \<Rightarrow> mp_error + mp_part" where
  "parse_section section =
     (let found = str_find (crlf_text @ crlf_text) section;
          head_line = take (case found of None \<Rightarrow> 1 | Some i \<Rightarrow> i + 2) section;
          section = drop (case found of None \<Rightarrow> 3 | Some i \<Rightarrow> i + 4) section
      in case parse_section_head head_line [] of
           Inl e \<Rightarrow> Inl e
         | Inr hs \<Rightarrow> Inr \<lparr> mp_headers = hs, mp_body = take (if length section < 2 then length section else length section - 2) section \<rparr>)"

function parse_body :: "string \<Rightarrow> string \<Rightarrow> mp_part list \<Rightarrow> (string \<times> mp_part) list
    \<Rightarrow> mp_error + mp_part list \<times> (string \<times> mp_part) list" where
  "parse_body boundary body parts part_map =
     (if body = crlf_text then Inr (parts, part_map)
      else case str_find (dd @ boundary) body of
        None \<Rightarrow> Inl (Bad_request ''Unable to find delimiter in multipart message. Probably ill-formed body'')
      | Some found \<Rightarrow>
          let section = take found body; body = drop (found + length (dd @ boundary) + 2) body
          in if section \<noteq> [] then
               (case parse_section section of
                  Inl e \<Rightarrow> Inl e
                | Inr p \<Rightarrow>
                    (case part_name p of
                       Inl e \<Rightarrow> Inl e
                     | Inr n \<Rightarrow> parse_body boundary body (parts @ [p]) (part_map @ [(n, p)])))
             else parse_body boundary body parts part_map)"
  by pat_completeness auto
termination
  by (relation "measure (\<lambda>(_, body, _, _). length body)") (auto dest: str_find_Some)

declare parse_body.simps [simp del]

definition get_boundary :: "string \<Rightarrow> string" where
  "get_boundary header =
     (case str_find ''boundary='' header of
        None \<Rightarrow> []
      | Some found \<Rightarrow>
          let to_return = drop (found + 9) header
          in if peek to_return = CHR 0x22 then
               take (if length to_return < 2 then length to_return else length to_return - 2) (drop 1 to_return)
             else to_return)"

definition message_of_request :: "ci_map \<Rightarrow> string \<Rightarrow> mp_error + mp_message" where
  "message_of_request headers body =
     (let boundary = get_boundary (get_header_value headers ''Content-Type'')
      in if boundary = [] then Inl (Bad_request ''Empty boundary in multipart message'')
         else case parse_body boundary body [] [] of
           Inl e \<Rightarrow> Inl e
         | Inr (parts, m) \<Rightarrow>
             Inr \<lparr> mm_headers = headers, mm_boundary = boundary, mm_parts = parts, mm_part_map = m \<rparr>)"

section \<open>Reading without copies\<close>

text \<open>
  \<open>message_view\<close> cuts views instead of erasing: \<open>substr\<close> past the end throws, and a missing delimiter ends the
  loop without an error.
\<close>

definition view_parse_section :: "string \<Rightarrow> mp_error + mp_part" where
  "view_parse_section section =
     (let found = str_find (crlf_text @ crlf_text) section;
          head_line = take (case found of None \<Rightarrow> 1 | Some i \<Rightarrow> i + 2) section;
          start = (case found of None \<Rightarrow> 3 | Some i \<Rightarrow> i + 4);
          rest = drop start section
      in if length section < start then Inl Out_of_range
         else case parse_section_head head_line [] of
           Inl e \<Rightarrow> Inl e
         | Inr hs \<Rightarrow> Inr \<lparr> mp_headers = hs, mp_body = take (if length rest < 2 then length rest else length rest - 2) rest \<rparr>)"

function view_parse_body :: "string \<Rightarrow> string \<Rightarrow> mp_part list \<Rightarrow> (string \<times> mp_part) list
    \<Rightarrow> mp_error + mp_part list \<times> (string \<times> mp_part) list" where
  "view_parse_body boundary body parts part_map =
     (if body = crlf_text then Inr (parts, part_map)
      else case str_find (dd @ boundary) body of
        None \<Rightarrow> Inr (parts, part_map)
      | Some found \<Rightarrow>
          if length body < found + length (dd @ boundary) + 2 then Inl Out_of_range
          else
            let section = take found body; body = drop (found + length (dd @ boundary) + 2) body
            in if section \<noteq> [] then
                 (case view_parse_section section of
                    Inl e \<Rightarrow> Inl e
                  | Inr p \<Rightarrow>
                      (case part_name p of
                         Inl e \<Rightarrow> Inl e
                       | Inr n \<Rightarrow> view_parse_body boundary body (parts @ [p]) (part_map @ [(n, p)])))
               else view_parse_body boundary body parts part_map)"
  by pat_completeness auto
termination
  by (relation "measure (\<lambda>(_, body, _, _). length body)") (auto dest: str_find_Some)

declare view_parse_body.simps [simp del]

section \<open>Finding a text\<close>

text \<open>Where a text does not begin it is not found.\<close>

lemma str_find_skip:
  "(\<And>j. j < length s \<Longrightarrow> \<not> prefix t (drop j (s @ u))) \<Longrightarrow> str_find t (s @ u) = map_option ((+) (length s)) (str_find t u)"
proof (induction s)
  case (Cons c s)
  have "\<not> prefix t (c # s @ u)" using Cons.prems[of 0] by simp
  moreover have "str_find t (s @ u) = map_option ((+) (length s)) (str_find t u)"
    using Cons.prems[of "Suc _"] by (intro Cons.IH) simp
  ultimately show ?case by (cases "str_find t u") simp_all
qed (cases "str_find t u"; simp)

lemma str_find_prefix: "prefix t s \<Longrightarrow> str_find t s = Some 0"
  by (cases s) auto

lemma str_find_here: "str_find t (t @ r) = Some 0"
  by (rule str_find_prefix) simp

lemma prefix_drop_mem: "prefix (c # t) (drop j (s @ u)) \<Longrightarrow> j < length s \<Longrightarrow> c \<in> set s"
proof -
  assume p: "prefix (c # t) (drop j (s @ u))" and j: "j < length s"
  then obtain x xs where d: "drop j s = x # xs" by (metis Cons_nth_drop_Suc)
  with p j have "x = c" by simp
  then show ?thesis using d by (metis in_set_dropD list.set_intros(1))
qed

lemma str_find_fresh:
  "c \<notin> set s \<Longrightarrow> str_find (c # t) (s @ u) = map_option ((+) (length s)) (str_find (c # t) u)"
  using prefix_drop_mem by (intro str_find_skip) fast

lemma str_find_fresh_here: "c \<notin> set s \<Longrightarrow> str_find (c # t) (s @ c # t @ r) = Some (length s)"
  using str_find_fresh[of c s t "c # t @ r"] str_find_here[of "c # t" r] by simp

lemma str_find_fresh_None: "c \<notin> set s \<Longrightarrow> str_find (c # t) s = None"
  using str_find_fresh[of c s t "[]"] by simp

text \<open>A text without a line feed is not found across the end of a line.\<close>

lemma str_find_after_line:
  assumes "\<not> sublist t (s @ [CHR 0x0A])" "CHR 0x0A \<notin> set t" "t \<noteq> []"
  shows "str_find t ((s @ [CHR 0x0A]) @ t @ r) = Some (length (s @ [CHR 0x0A]))"
proof -
  let ?s = "s @ [CHR 0x0A]"
  have "\<not> prefix t (drop j (?s @ t @ r))" if j: "j < length ?s" for j
  proof
    assume "prefix t (drop j (?s @ t @ r))"
    then obtain zs where "drop j ?s @ t @ r = t @ zs" using j by (auto simp: prefix_def)
    then consider us where "drop j ?s = t @ us" | us where "drop j ?s @ us = t"
      by (auto simp: append_eq_append_conv2)
    then show False
    proof cases
      case 1
      then have "prefix t (drop j ?s)" by simp
      then have "sublist t ?s" by (meson prefix_imp_sublist sublist_drop sublist_order.order.trans)
      with assms(1) show False by simp
    next
      case 2
      have "CHR 0x0A \<in> set (drop j ?s)" using j by (cases "j = length s") auto
      with 2 assms(2) show False by auto
    qed
  qed
  from str_find_skip[OF this] show ?thesis by (simp add: str_find_here)
qed

section \<open>Reading what was written\<close>

abbreviation params_text :: "(string, string) umap \<Rightarrow> string" where
  "params_text ps \<equiv> concat (map (\<lambda>(p, v). ''; '' @ p @ ''='' @ mp_pad v) ps)"

definition param_ok :: "string \<times> string \<Rightarrow> bool" where
  "param_ok = (\<lambda>(p, v). CHR ''='' \<notin> set p \<and> CHR '';'' \<notin> set p \<and> CHR '';'' \<notin> set v \<and> CHR 0x0D \<notin> set p \<and> CHR 0x0D \<notin> set v)"

lemma mp_trim_pad: "mp_trim (mp_pad v) = v"
  by (simp add: mp_trim_def mp_pad_def nth_append)

lemma parse_params_step:
  "str_find ''; '' (t @ ''; '' @ w) = Some (length t) \<Longrightarrow> str_find ''='' t = Some i
    \<Longrightarrow> parse_params (t @ ''; '' @ w) acc = parse_params w (umap_emplace (take i t, mp_trim (drop (i + 1) t)) acc)"
  by (subst parse_params.simps) simp

lemma parse_params_last:
  "str_find ''; '' t = None \<Longrightarrow> str_find ''='' t = Some i \<Longrightarrow> parse_params t acc = umap_emplace (take i t, mp_trim (drop (i + 1) t)) acc"
  by (subst parse_params.simps, cases "t = []") (simp_all add: parse_params.simps[of "[]"])

lemma parse_params_text:
  "list_all param_ok ps \<Longrightarrow> parse_params (drop 2 (params_text ps)) acc = fold umap_emplace ps acc"
proof (induction ps arbitrary: acc)
  case Nil
  then show ?case by (simp add: parse_params.simps)
next
  case (Cons pv ps)
  obtain p v where pv: "pv = (p, v)" by (cases pv)
  let ?t = "p @ ''='' @ mp_pad v"
  have ok: "CHR ''='' \<notin> set p" "CHR '';'' \<notin> set ?t" using Cons.prems by (auto simp: pv param_ok_def mp_pad_def)
  have split: "str_find ''='' ?t = Some (length p)" using str_find_fresh_here[OF ok(1), of "[]"] by simp
  have parts: "take (length p) ?t = p" "mp_trim (drop (length p + 1) ?t) = v" by (simp_all add: mp_trim_pad)
  show ?case
  proof (cases ps)
    case Nil
    then show ?thesis using parse_params_last[OF str_find_fresh_None[OF ok(2)] split] parts by (simp add: pv)
  next
    case (Cons pv' ps')
    then obtain w where w: "params_text ps = ''; '' @ w" by (cases pv') auto
    have "str_find ''; '' (?t @ ''; '' @ w) = Some (length ?t)"
      using str_find_fresh_here[OF ok(2), of "'' ''" w] by simp
    from parse_params_step[OF this split, of acc] have "parse_params (?t @ ''; '' @ w) acc = parse_params w (umap_emplace pv acc)"
      unfolding parts pv .
    moreover have "drop 2 (params_text (pv # ps)) = ?t @ ''; '' @ w" using w by (simp add: pv)
    moreover have "parse_params w (umap_emplace pv acc) = fold umap_emplace ps (umap_emplace pv acc)"
      using Cons.IH[of "umap_emplace pv acc"] Cons.prems w by simp
    ultimately show ?thesis by simp
  qed
qed

text \<open>A header line.\<close>

definition mp_header_ok :: "string \<times> mp_header \<Rightarrow> bool" where
  "mp_header_ok = (\<lambda>(k, h). CHR '':'' \<notin> set k \<and> CHR '';'' \<notin> set k \<and> CHR '';'' \<notin> set (mh_value h)
     \<and> CHR 0x0D \<notin> set k \<and> CHR 0x0D \<notin> set (mh_value h)
     \<and> list_all param_ok (mh_params h) \<and> distinct (map fst (mh_params h)))"

abbreviation header_text :: "string \<times> mp_header \<Rightarrow> string" where
  "header_text kh \<equiv> fst kh @ '': '' @ mh_value (snd kh) @ params_text (mh_params (snd kh))"

lemma dump_header_text: "dump_header kh = header_text kh @ crlf_text"
  by (cases kh) (simp add: dump_header_def)

lemma emplace_all:
  "distinct (map fst (acc @ ps)) \<Longrightarrow> fold umap_emplace ps acc = acc @ ps"
proof (induction ps arbitrary: acc)
  case (Cons p ps)
  then have "umap_find acc (fst p) = None" by (auto simp: umap_find_def map_of_eq_None_iff)
  then show ?case using Cons by (simp add: umap_emplace_def)
qed simp

lemma parse_header_parts:
  assumes "line \<noteq> []" "str_find '': '' H = Some i"
    and "(case str_find ''; '' line of None \<Rightarrow> line | Some i \<Rightarrow> take i line) = H"
    and "(case str_find ''; '' line of None \<Rightarrow> [] | Some i \<Rightarrow> drop (i + 2) line) = R"
  shows "parse_header_line line = Inr (take i H, \<lparr> mh_value = drop (i + 2) H, mh_params = parse_params R [] \<rparr>)"
  using assms(1,2) str_find_Some[OF assms(2)] unfolding parse_header_line_def Let_def assms(3,4) by simp

lemma parse_header_text:
  assumes "mp_header_ok kh"
  shows "parse_header_line (header_text kh) = Inr kh"
proof -
  obtain k h where kh: "kh = (k, h)" by (cases kh)
  let ?h = "k @ '': '' @ mh_value h" and ?ps = "params_text (mh_params h)"
  have ok: "CHR '':'' \<notin> set k" "CHR '';'' \<notin> set ?h" "list_all param_ok (mh_params h)" "distinct (map fst (mh_params h))"
    using assms by (auto simp: kh mp_header_ok_def)
  have "parse_params (drop 2 ?ps) [] = mh_params h"
    using parse_params_text[OF ok(3)] emplace_all[of "[]" "mh_params h"] ok(4) by simp
  moreover have cut: "(case str_find ''; '' (?h @ ?ps) of None \<Rightarrow> ?h @ ?ps | Some i \<Rightarrow> take i (?h @ ?ps)) = ?h
      \<and> (case str_find ''; '' (?h @ ?ps) of None \<Rightarrow> [] | Some i \<Rightarrow> drop (i + 2) (?h @ ?ps)) = drop 2 ?ps"
  proof (cases "mh_params h")
    case Nil
    then show ?thesis using str_find_fresh_None[OF ok(2)] by simp
  next
    case (Cons pv ps)
    then obtain w where w: "?ps = ''; '' @ w" by (cases pv) auto
    have "str_find ''; '' (?h @ ''; '' @ w) = Some (length ?h)"
      using str_find_fresh_here[OF ok(2), of "'' ''" w] by simp
    then show ?thesis unfolding w by (simp del: append_assoc)
  qed
  moreover have split: "str_find '': '' ?h = Some (length k)"
    using str_find_fresh_here[OF ok(1), of "'' ''" "mh_value h"] by simp
  ultimately have "parse_header_line (?h @ ?ps) = Inr (take (length k) ?h, \<lparr> mh_value = drop (length k + 2) ?h, mh_params = mh_params h \<rparr>)"
    using parse_header_parts[OF _ split conjunct1[OF cut] conjunct2[OF cut]] by (simp del: append_assoc)
  then show ?thesis by (simp add: kh)
qed

text \<open>The lines of a section, and the section itself.\<close>

lemma text_no_cr: "mp_header_ok kh \<Longrightarrow> CHR 0x0D \<notin> set (header_text kh)"
  by (cases kh) (fastforce simp: mp_header_ok_def param_ok_def list_all_iff mp_pad_def)

lemma parse_head_step:
  "CHR 0x0D \<notin> set t \<Longrightarrow> parse_section_head (t @ crlf_text @ r) acc =
     (case parse_header_line t of Inl e \<Rightarrow> Inl e | Inr h \<Rightarrow> parse_section_head r (acc @ [h]))"
proof -
  assume "CHR 0x0D \<notin> set t"
  from str_find_fresh_here[OF this, of "[CHR 0x0A]" r] have f: "str_find crlf_text (t @ crlf_text @ r) = Some (length t)" by simp
  have "take (length t) (t @ crlf_text @ r) = t" "drop (length t + 2) (t @ crlf_text @ r) = r" "t @ crlf_text @ r \<noteq> []" by simp_all
  then show ?thesis by (subst parse_section_head.simps) (simp only: f Let_def option.case if_False)
qed

lemma parse_head_texts:
  "list_all mp_header_ok hs \<Longrightarrow> parse_section_head (concat (map dump_header hs)) acc = Inr (acc @ hs)"
proof (induction hs arbitrary: acc)
  case Nil
  then show ?case by (simp add: parse_section_head.simps)
next
  case (Cons kh hs)
  then have ok: "mp_header_ok kh" by simp
  have "parse_section_head (concat (map dump_header (kh # hs))) acc = parse_section_head (concat (map dump_header hs)) (acc @ [kh])"
    using parse_head_step[OF text_no_cr[OF ok], of "concat (map dump_header hs)" acc] parse_header_text[OF ok]
    by (simp add: dump_header_text)
  then show ?case using Cons by simp
qed

text \<open>The empty line is found behind the last of the lines.\<close>

lemma end_after_line:
  assumes "CHR 0x0D \<notin> set t" "u = [] \<or> hd u \<noteq> CHR 0x0D"
  shows "str_find (crlf_text @ crlf_text) (t @ crlf_text @ u) = map_option ((+) (length t + 2)) (str_find (crlf_text @ crlf_text) u)"
proof -
  have "\<not> prefix (crlf_text @ crlf_text) (drop j ((t @ crlf_text) @ u))" if j: "j < length (t @ crlf_text)" for j
  proof (cases "j < length t")
    case True
    then show ?thesis using prefix_drop_mem[of "CHR 0x0D" "CHR 0x0A # crlf_text" j t "crlf_text @ u"] assms(1) by auto
  next
    case False
    then have "j - length t = 0 \<or> j - length t = 1" using j by auto
    moreover have "drop j ((t @ crlf_text) @ u) = drop (j - length t) crlf_text @ u" using False j by (auto simp: drop_Cons')
    ultimately show ?thesis using assms(2) by (cases u) auto
  qed
  from str_find_skip[OF this] show ?thesis by simp
qed

lemma end_of_head:
  "list_all mp_header_ok hs \<Longrightarrow> hs \<noteq> []
    \<Longrightarrow> str_find (crlf_text @ crlf_text) (concat (map dump_header hs) @ crlf_text @ r) = Some (length (concat (map dump_header hs)) - 2)"
proof (induction hs)
  case (Cons kh hs)
  then have ok: "CHR 0x0D \<notin> set (header_text kh)" by (intro text_no_cr) simp
  show ?case
  proof (cases hs)
    case Nil
    then show ?thesis using str_find_fresh_here[OF ok, of "CHR 0x0A # crlf_text" r] by (simp add: dump_header_text)
  next
    case (Cons kh' hs')
    let ?u = "concat (map dump_header hs) @ crlf_text @ r"
    have "CHR 0x0D \<notin> set (header_text kh')" using Cons.prems Cons by (intro text_no_cr) simp
    then have "hd ?u \<noteq> CHR 0x0D" unfolding Cons by (cases "fst kh'") (auto simp: dump_header_text)
    then have "str_find (crlf_text @ crlf_text) (header_text kh @ crlf_text @ ?u)
        = map_option ((+) (length (header_text kh) + 2)) (str_find (crlf_text @ crlf_text) ?u)"
      by (intro end_after_line[OF ok]) simp
    also have "str_find (crlf_text @ crlf_text) ?u = Some (length (concat (map dump_header hs)) - 2)"
      using Cons.IH Cons.prems Cons by simp
    finally have "str_find (crlf_text @ crlf_text) (header_text kh @ crlf_text @ ?u)
        = Some (length (header_text kh) + 2 + (length (concat (map dump_header hs)) - 2))" by simp
    moreover have "2 \<le> length (concat (map dump_header hs))" unfolding Cons by (simp add: dump_header_text)
    moreover have "concat (map dump_header (kh # hs)) @ crlf_text @ r = header_text kh @ crlf_text @ ?u"
      by (simp add: dump_header_text)
    moreover have "length (concat (map dump_header (kh # hs))) = length (header_text kh) + 2 + length (concat (map dump_header hs))"
      by (simp add: dump_header_text)
    ultimately show ?thesis by simp
  qed
qed simp

lemma parse_dumped_part:
  assumes "list_all mp_header_ok (mp_headers p)" "mp_headers p \<noteq> []"
  shows "parse_section (dump_part p) = Inr p"
proof -
  let ?h = "concat (map dump_header (mp_headers p))"
  have h: "2 \<le> length ?h" using assms(2) by (cases "mp_headers p") (simp_all add: dump_header_text)
  have f: "str_find (crlf_text @ crlf_text) (?h @ crlf_text @ mp_body p @ crlf_text) = Some (length ?h - 2)"
    using end_of_head[OF assms] by simp
  have step: "parse_section s = (case parse_section_head (take (i + 2) s) [] of Inl e \<Rightarrow> Inl e
      | Inr hs \<Rightarrow> Inr \<lparr> mp_headers = hs, mp_body = take (if length (drop (i + 4) s) < 2 then length (drop (i + 4) s)
          else length (drop (i + 4) s) - 2) (drop (i + 4) s) \<rparr>)"
    if "str_find (crlf_text @ crlf_text) s = Some i" for s i
    unfolding parse_section_def that Let_def option.case ..
  have cut: "take (length ?h - 2 + 2) (?h @ crlf_text @ mp_body p @ crlf_text) = ?h"
    "drop (length ?h - 2 + 4) (?h @ crlf_text @ mp_body p @ crlf_text) = mp_body p @ crlf_text"
  proof -
    have "length ?h - 2 + 2 = length ?h" "length ?h - 2 + 4 = length ?h + 2" using h by simp_all
    then show "take (length ?h - 2 + 2) (?h @ crlf_text @ mp_body p @ crlf_text) = ?h"
      "drop (length ?h - 2 + 4) (?h @ crlf_text @ mp_body p @ crlf_text) = mp_body p @ crlf_text"
      by simp_all
  qed
  show ?thesis unfolding dump_part_def step[OF f] cut parse_head_texts[OF assms(1)] by simp
qed

text \<open>The body.\<close>

definition part_ok :: "string \<Rightarrow> mp_part \<Rightarrow> bool" where
  "part_ok boundary p \<longleftrightarrow> list_all mp_header_ok (mp_headers p) \<and> mp_headers p \<noteq> []
     \<and> \<not> str_contains (dump_part p) (dd @ boundary)"

lemma dump_part_ne: "dump_part p \<noteq> []"
  by (simp add: dump_part_def)

lemma dump_message_Cons:
  "dump_message boundary (p # ps) = (dd @ boundary) @ crlf_text @ dump_part p @ dump_message boundary ps"
  "dump_message boundary [] = (dd @ boundary) @ dd @ crlf_text"
  by (simp_all add: dump_message_def Let_def)

lemma dump_message_starts: "\<exists>r. dump_message boundary ps = (dd @ boundary) @ r"
  by (cases ps) (auto simp only: dump_message_Cons)

lemma parse_body_step:
  assumes "str_find (dd @ boundary) (s @ (dd @ boundary) @ r) = Some (length s)" "s @ (dd @ boundary) @ r \<noteq> crlf_text"
  shows "parse_body boundary (s @ (dd @ boundary) @ r) parts m =
     (if s = [] then parse_body boundary (drop 2 r) parts m
      else case parse_section s of Inl e \<Rightarrow> Inl e
        | Inr p \<Rightarrow> (case part_name p of Inl e \<Rightarrow> Inl e
            | Inr n \<Rightarrow> parse_body boundary (drop 2 r) (parts @ [p]) (m @ [(n, p)])))"
proof -
  have "drop (length s + length (dd @ boundary) + 2) (s @ (dd @ boundary) @ r) = drop 2 r"
    unfolding drop_append by simp
  moreover have "take (length s) (s @ (dd @ boundary) @ r) = s" by simp
  ultimately show ?thesis using assms(2)
    by (subst parse_body.simps) (simp only: assms(1) Let_def option.case if_False if_not_P if_cancel split: if_split; simp)
qed

abbreviation named :: "mp_error + (string \<times> mp_part) list \<Rightarrow> mp_part list \<Rightarrow> mp_part list \<Rightarrow> (string \<times> mp_part) list
    \<Rightarrow> mp_error + mp_part list \<times> (string \<times> mp_part) list" where
  "named r ps parts m \<equiv> (case r of Inl e \<Rightarrow> Inl e | Inr m' \<Rightarrow> Inr (parts @ ps, m @ m'))"

lemma parse_body_parts:
  assumes b: "CHR 0x0A \<notin> set boundary" and "list_all (part_ok boundary) ps"
  shows "dump_message boundary ps = (dd @ boundary) @ r \<Longrightarrow> parse_body boundary (drop 2 r) parts m = named (name_parts ps) ps parts m"
  using assms(2)
proof (induction ps arbitrary: r parts m)
  case Nil
  then have "r = dd @ crlf_text" unfolding dump_message_Cons by simp
  then show ?case by (simp add: parse_body.simps)
next
  case (Cons p ps)
  obtain r' where r': "dump_message boundary ps = (dd @ boundary) @ r'" using dump_message_starts by blast
  have r: "drop 2 r = dump_part p @ (dd @ boundary) @ r'" using Cons.prems(1) unfolding dump_message_Cons r' by (auto dest: sym)
  obtain d where d: "dump_part p = d @ [CHR 0x0A]" by (simp add: dump_part_def)
  have ok: "part_ok boundary p" using Cons.prems by simp
  then have "\<not> sublist (dd @ boundary) (d @ [CHR 0x0A])" unfolding d[symmetric] by (simp add: part_ok_def str_contains_iff)
  from str_find_after_line[OF this, of r'] b have f: "str_find (dd @ boundary) (dump_part p @ (dd @ boundary) @ r') = Some (length (dump_part p))"
    by (simp add: d)
  have "dump_part p @ (dd @ boundary) @ r' \<noteq> crlf_text" by (auto simp: dump_part_def dest: arg_cong[of _ _ length])
  from parse_body_step[OF f this] have "parse_body boundary (drop 2 r) parts m =
      (case part_name p of Inl e \<Rightarrow> Inl e | Inr n \<Rightarrow> parse_body boundary (drop 2 r') (parts @ [p]) (m @ [(n, p)]))"
    using ok parse_dumped_part[of p] dump_part_ne unfolding r by (simp add: part_ok_def del: append_assoc append.simps)
  then show ?case using Cons.IH[OF r'] Cons.prems by (auto split: sum.splits)
qed

text \<open>The boundary is found in the content type.\<close>

definition boundary_ok :: "string \<Rightarrow> bool" where
  "boundary_ok boundary \<longleftrightarrow> boundary \<noteq> [] \<and> hd boundary \<noteq> CHR 0x22 \<and> CHR 0x0A \<notin> set boundary"

lemma get_boundary_content_type: "boundary_ok b \<Longrightarrow> get_boundary (mp_content_type b) = b"
proof -
  assume b: "boundary_ok b"
  have "str_find ''boundary='' (''multipart/form-data; '' @ ''boundary='' @ b) = Some 21"
    using str_find_fresh_here[of "CHR ''b''" "''multipart/form-data; ''" "''oundary=''" b] by simp
  then have f: "str_find ''boundary='' (mp_content_type b) = Some 21" using b by (simp add: mp_content_type_def boundary_ok_def)
  have "drop (21 + 9) (mp_content_type b) = b" using b by (simp add: mp_content_type_def boundary_ok_def)
  then show ?thesis using b unfolding get_boundary_def f by (cases b) (simp_all add: peek_def boundary_ok_def)
qed

section \<open>Views\<close>

text \<open>Where \<open>message\<close> reads a section of a named part, \<open>message_view\<close> reads the same.\<close>

lemma short_section_unnamed:
  assumes "section \<noteq> []" "length section < 3" "parse_section section = Inr p" "str_find (crlf_text @ crlf_text) section = None"
  shows "part_name p = Inl Undefined"
proof -
  obtain c where c: "take 1 section = [c]" using assms(1) by (cases "section") auto
  have no: "str_find crlf_text [c] = None" "str_find ''; '' [c] = None" "str_find '': '' [c] = None" by simp_all
  have "parse_header_line [c] = Inr ([c], empty_header)"
    unfolding parse_header_line_def Let_def no by (simp add: empty_header_def parse_params.simps)
  then have "parse_section_head [c] [] = Inr [([c], empty_header)]"
    by (subst parse_section_head.simps) (simp add: Let_def parse_section_head.simps[of "[]"])
  then have "mp_headers p = [([c], empty_header)]" using assms(3) c
    unfolding parse_section_def assms(4) Let_def option.case by auto
  then show ?thesis by (simp add: part_name_def get_header_object_def empty_header_def string_equals_def)
qed

lemma view_section:
  assumes "section \<noteq> []" "parse_section section = Inr p" "part_name p = Inr n"
  shows "view_parse_section section = Inr p"
proof -
  have "\<not> length section < (case str_find (crlf_text @ crlf_text) section of None \<Rightarrow> 3 | Some i \<Rightarrow> i + 4)"
  proof (cases "str_find (crlf_text @ crlf_text) section")
    case None
    then show ?thesis using short_section_unnamed[OF assms(1) _ assms(2)] assms(3) by (cases "length section < 3") auto
  next
    case (Some i)
    then show ?thesis using str_find_Some[OF Some] by simp
  qed
  then show ?thesis using assms(2) unfolding view_parse_section_def parse_section_def Let_def by (simp only: if_False)
qed

text \<open>So on every body that \<open>message\<close> accepts the two agree.\<close>

lemma view_agrees:
  "parse_body boundary body parts m = Inr res \<Longrightarrow> view_parse_body boundary body parts m = Inr res"
proof (induction boundary body parts m rule: parse_body.induct)
  case (1 boundary body parts m)
  show ?case
  proof (cases "body = crlf_text")
    case True
    then show ?thesis using "1.prems" by (simp add: parse_body.simps view_parse_body.simps)
  next
    case body: False
    then obtain found where f: "str_find (dd @ boundary) body = Some found"
      using "1.prems" by (subst (asm) parse_body.simps) (auto split: option.splits)
    let ?section = "take found body" and ?rest = "drop (found + length (dd @ boundary) + 2) body"
    have enough: "\<not> length body < found + length (dd @ boundary) + 2"
    proof
      assume "length body < found + length (dd @ boundary) + 2"
      then have "?rest = []" by simp
      moreover have "parse_body boundary [] parts' m' \<noteq> Inr res" for parts' m' by (simp add: parse_body.simps)
      ultimately show False using "1.prems" body f
        by (subst (asm) parse_body.simps) (auto simp: Let_def split: if_splits sum.splits)
    qed
    show ?thesis
    proof (cases "?section = []")
      case True
      then have "parse_body boundary ?rest parts m = Inr res"
        using "1.prems" body f by (subst (asm) parse_body.simps) (simp add: Let_def)
      from "1.IH"(2)[OF body f refl refl _ this] True show ?thesis
        using body f enough by (subst view_parse_body.simps) (simp add: Let_def)
    next
      case False
      then obtain p n where p: "parse_section ?section = Inr p" "part_name p = Inr n"
          and rest: "parse_body boundary ?rest (parts @ [p]) (m @ [(n, p)]) = Inr res"
        using "1.prems" body f by (subst (asm) parse_body.simps) (auto simp: Let_def split: sum.splits)
      from "1.IH"(1)[OF body f refl refl False p rest] view_section[OF False p] show ?thesis
        using False body f enough p(2) by (subst view_parse_body.simps) (simp add: Let_def)
    qed
  qed
qed

section \<open>Properties\<close>

text \<open>C39. A multipart message is read back: the text of a message, received with the content type it announces, is
  read as the message it was made from, with the same parts under the same names, by \<open>message\<close> and
  part for part by \<open>message_view\<close>.  Every part must have a header, keep separators out of its header fields and not
  hold the delimiter; the boundary must not be empty, begin with a quote or hold a line feed (\<open>boundary_ok\<close>).\<close>

theorem multipart_read_back:
  assumes "boundary_ok b" and "list_all (part_ok b) ps" and "get_header_value hs ''Content-Type'' = mp_content_type b"
    and "message_of_parts hs b ps = Inr m"
  shows "message_of_request hs (dump_message b ps) = Inr m
    \<and> view_parse_body b (dump_message b ps) [] [] = Inr (mm_parts m, mm_part_map m)"
proof -
  obtain r where r: "dump_message b ps = (dd @ b) @ r" using dump_message_starts by blast
  have "str_find (dd @ b) ([] @ (dd @ b) @ r) = Some (length ([] :: string))" by (simp only: append_Nil list.size str_find_here)
  moreover have "[] @ (dd @ b) @ r \<noteq> crlf_text" by simp
  ultimately have first: "parse_body b (dump_message b ps) [] [] = parse_body b (drop 2 r) [] []"
    using parse_body_step[of b "[]" r "[]" "[]"] r by simp
  also have "\<dots> = named (name_parts ps) ps [] []"
    using parse_body_parts[OF _ assms(2) r, of "[]" "[]"] assms(1) by (simp add: boundary_ok_def)
  finally have body: "parse_body b (dump_message b ps) [] [] = Inr (mm_parts m, mm_part_map m)"
    using assms(4) by (auto simp: message_of_parts_def split: sum.splits)
  moreover have "b \<noteq> []" using assms(1) by (simp add: boundary_ok_def)
  ultimately have "message_of_request hs (dump_message b ps) = Inr m"
    using assms(3,4) get_boundary_content_type[OF assms(1)]
    by (auto simp: message_of_request_def message_of_parts_def Let_def split: sum.splits)
  with view_agrees[OF body] show ?thesis by blast
qed

theorem multipart_read_back_witness:
  "\<exists>m. message_of_request [(''content-type'', ''multipart/form-data; boundary=XY'')]
      (dump_message ''XY'' [\<lparr> mp_headers = [(''Content-Disposition'', \<lparr> mh_value = ''form-data'', mh_params = [(''name'', ''a'')] \<rparr>)],
        mp_body = ''1'' \<rparr>]) = Inr m \<and> map fst (mm_part_map m) = [''a'']"
proof -
  let ?p = "\<lparr> mp_headers = [(''Content-Disposition'', \<lparr> mh_value = ''form-data'', mh_params = [(''name'', ''a'')] \<rparr>)], mp_body = ''1'' \<rparr>"
  let ?hs = "[(''content-type'', ''multipart/form-data; boundary=XY'')]"
  have "boundary_ok ''XY''" "list_all (part_ok ''XY'') [?p]" "get_header_value ?hs ''Content-Type'' = mp_content_type ''XY''"
    by code_simp+
  moreover have "message_of_parts ?hs ''XY'' [?p] = Inr \<lparr> mm_headers = ?hs, mm_boundary = ''XY'', mm_parts = [?p], mm_part_map = [(''a'', ?p)] \<rparr>"
    by code_simp
  ultimately show ?thesis using multipart_read_back[of "''XY''" "[?p]" ?hs] by force
qed

end
