(* ===== verification/Spec2Isabelle.thy ===== *)
theory Spec2Isabelle
  imports Prelude CppStd Csv Fp AirDb Geo Crc Zip JsonWrite JsonRead JsonAccess Response Files Reports Server QueryString RouteTrie Router App
    HttpParser ParserFields HttpRequest HeaderNames RequestText Connection Service TaskTimer Deadlines Acceptor Base64 Multipart
begin

text \<open>
  A verification library for the air-travel server: a C++ program (\<open>server.cpp\<close>, \<open>airdp.cpp\<close>,
  \<open>airdb.h\<close>) over the HTTP framework Crow (the directory \<open>crow\<close>).  The program loads three CSV files into
  a database, registers 22 routes and runs the framework's server, which adds a 23rd for static files.

  \<^bold>\<open>How the parts interact.\<close>  Bytes from a socket go to the HTTP parser, which calls a connection back
  with the parts of a request.  The connection asks the router for a rule as soon as the URL is read, and
  runs it when the message is complete; a rule's handler queries the database and builds a response,
  often a JSON text, a CSV text or an archive; the connection writes the response and goes on with the next
  request.  The theories follow this from the bottom up, and \<open>Service\<close> puts them together: its property
  \<open>program_serves\<close> speaks of the bytes a client sends and of those it receives.

  \<^bold>\<open>Theories and sources.\<close>
  \<^item> \<open>Prelude\<close>, \<open>CppStd\<close>: lemmas shared by all; the parts of the C++ library the sources call (\<open>std::string\<close>,
    \<open>getline\<close>, \<open>stoi\<close>, \<open>strtoll\<close>, \<open>sort\<close>, \<open>unordered_map\<close>), with the contracts of a comparator
    (\<open>strict_weak_order\<close>, \<open>key_order\<close>) and of a keyed container (\<open>keyed_store\<close>) as locales.
  \<^item> \<open>Csv\<close>, \<open>Fp\<close>, \<open>AirDb\<close>, \<open>Geo\<close>: \<open>airdp.cpp\<close> and \<open>airdb.h\<close>.  A database is a record of the five tables; each
    loader is a fold over the lines of its file; the queries are functions of the record.
  \<^item> \<open>Crc\<close>, \<open>Zip\<close>, \<open>Reports\<close>, \<open>Server\<close>: \<open>server.cpp\<close> up to \<open>main\<close>: checksum and archive, reports, and the other handlers,
    each a function of the database, the files and the arguments of its route.
  \<^item> \<open>JsonWrite\<close>, \<open>JsonRead\<close>, \<open>JsonAccess\<close>: \<open>crow/json.h\<close>, the writing and the reading half, and the accessors of both, with the
    contract of a lookup that changes the state it searches as a locale (\<open>lazy_lookup\<close>).
  \<^item> \<open>Response\<close>, \<open>Files\<close>: \<open>crow/http_response.h\<close>, \<open>ci_map.h\<close>; files as bodies with \<open>sanitize_filename\<close> of
    \<open>crow/utility.h\<close>, \<open>mime_types.h\<close> and \<open>add_static_dir\<close> of \<open>crow/app.h\<close>.
  \<^item> \<open>QueryString\<close>: \<open>crow/query_string.h\<close>, on one buffer that all its pointers share.
  \<^item> \<open>RouteTrie\<close>, \<open>Router\<close>: \<open>crow/routing.h\<close>: the search tree, then rules, registration, validation and dispatch.
  \<^item> \<open>App\<close>: \<open>main\<close> of \<open>server.cpp\<close> and \<open>run\<close> of \<open>crow/app.h\<close>: the table of routes on the router.
  \<^item> \<open>HttpParser\<close>, \<open>ParserFields\<close>, \<open>HttpRequest\<close>, \<open>HeaderNames\<close>, \<open>RequestText\<close>: \<open>crow/http_parser_merged.h\<close>, state by state, and the
    object of \<open>crow/parser.h\<close> that collects a request.
  \<^item> \<open>Connection\<close>, \<open>Service\<close>: \<open>crow/http_connection.h\<close>, and the program behind it with the settings of \<open>crow/app.h\<close>.
  \<^item> \<open>TaskTimer\<close>, \<open>Deadlines\<close>: \<open>crow/task_timer.h\<close>, with the contract of a store of deadlines as a locale, and the deadlines of the
    connections of a worker (\<open>start_deadline\<close>, \<open>cancel_deadline_timer\<close> of \<open>crow/http_connection.h\<close> and their callers).
  \<^item> \<open>Acceptor\<close>: the choice of a worker thread for a connection (\<open>crow/http_server.h\<close>).
  \<^item> \<open>Base64\<close>, \<open>Multipart\<close>: the two conversions of \<open>crow/utility.h\<close>; messages of several parts (\<open>crow/multipart.h\<close>, and
    \<open>crow/multipart_view.h\<close> where it differs).
  The program itself does not call \<open>JsonRead\<close>, \<open>JsonAccess\<close>, \<open>Base64\<close> and \<open>Multipart\<close>; they belong to the framework's interface.

  \<^bold>\<open>How code is modelled.\<close>  A class is a record, an enumeration a datatype, a method that changes its object
  a function from record to record.  An exception is the left side of a sum; a C++ program that would
  not return is \<open>None\<close>.  Integers are unbounded where the code cannot reach the width of their type, and
  words or explicit remainders where it can (checksums, archive fields, 16-bit rule indices, \<open>stoi\<close>).
  The in-place algorithms (query strings, JSON unescaping) work on an explicit buffer.

  \<^bold>\<open>What the lemmas show.\<close>  Of the database: an invariant that every loader keeps, and exact
  specifications of the replies of lookups, suggestions, counts and the one-hop search.  Of formats: round trips for
  CSV rows and whole data files, JSON (and the lookup of members in what was read), the archive, header
  blocks, query strings, multipart messages, base64 and whole requests.  Of
  optimised code: the table-driven checksum, the haversine formula, the letter automaton for header names and
  the in-place decoder equal plain descriptions.  Of the router: the tree finds the least matching rule,
  and the table of the program sends each documented path, and no other, to its handler.  Of the
  connection: every request is answered with exactly one response, in order; it is closed when it should
  be; and what happens to requests that are malformed, have no rule, or wait for a \<open>100 Continue\<close>.  Of deadlines:
  a tick closes only connections that have been idle for the timeout, and in an orderly run every such one; and
  how a deadline is lost in the runs that are not orderly.  Of workers: connections fill them in turn.  Of file
  names: a sanitized name cannot leave its directory.  Termination of the parsers is proved as such.

  \<^bold>\<open>Parameters.\<close>  \<open>fpops\<close>: the operations on \<open>double\<close> and the printing of them (theorems on distances take
  the exact instance \<open>real_fp\<close>); \<open>strtod\<close>; the file system \<open>fs\<close>, the contents of the regular files, the same at every
  moment; \<open>base\<close>, the address of the read buffer.  Each theorem with hypotheses has a witness, a concrete case.

  \<^bold>\<open>Bounds and fuel.\<close>  The JSON parser takes fuel, and one more than the length of the text is enough
  (\<open>load_total\<close>).  The loop of the HTTP parser is a \<open>partial_function\<close>, and it returns for every input and every
  callback (\<open>parser_returns\<close>); so does \<open>Trie::add\<close>, exactly for the patterns with known tags (\<open>trie_add_exact\<close>).
  Whole requests are read back up to the size for which the parser's own counter of header bytes cannot
  exceed its limit of 80 KiB (\<open>small\<close>), to which every byte of a header counts (\<open>header_bytes_counted\<close>), with
  bodies of less than \<open>10 ^ 18\<close> bytes (\<open>length_limit\<close>).

  \<^bold>\<open>Not modelled.\<close>  Sockets, threads and signals (\<open>http_server.h\<close>, \<open>socket_acceptors.h\<close>, \<open>socket_adaptors.h\<close>) are calls of
  asio; the deadlines of a worker are modelled as the events it handles one after the other, each with its time, apart
  from the bytes that are read.  The program uses no websockets, templates, blueprints, middlewares or compression; these parts
  of the framework, its logging and its compile-time helpers are left out, and so are the packages under
  \<open>vcpkg_installed\<close> and the page in the browser.  Writing to a socket succeeds; reading the port and
  printing to the console are left out.
\<close>

end
